theory Spec2Isabelle
  imports Main "HOL-Library.Word" "HOL-Library.Multiset"
begin

unbundle bit_operations_syntax

section \<open>Data model\<close>

text \<open>
  The sorter of \<^verbatim>\<open>src/WikiSort.c\<close> works on a \<^verbatim>\<open>char *array\<close> that it addresses only
  as \<^verbatim>\<open>&array[size * i]\<close>: item \<open>i\<close> of an array of items of \<^verbatim>\<open>size\<close> bytes each.
  The array is modelled as the list of its items, an index as the 64-bit \<^verbatim>\<open>size_t\<close> of the
  source (\<^verbatim>\<open>__LP64__\<close>), whose arithmetic wraps around, and a comparator as a function from
  two items to the \<^verbatim>\<open>int\<close> it returns.

  A computation either does not return (\<open>None\<close>), or stops at an access outside the memory
  object it addresses or at a division by zero (\<open>Some (Inl e)\<close>), or returns a value
  (\<open>Some (Inr x)\<close>).
\<close>

type_synonym size_t = "64 word"

datatype error = OutOfBounds | DivisionByZero

type_synonym 'a comp = "(error + 'a) option"

definition ret :: "'a \<Rightarrow> 'a comp" where
  "ret x = Some (Inr x)"

definition fault :: "error \<Rightarrow> 'a comp" where
  "fault e = Some (Inl e)"

definition bnd :: "'a comp \<Rightarrow> ('a \<Rightarrow> 'b comp) \<Rightarrow> 'b comp" where
  "bnd m f = (case m of None \<Rightarrow> None | Some (Inl e) \<Rightarrow> Some (Inl e) | Some (Inr x) \<Rightarrow> f x)"

lemma bnd_mono [partial_function_mono]:
  assumes mf: "mono_option B" and mg: "\<And>y. mono_option (\<lambda>f. C y f)"
  shows "mono_option (\<lambda>f. bnd (B f) (\<lambda>y. C y f))"
proof (rule monotoneI)
  fix f g :: "'a \<Rightarrow> 'b option"
  assume fg: "fun_ord option_ord f g"
  from mf have 1: "option_ord (B f) (B g)" by (rule monotoneD) (rule fg)
  from mg have 2: "\<And>y. option_ord (C y f) (C y g)" by (rule monotoneD) (rule fg)
  show "option_ord (bnd (B f) (\<lambda>y. C y f)) (bnd (B g) (\<lambda>y. C y g))"
  proof (cases "B f")
    case None
    then show ?thesis by (simp add: bnd_def flat_ord_def)
  next
    case (Some r)
    with 1 have "B g = Some r" by (simp add: flat_ord_def)
    with Some 2 show ?thesis by (cases r) (simp_all add: bnd_def flat_ord_def)
  qed
qed

lemma bnd_cong [cong]: "m = m' \<Longrightarrow> bnd m f = bnd m' f"
  by simp

lemma bnd_ret [simp]: "bnd (ret x) f = f x"
  by (simp add: bnd_def ret_def)

lemma bnd_fault [simp]: "bnd (fault e) f = fault e"
  by (simp add: bnd_def fault_def)

lemma bnd_None [simp]: "bnd None f = None"
  by (simp add: bnd_def)

lemma ret_neq [simp]: "ret x \<noteq> fault e" "fault e \<noteq> ret x" "ret x \<noteq> None" "fault e \<noteq> None"
  "None \<noteq> ret x" "None \<noteq> fault e"
  by (simp_all add: ret_def fault_def)

lemma ret_inject [simp]: "ret x = ret y \<longleftrightarrow> x = y"
  by (simp add: ret_def)

lemma fault_inject [simp]: "fault e = fault e' \<longleftrightarrow> e = e'"
  by (simp add: fault_def)

lemma bnd_eq_ret:
  "bnd m f = ret y \<longleftrightarrow> (\<exists>x. m = ret x \<and> f x = ret y)"
  by (auto simp: bnd_def ret_def split: option.splits sum.splits)

text \<open>\<^verbatim>\<open>typedef struct { size_t start; size_t end; } Range;\<close>\<close>

record Range =
  start :: size_t
  end' :: size_t

definition Range_length :: "Range \<Rightarrow> size_t" where
  "Range_length rng = end' rng - start rng"

definition Range_new :: "size_t \<Rightarrow> size_t \<Rightarrow> Range" where
  "Range_new start0 end0 = \<lparr>start = start0, end' = end0\<rparr>"

definition Min_sz :: "size_t \<Rightarrow> size_t \<Rightarrow> size_t" where
  "Min_sz a b = (if a \<le> b then a else b)"

definition Max_sz :: "size_t \<Rightarrow> size_t \<Rightarrow> size_t" where
  "Max_sz a b = (if a > b then a else b)"

section \<open>Memory accesses\<close>

text \<open>
  Reading item \<open>i\<close>: what a comparator does with the pointer \<^verbatim>\<open>&array[size * i]\<close>. An
  index that is not below the number of items of the memory object is an access outside it;
  the product \<^verbatim>\<open>size * i\<close> is not followed where it wraps around.
\<close>

definition item :: "'a list \<Rightarrow> size_t \<Rightarrow> 'a comp" where
  "item array i = (if unat i < length array then ret (array ! unat i) else fault OutOfBounds)"

text \<open>\<^verbatim>\<open>compare(&array[size * i], &array[size * j])\<close>\<close>

definition compare_at :: "('a \<Rightarrow> 'a \<Rightarrow> int) \<Rightarrow> 'a list \<Rightarrow> size_t \<Rightarrow> size_t \<Rightarrow> int comp" where
  "compare_at compare array i j =
     bnd (item array i) (\<lambda>a. bnd (item array j) (\<lambda>b. ret (compare a b)))"

text \<open>\<^verbatim>\<open>Swap(&array[size * i], &array[size * j], size)\<close>: the two items change places.\<close>

definition Swap :: "'a list \<Rightarrow> size_t \<Rightarrow> size_t \<Rightarrow> 'a list comp" where
  "Swap array i j =
     (if unat i < length array \<and> unat j < length array
      then ret (array[unat i := array ! unat j, unat j := array ! unat i])
      else fault OutOfBounds)"

text \<open>
  \<^verbatim>\<open>memcpy(&dst[size * d], &src[size * s], n * size)\<close> and \<^verbatim>\<open>memmove\<close>: \<open>n\<close> items of
  \<open>src\<close> from \<open>s\<close> on replace the items of \<open>dst\<close> from \<open>d\<close> on. Nothing is accessed when
  \<open>n = 0\<close>.
\<close>

definition memcpy :: "'a list \<Rightarrow> size_t \<Rightarrow> 'a list \<Rightarrow> size_t \<Rightarrow> size_t \<Rightarrow> 'a list comp" where
  "memcpy dst d src s n =
     (if n = 0 then ret dst
      else if unat s + unat n \<le> length src \<and> unat d + unat n \<le> length dst
      then ret (take (unat d) dst @ take (unat n) (drop (unat s) src) @ drop (unat d + unat n) dst)
      else fault OutOfBounds)"

section \<open>Toolbox functions\<close>

text \<open>
  \<^verbatim>\<open>for (index = Range_length(range) / 2; index > 0; index--)
    Swap(&array[size * (range.start + index - 1)], &array[size * (range.end - index)], size);\<close>
\<close>

partial_function (option) Reverse_loop :: "'a list \<Rightarrow> Range \<Rightarrow> size_t \<Rightarrow> 'a list comp" where
  "Reverse_loop array rng index =
     (if index > 0
      then bnd (Swap array (start rng + index - 1) (end' rng - index))
             (\<lambda>array. Reverse_loop array rng (index - 1))
      else ret array)"

definition Reverse :: "'a list \<Rightarrow> Range \<Rightarrow> 'a list comp" where
  "Reverse array rng = Reverse_loop array rng (Range_length rng div 2)"

text \<open>
  \<^verbatim>\<open>for (index = 0; index < block_size; index++)
    Swap(&array[size * (start1 + index)], &array[size * (start2 + index)], size);\<close>
\<close>

partial_function (option) BlockSwap_loop ::
  "'a list \<Rightarrow> size_t \<Rightarrow> size_t \<Rightarrow> size_t \<Rightarrow> size_t \<Rightarrow> 'a list comp" where
  "BlockSwap_loop array start1 start2 block_size index =
     (if index < block_size
      then bnd (Swap array (start1 + index) (start2 + index))
             (\<lambda>array. BlockSwap_loop array start1 start2 block_size (index + 1))
      else ret array)"

definition BlockSwap :: "'a list \<Rightarrow> size_t \<Rightarrow> size_t \<Rightarrow> size_t \<Rightarrow> 'a list comp" where
  "BlockSwap array start1 start2 block_size = BlockSwap_loop array start1 start2 block_size 0"

text \<open>
  \<^verbatim>\<open>Rotate(array, size, amount, range, cache, cache_size)\<close>. The cache is a second memory
  object; the result is the pair of the array and the cache.
\<close>

definition Rotate ::
  "'a list \<Rightarrow> size_t \<Rightarrow> Range \<Rightarrow> 'a list \<Rightarrow> size_t \<Rightarrow> ('a list \<times> 'a list) comp" where
  "Rotate array amount rng cache cache_size =
     (if Range_length rng = 0 then ret (array, cache)
      else
        let split = start rng + amount;
            range1 = Range_new (start rng) split;
            range2 = Range_new split (end' rng)
        in
          if Range_length range1 \<le> Range_length range2 \<and> Range_length range1 \<le> cache_size
          then
            bnd (memcpy cache 0 array (start range1) (Range_length range1)) (\<lambda>cache.
            bnd (memcpy array (start range1) array (start range2) (Range_length range2)) (\<lambda>array.
            bnd (memcpy array (start range1 + Range_length range2) cache 0 (Range_length range1))
              (\<lambda>array. ret (array, cache))))
          else if \<not> Range_length range1 \<le> Range_length range2 \<and> Range_length range2 \<le> cache_size
          then
            bnd (memcpy cache 0 array (start range2) (Range_length range2)) (\<lambda>cache.
            bnd (memcpy array (end' range2 - Range_length range1) array (start range1)
                   (Range_length range1)) (\<lambda>array.
            bnd (memcpy array (start range1) cache 0 (Range_length range2))
              (\<lambda>array. ret (array, cache))))
          else
            bnd (Reverse array range1) (\<lambda>array.
            bnd (Reverse array range2) (\<lambda>array.
            bnd (Reverse array rng) (\<lambda>array. ret (array, cache)))))"

section \<open>Search primitives\<close>

text \<open>
  The \<^verbatim>\<open>char *value\<close> that the searches receive is, at every call of the source, a pointer
  \<^verbatim>\<open>&array[size * v]\<close> into the array itself; it is modelled as the index \<open>v\<close> and read
  when the comparator is called.

  \<^verbatim>\<open>while (start < end) { size_t mid = start + (end - start) / 2;
    if (compare(&array[size * mid], value) < 0) start = mid + 1; else end = mid; }\<close>
\<close>

partial_function (option) BinaryFirst_loop ::
  "('a \<Rightarrow> 'a \<Rightarrow> int) \<Rightarrow> 'a list \<Rightarrow> size_t \<Rightarrow> size_t \<Rightarrow> size_t \<Rightarrow> size_t comp" where
  "BinaryFirst_loop compare array val start0 end0 =
     (if start0 < end0
      then let mid = start0 + (end0 - start0) div 2 in
        bnd (compare_at compare array mid val) (\<lambda>c.
          if c < 0 then BinaryFirst_loop compare array val (mid + 1) end0
          else BinaryFirst_loop compare array val start0 mid)
      else ret start0)"

definition BinaryFirst ::
  "'a list \<Rightarrow> size_t \<Rightarrow> Range \<Rightarrow> ('a \<Rightarrow> 'a \<Rightarrow> int) \<Rightarrow> size_t comp" where
  "BinaryFirst array val rng compare =
     (if start rng \<ge> end' rng then ret (start rng)
      else
        bnd (BinaryFirst_loop compare array val (start rng) (end' rng - 1)) (\<lambda>start0.
          if start0 = end' rng - 1
          then bnd (compare_at compare array start0 val) (\<lambda>c.
                 if c < 0 then ret (start0 + 1) else ret start0)
          else ret start0))"

text \<open>
  \<^verbatim>\<open>while (start < end) { size_t mid = start + (end - start) / 2;
    if (compare(value, &array[size * mid]) >= 0) start = mid + 1; else end = mid; }\<close>
\<close>

partial_function (option) BinaryLast_loop ::
  "('a \<Rightarrow> 'a \<Rightarrow> int) \<Rightarrow> 'a list \<Rightarrow> size_t \<Rightarrow> size_t \<Rightarrow> size_t \<Rightarrow> size_t comp" where
  "BinaryLast_loop compare array val start0 end0 =
     (if start0 < end0
      then let mid = start0 + (end0 - start0) div 2 in
        bnd (compare_at compare array val mid) (\<lambda>c.
          if c \<ge> 0 then BinaryLast_loop compare array val (mid + 1) end0
          else BinaryLast_loop compare array val start0 mid)
      else ret start0)"

definition BinaryLast ::
  "'a list \<Rightarrow> size_t \<Rightarrow> Range \<Rightarrow> ('a \<Rightarrow> 'a \<Rightarrow> int) \<Rightarrow> size_t comp" where
  "BinaryLast array val rng compare =
     (if start rng \<ge> end' rng then ret (end' rng)
      else
        bnd (BinaryLast_loop compare array val (start rng) (end' rng - 1)) (\<lambda>start0.
          if start0 = end' rng - 1
          then bnd (compare_at compare array val start0) (\<lambda>c.
                 if c \<ge> 0 then ret (start0 + 1) else ret start0)
          else ret start0))"

text \<open>
  \<^verbatim>\<open>skip = Max(Range_length(range) / unique, 1)\<close>: the division traps when
  \<^verbatim>\<open>unique\<close> is 0.
\<close>

definition skip_of :: "Range \<Rightarrow> size_t \<Rightarrow> size_t comp" where
  "skip_of rng unique =
     (if unique = 0 then fault DivisionByZero else ret (Max_sz (Range_length rng div unique) 1))"

text \<open>
  \<^verbatim>\<open>for (index = range.start + skip; compare(&array[size * (index - 1)], value) < 0; index += skip)
    if (index >= range.end - skip)
      return BinaryFirst(array, value, size, Range_new(index, range.end), compare);
  return BinaryFirst(array, value, size, Range_new(index - skip, index), compare);\<close>
\<close>

partial_function (option) FindFirstForward_loop ::
  "'a list \<Rightarrow> size_t \<Rightarrow> Range \<Rightarrow> ('a \<Rightarrow> 'a \<Rightarrow> int) \<Rightarrow> size_t \<Rightarrow> size_t \<Rightarrow> size_t comp" where
  "FindFirstForward_loop array val rng compare skip index =
     bnd (compare_at compare array (index - 1) val) (\<lambda>c.
       if c < 0
       then if index \<ge> end' rng - skip
            then BinaryFirst array val (Range_new index (end' rng)) compare
            else FindFirstForward_loop array val rng compare skip (index + skip)
       else BinaryFirst array val (Range_new (index - skip) index) compare)"

definition FindFirstForward ::
  "'a list \<Rightarrow> size_t \<Rightarrow> Range \<Rightarrow> ('a \<Rightarrow> 'a \<Rightarrow> int) \<Rightarrow> size_t \<Rightarrow> size_t comp" where
  "FindFirstForward array val rng compare unique =
     (if Range_length rng = 0 then ret (start rng)
      else bnd (skip_of rng unique) (\<lambda>skip.
        FindFirstForward_loop array val rng compare skip (start rng + skip)))"

text \<open>
  \<^verbatim>\<open>for (index = range.start + skip; compare(value, &array[size * (index - 1)]) >= 0; index += skip)
    if (index >= range.end - skip)
      return BinaryLast(array, value, size, Range_new(index, range.end), compare);
  return BinaryLast(array, value, size, Range_new(index - skip, index), compare);\<close>
\<close>

partial_function (option) FindLastForward_loop ::
  "'a list \<Rightarrow> size_t \<Rightarrow> Range \<Rightarrow> ('a \<Rightarrow> 'a \<Rightarrow> int) \<Rightarrow> size_t \<Rightarrow> size_t \<Rightarrow> size_t comp" where
  "FindLastForward_loop array val rng compare skip index =
     bnd (compare_at compare array val (index - 1)) (\<lambda>c.
       if c \<ge> 0
       then if index \<ge> end' rng - skip
            then BinaryLast array val (Range_new index (end' rng)) compare
            else FindLastForward_loop array val rng compare skip (index + skip)
       else BinaryLast array val (Range_new (index - skip) index) compare)"

definition FindLastForward ::
  "'a list \<Rightarrow> size_t \<Rightarrow> Range \<Rightarrow> ('a \<Rightarrow> 'a \<Rightarrow> int) \<Rightarrow> size_t \<Rightarrow> size_t comp" where
  "FindLastForward array val rng compare unique =
     (if Range_length rng = 0 then ret (start rng)
      else bnd (skip_of rng unique) (\<lambda>skip.
        FindLastForward_loop array val rng compare skip (start rng + skip)))"

text \<open>
  \<^verbatim>\<open>for (index = range.end - skip;
       index > range.start && compare(&array[size * (index - 1)], value) >= 0; index -= skip)
    if (index < range.start + skip)
      return BinaryFirst(array, value, size, Range_new(range.start, index), compare);
  return BinaryFirst(array, value, size, Range_new(index, index + skip), compare);\<close>
\<close>

partial_function (option) FindFirstBackward_loop ::
  "'a list \<Rightarrow> size_t \<Rightarrow> Range \<Rightarrow> ('a \<Rightarrow> 'a \<Rightarrow> int) \<Rightarrow> size_t \<Rightarrow> size_t \<Rightarrow> size_t comp" where
  "FindFirstBackward_loop array val rng compare skip index =
     (if index > start rng
      then bnd (compare_at compare array (index - 1) val) (\<lambda>c.
        if c \<ge> 0
        then if index < start rng + skip
             then BinaryFirst array val (Range_new (start rng) index) compare
             else FindFirstBackward_loop array val rng compare skip (index - skip)
        else BinaryFirst array val (Range_new index (index + skip)) compare)
      else BinaryFirst array val (Range_new index (index + skip)) compare)"

definition FindFirstBackward ::
  "'a list \<Rightarrow> size_t \<Rightarrow> Range \<Rightarrow> ('a \<Rightarrow> 'a \<Rightarrow> int) \<Rightarrow> size_t \<Rightarrow> size_t comp" where
  "FindFirstBackward array val rng compare unique =
     (if Range_length rng = 0 then ret (start rng)
      else bnd (skip_of rng unique) (\<lambda>skip.
        FindFirstBackward_loop array val rng compare skip (end' rng - skip)))"

text \<open>
  \<^verbatim>\<open>for (index = range.end - skip;
       index > range.start && compare(value, &array[size * (index - 1)]) < 0; index -= skip)
    if (index < range.start + skip)
      return BinaryLast(array, value, size, Range_new(range.start, index), compare);
  return BinaryLast(array, value, size, Range_new(index, index + skip), compare);\<close>
\<close>

partial_function (option) FindLastBackward_loop ::
  "'a list \<Rightarrow> size_t \<Rightarrow> Range \<Rightarrow> ('a \<Rightarrow> 'a \<Rightarrow> int) \<Rightarrow> size_t \<Rightarrow> size_t \<Rightarrow> size_t comp" where
  "FindLastBackward_loop array val rng compare skip index =
     (if index > start rng
      then bnd (compare_at compare array val (index - 1)) (\<lambda>c.
        if c < 0
        then if index < start rng + skip
             then BinaryLast array val (Range_new (start rng) index) compare
             else FindLastBackward_loop array val rng compare skip (index - skip)
        else BinaryLast array val (Range_new index (index + skip)) compare)
      else BinaryLast array val (Range_new index (index + skip)) compare)"

definition FindLastBackward ::
  "'a list \<Rightarrow> size_t \<Rightarrow> Range \<Rightarrow> ('a \<Rightarrow> 'a \<Rightarrow> int) \<Rightarrow> size_t \<Rightarrow> size_t comp" where
  "FindLastBackward array val rng compare unique =
     (if Range_length rng = 0 then ret (start rng)
      else bnd (skip_of rng unique) (\<lambda>skip.
        FindLastBackward_loop array val rng compare skip (end' rng - skip)))"

section \<open>The level iterator\<close>

text \<open>\<^verbatim>\<open>FloorPowerOfTwo\<close>, with the shift by 32 of \<^verbatim>\<open>__LP64__\<close>.\<close>

definition FloorPowerOfTwo :: "size_t \<Rightarrow> size_t" where
  "FloorPowerOfTwo val =
     (let x = val;
          x = x OR drop_bit 1 x;
          x = x OR drop_bit 2 x;
          x = x OR drop_bit 4 x;
          x = x OR drop_bit 8 x;
          x = x OR drop_bit 16 x;
          x = x OR drop_bit 32 x
      in x - drop_bit 1 x)"

record WikiIterator =
  size' :: size_t
  power_of_two :: size_t
  numerator :: size_t
  decimal :: size_t
  denominator :: size_t
  decimal_step :: size_t
  numerator_step :: size_t

definition WikiIterator_begin :: "WikiIterator \<Rightarrow> WikiIterator" where
  "WikiIterator_begin me = me\<lparr>numerator := 0, decimal := 0\<rparr>"

definition WikiIterator_nextRange :: "WikiIterator \<Rightarrow> Range \<times> WikiIterator" where
  "WikiIterator_nextRange me =
     (let start0 = decimal me;
          me = me\<lparr>decimal := decimal me + decimal_step me\<rparr>;
          me = me\<lparr>numerator := numerator me + numerator_step me\<rparr>;
          me = (if numerator me \<ge> denominator me
                then me\<lparr>numerator := numerator me - denominator me, decimal := decimal me + 1\<rparr>
                else me)
      in (Range_new start0 (decimal me), me))"

definition WikiIterator_finished :: "WikiIterator \<Rightarrow> bool" where
  "WikiIterator_finished me \<longleftrightarrow> decimal me \<ge> size' me"

definition WikiIterator_nextLevel :: "WikiIterator \<Rightarrow> bool \<times> WikiIterator" where
  "WikiIterator_nextLevel me =
     (let me = me\<lparr>decimal_step := decimal_step me + decimal_step me\<rparr>;
          me = me\<lparr>numerator_step := numerator_step me + numerator_step me\<rparr>;
          me = (if numerator_step me \<ge> denominator me
                then me\<lparr>numerator_step := numerator_step me - denominator me,
                         decimal_step := decimal_step me + 1\<rparr>
                else me)
      in (decimal_step me < size' me, me))"

definition WikiIterator_length :: "WikiIterator \<Rightarrow> size_t" where
  "WikiIterator_length me = decimal_step me"

text \<open>
  \<^verbatim>\<open>WikiIterator_new\<close>: the two divisions and the remainder trap when their divisor is 0.
\<close>

definition WikiIterator_new :: "size_t \<Rightarrow> size_t \<Rightarrow> WikiIterator comp" where
  "WikiIterator_new size2 min_level =
     (let p = FloorPowerOfTwo size2 in
      if min_level = 0 then fault DivisionByZero
      else let d = p div min_level in
        if d = 0 then fault DivisionByZero
        else ret (WikiIterator_begin
               \<lparr>size' = size2, power_of_two = p, numerator = 0, decimal = 0, denominator = d,
                decimal_step = size2 div d, numerator_step = size2 mod d\<rparr>))"

section \<open>Insertion sort and the merges\<close>

text \<open>
  \<^verbatim>\<open>for (j = i; j > range.start && compare(&array[size * j], &array[size * (j - 1)]) < 0; j--)
    Swap(&array[size * j], &array[size * (j - 1)], size);\<close>
\<close>

partial_function (option) InsertionSort_inner ::
  "'a list \<Rightarrow> Range \<Rightarrow> ('a \<Rightarrow> 'a \<Rightarrow> int) \<Rightarrow> size_t \<Rightarrow> 'a list comp" where
  "InsertionSort_inner array rng compare j =
     (if j > start rng
      then bnd (compare_at compare array j (j - 1)) (\<lambda>c.
        if c < 0
        then bnd (Swap array j (j - 1)) (\<lambda>array. InsertionSort_inner array rng compare (j - 1))
        else ret array)
      else ret array)"

text \<open>\<^verbatim>\<open>for (i = range.start + 1; i < range.end; i++) ...\<close>\<close>

partial_function (option) InsertionSort_outer ::
  "'a list \<Rightarrow> Range \<Rightarrow> ('a \<Rightarrow> 'a \<Rightarrow> int) \<Rightarrow> size_t \<Rightarrow> 'a list comp" where
  "InsertionSort_outer array rng compare i =
     (if i < end' rng
      then bnd (InsertionSort_inner array rng compare i) (\<lambda>array.
             InsertionSort_outer array rng compare (i + 1))
      else ret array)"

definition InsertionSort :: "'a list \<Rightarrow> Range \<Rightarrow> ('a \<Rightarrow> 'a \<Rightarrow> int) \<Rightarrow> 'a list comp" where
  "InsertionSort array rng compare = InsertionSort_outer array rng compare (start rng + 1)"

text \<open>
  \<^verbatim>\<open>MergeInto(from, size, A, B, compare, into)\<close>: \<open>from\<close> and \<open>into\<close> are two memory
  objects; \<open>into\<close> is written from item \<open>insert_index\<close> on. The loop compares the pointers
  \<^verbatim>\<open>A_index == A_last\<close> only after a step, as the source does.
\<close>

partial_function (option) MergeInto_loop ::
  "'a list \<Rightarrow> size_t \<Rightarrow> size_t \<Rightarrow> ('a \<Rightarrow> 'a \<Rightarrow> int) \<Rightarrow> 'a list \<Rightarrow>
   size_t \<Rightarrow> size_t \<Rightarrow> size_t \<Rightarrow> 'a list comp" where
  "MergeInto_loop from0 A_last B_last compare into A_index B_index insert_index =
     bnd (compare_at compare from0 B_index A_index) (\<lambda>c.
       if c \<ge> 0
       then bnd (memcpy into insert_index from0 A_index 1) (\<lambda>into.
         if A_index + 1 = A_last
         then memcpy into (insert_index + 1) from0 B_index (B_last - B_index)
         else MergeInto_loop from0 A_last B_last compare into (A_index + 1) B_index (insert_index + 1))
       else bnd (memcpy into insert_index from0 B_index 1) (\<lambda>into.
         if B_index + 1 = B_last
         then memcpy into (insert_index + 1) from0 A_index (A_last - A_index)
         else MergeInto_loop from0 A_last B_last compare into A_index (B_index + 1) (insert_index + 1)))"

definition MergeInto ::
  "'a list \<Rightarrow> Range \<Rightarrow> Range \<Rightarrow> ('a \<Rightarrow> 'a \<Rightarrow> int) \<Rightarrow> 'a list \<Rightarrow> size_t \<Rightarrow> 'a list comp" where
  "MergeInto from0 A B compare into insert_index =
     MergeInto_loop from0 (end' A) (end' B) compare into (start A) (start B) insert_index"

text \<open>
  \<^verbatim>\<open>MergeExternal\<close>: \<open>A_index\<close> and \<open>A_last\<close> are positions of the cache, \<open>B_index\<close>,
  \<open>B_last\<close> and \<open>insert_index\<close> positions of the array.
\<close>

partial_function (option) MergeExternal_loop ::
  "'a list \<Rightarrow> size_t \<Rightarrow> size_t \<Rightarrow> ('a \<Rightarrow> 'a \<Rightarrow> int) \<Rightarrow> 'a list \<Rightarrow>
   size_t \<Rightarrow> size_t \<Rightarrow> size_t \<Rightarrow> ('a list \<times> size_t \<times> size_t) comp" where
  "MergeExternal_loop array A_last B_last compare cache A_index B_index insert_index =
     bnd (item array B_index) (\<lambda>b. bnd (item cache A_index) (\<lambda>a.
       if compare b a \<ge> 0
       then bnd (memcpy array insert_index cache A_index 1) (\<lambda>array.
         if A_index + 1 = A_last then ret (array, A_index + 1, insert_index + 1)
         else MergeExternal_loop array A_last B_last compare cache (A_index + 1) B_index
                (insert_index + 1))
       else bnd (memcpy array insert_index array B_index 1) (\<lambda>array.
         if B_index + 1 = B_last then ret (array, A_index, insert_index + 1)
         else MergeExternal_loop array A_last B_last compare cache A_index (B_index + 1)
                (insert_index + 1))))"

definition MergeExternal ::
  "'a list \<Rightarrow> Range \<Rightarrow> Range \<Rightarrow> ('a \<Rightarrow> 'a \<Rightarrow> int) \<Rightarrow> 'a list \<Rightarrow> 'a list comp" where
  "MergeExternal array A B compare cache =
     bnd (if Range_length B > 0 \<and> Range_length A > 0
          then MergeExternal_loop array (Range_length A) (end' B) compare cache 0 (start B) (start A)
          else ret (array, 0, start A))
       (\<lambda>(array, A_index, insert_index).
          memcpy array insert_index cache A_index (Range_length A - A_index))"

text \<open>\<^verbatim>\<open>MergeInternal\<close>: the loop returns the array and the final \<open>A_count\<close> and \<open>insert0\<close>.\<close>

partial_function (option) MergeInternal_loop ::
  "'a list \<Rightarrow> Range \<Rightarrow> Range \<Rightarrow> ('a \<Rightarrow> 'a \<Rightarrow> int) \<Rightarrow> Range \<Rightarrow>
   size_t \<Rightarrow> size_t \<Rightarrow> size_t \<Rightarrow> ('a list \<times> size_t \<times> size_t) comp" where
  "MergeInternal_loop array A B compare buffer A_count B_count insert0 =
     bnd (compare_at compare array (start B + B_count) (start buffer + A_count)) (\<lambda>c.
       if c \<ge> 0
       then bnd (Swap array (start A + insert0) (start buffer + A_count)) (\<lambda>array.
         if A_count + 1 \<ge> Range_length A then ret (array, A_count + 1, insert0 + 1)
         else MergeInternal_loop array A B compare buffer (A_count + 1) B_count (insert0 + 1))
       else bnd (Swap array (start A + insert0) (start B + B_count)) (\<lambda>array.
         if B_count + 1 \<ge> Range_length B then ret (array, A_count, insert0 + 1)
         else MergeInternal_loop array A B compare buffer A_count (B_count + 1) (insert0 + 1)))"

definition MergeInternal ::
  "'a list \<Rightarrow> Range \<Rightarrow> Range \<Rightarrow> ('a \<Rightarrow> 'a \<Rightarrow> int) \<Rightarrow> Range \<Rightarrow> 'a list comp" where
  "MergeInternal array A B compare buffer =
     bnd (if Range_length B > 0 \<and> Range_length A > 0
          then MergeInternal_loop array A B compare buffer 0 0 0
          else ret (array, 0, 0))
       (\<lambda>(array, A_count, insert0).
          BlockSwap array (start buffer + A_count) (start A + insert0) (Range_length A - A_count))"

text \<open>\<^verbatim>\<open>MergeInPlace\<close>: the body of \<^verbatim>\<open>while (true)\<close>, with its two \<^verbatim>\<open>break\<close>s.\<close>

partial_function (option) MergeInPlace_loop ::
  "'a list \<Rightarrow> Range \<Rightarrow> Range \<Rightarrow> ('a \<Rightarrow> 'a \<Rightarrow> int) \<Rightarrow> 'a list \<Rightarrow> size_t \<Rightarrow>
   ('a list \<times> 'a list) comp" where
  "MergeInPlace_loop array A B compare cache cache_size =
     bnd (BinaryFirst array (start A) B compare) (\<lambda>mid.
       let amount = mid - end' A in
       bnd (Rotate array (Range_length A) (Range_new (start A) mid) cache cache_size)
         (\<lambda>(array, cache).
           if end' B = mid then ret (array, cache)
           else
             let B = B\<lparr>start := mid\<rparr>;
                 A = Range_new (start A + amount) (start B)
             in bnd (BinaryLast array (start A) A compare) (\<lambda>s.
                  let A = A\<lparr>start := s\<rparr> in
                  if Range_length A = 0 then ret (array, cache)
                  else MergeInPlace_loop array A B compare cache cache_size)))"

definition MergeInPlace ::
  "'a list \<Rightarrow> Range \<Rightarrow> Range \<Rightarrow> ('a \<Rightarrow> 'a \<Rightarrow> int) \<Rightarrow> 'a list \<Rightarrow> size_t \<Rightarrow>
   ('a list \<times> 'a list) comp" where
  "MergeInPlace array A B compare cache cache_size =
     (if Range_length A = 0 \<or> Range_length B = 0 then ret (array, cache)
      else MergeInPlace_loop array A B compare cache cache_size)"

section \<open>The base sort\<close>

text \<open>
  \<^verbatim>\<open>NEW_SWAP(x, y)\<close> on the range starting at \<open>start0\<close>, with the \<^verbatim>\<open>uint8_t order[8]\<close> of
  the source. The second comparison is made only when the first one is not negative and
  \<^verbatim>\<open>order[x] > order[y]\<close>.
\<close>

definition NEW_SWAP ::
  "('a \<Rightarrow> 'a \<Rightarrow> int) \<Rightarrow> size_t \<Rightarrow> nat \<Rightarrow> nat \<Rightarrow> 'a list \<times> 8 word list \<Rightarrow>
   ('a list \<times> 8 word list) comp" where
  "NEW_SWAP compare start0 x y st =
     (case st of (array, order) \<Rightarrow>
        bnd (compare_at compare array (start0 + of_nat y) (start0 + of_nat x)) (\<lambda>c1.
        bnd (if c1 < 0 then ret True
             else if order ! x > order ! y
             then bnd (compare_at compare array (start0 + of_nat x) (start0 + of_nat y))
                    (\<lambda>c2. ret (c2 \<ge> 0))
             else ret False) (\<lambda>swap.
        if swap
        then bnd (Swap array (start0 + of_nat x) (start0 + of_nat y)) (\<lambda>array.
               ret (array, order[x := order ! y, y := order ! x]))
        else ret (array, order))))"

text \<open>A sequence of \<^verbatim>\<open>NEW_SWAP\<close> statements.\<close>

fun NEW_SWAPs ::
  "('a \<Rightarrow> 'a \<Rightarrow> int) \<Rightarrow> size_t \<Rightarrow> (nat \<times> nat) list \<Rightarrow> 'a list \<times> 8 word list \<Rightarrow>
   ('a list \<times> 8 word list) comp" where
  "NEW_SWAPs compare start0 [] st = ret st"
| "NEW_SWAPs compare start0 ((x, y) # ps) st =
     bnd (NEW_SWAP compare start0 x y st) (NEW_SWAPs compare start0 ps)"

definition network8 :: "(nat \<times> nat) list" where
  "network8 = [(0, 1), (2, 3), (4, 5), (6, 7), (0, 2), (1, 3), (4, 6), (5, 7), (1, 2), (5, 6),
               (0, 4), (3, 7), (1, 5), (2, 6), (1, 4), (3, 6), (2, 4), (3, 5), (3, 4)]"

definition network7 :: "(nat \<times> nat) list" where
  "network7 = [(1, 2), (3, 4), (5, 6), (0, 2), (3, 5), (4, 6), (0, 1), (4, 5), (2, 6), (0, 4),
               (1, 5), (0, 3), (2, 5), (1, 3), (2, 4), (2, 3)]"

definition network6 :: "(nat \<times> nat) list" where
  "network6 = [(1, 2), (4, 5), (0, 2), (3, 5), (0, 1), (3, 4), (2, 5), (0, 3), (1, 4), (2, 4),
               (1, 3), (2, 3)]"

definition network5 :: "(nat \<times> nat) list" where
  "network5 = [(0, 1), (3, 4), (2, 4), (2, 3), (1, 4), (0, 3), (0, 2), (1, 3), (1, 2)]"

definition network4 :: "(nat \<times> nat) list" where
  "network4 = [(0, 1), (2, 3), (0, 2), (1, 3), (1, 2)]"

text \<open>
  The body of the first loop of \<^verbatim>\<open>new_WikiSort\<close> for one range: \<^verbatim>\<open>order\<close> is initialised
  to \<^verbatim>\<open>{ 0, 1, 2, 3, 4, 5, 6, 7 }\<close> and the network for the length of the range runs; a
  range of another length is left alone.
\<close>

definition sort_range :: "'a list \<Rightarrow> ('a \<Rightarrow> 'a \<Rightarrow> int) \<Rightarrow> Range \<Rightarrow> 'a list comp" where
  "sort_range array compare rng =
     (let order = [0, 1, 2, 3, 4, 5, 6, 7] in
      bnd (if Range_length rng = 8 then NEW_SWAPs compare (start rng) network8 (array, order)
           else if Range_length rng = 7 then NEW_SWAPs compare (start rng) network7 (array, order)
           else if Range_length rng = 6 then NEW_SWAPs compare (start rng) network6 (array, order)
           else if Range_length rng = 5 then NEW_SWAPs compare (start rng) network5 (array, order)
           else if Range_length rng = 4 then NEW_SWAPs compare (start rng) network4 (array, order)
           else ret (array, order))
        (\<lambda>(array, order). ret array))"

text \<open>
  \<^verbatim>\<open>WikiIterator_begin(&iterator); while (!WikiIterator_finished(&iterator)) { ... }\<close>
\<close>

partial_function (option) base_loop ::
  "'a list \<Rightarrow> ('a \<Rightarrow> 'a \<Rightarrow> int) \<Rightarrow> WikiIterator \<Rightarrow> ('a list \<times> WikiIterator) comp" where
  "base_loop array compare iterator =
     (if WikiIterator_finished iterator then ret (array, iterator)
      else case WikiIterator_nextRange iterator of (rng, iterator) \<Rightarrow>
        bnd (sort_range array compare rng) (\<lambda>array. base_loop array compare iterator))"

text \<open>The hard-coded sorts of 3 and of 2 items at the start of \<^verbatim>\<open>new_WikiSort\<close>.\<close>

definition sort3 :: "'a list \<Rightarrow> ('a \<Rightarrow> 'a \<Rightarrow> int) \<Rightarrow> 'a list comp" where
  "sort3 array compare =
     bnd (compare_at compare array 1 0) (\<lambda>c.
     bnd (if c < 0 then Swap array 0 1 else ret array) (\<lambda>array.
     bnd (compare_at compare array 2 1) (\<lambda>c.
       if c < 0
       then bnd (Swap array 1 2) (\<lambda>array.
            bnd (compare_at compare array 1 0) (\<lambda>c.
              if c < 0 then Swap array 0 1 else ret array))
       else ret array)))"

definition sort2 :: "'a list \<Rightarrow> ('a \<Rightarrow> 'a \<Rightarrow> int) \<Rightarrow> 'a list comp" where
  "sort2 array compare =
     bnd (compare_at compare array 1 0) (\<lambda>c. if c < 0 then Swap array 0 1 else ret array)"

section \<open>The merge driver: the cache path\<close>

text \<open>
  The cache is a memory object of its own; \<^verbatim>\<open>&cache[size * i]\<close> is its item \<open>i\<close>. With
  \<^verbatim>\<open>DYNAMIC_CACHE\<close> false the source sets \<^verbatim>\<open>cache_size = CACHE_SIZE = 0\<close> and
  \<^verbatim>\<open>cache = NULL\<close>: the cache has no item.
\<close>

definition CACHE_SIZE :: size_t where
  "CACHE_SIZE = 0"

text \<open>
  The two-way cache loop:
  \<^verbatim>\<open>while (!WikiIterator_finished(&iterator)) { A = nextRange; B = nextRange; ... }\<close>
\<close>

partial_function (option) cache_pairs_loop ::
  "'a list \<Rightarrow> 'a list \<Rightarrow> ('a \<Rightarrow> 'a \<Rightarrow> int) \<Rightarrow> size_t \<Rightarrow> WikiIterator \<Rightarrow>
   ('a list \<times> 'a list \<times> WikiIterator) comp" where
  "cache_pairs_loop array cache compare cache_size iterator =
     (if WikiIterator_finished iterator then ret (array, cache, iterator)
      else case WikiIterator_nextRange iterator of (A, iterator) \<Rightarrow>
           case WikiIterator_nextRange iterator of (B, iterator) \<Rightarrow>
        bnd (compare_at compare array (end' B - 1) (start A)) (\<lambda>c.
          if c < 0
          then bnd (Rotate array (Range_length A) (Range_new (start A) (end' B)) cache cache_size)
                 (\<lambda>(array, cache). cache_pairs_loop array cache compare cache_size iterator)
          else bnd (compare_at compare array (start B) (end' A - 1)) (\<lambda>c.
            if c < 0
            then bnd (memcpy cache 0 array (start A) (Range_length A)) (\<lambda>cache.
                 bnd (MergeExternal array A B compare cache) (\<lambda>array.
                   cache_pairs_loop array cache compare cache_size iterator))
            else cache_pairs_loop array cache compare cache_size iterator)))"

text \<open>
  The four-way cache loop, in three stages. The first stage returns \<open>None\<close> where the
  source says \<^verbatim>\<open>continue\<close>.
\<close>

definition four_way_first ::
  "'a list \<Rightarrow> 'a list \<Rightarrow> ('a \<Rightarrow> 'a \<Rightarrow> int) \<Rightarrow> Range \<Rightarrow> Range \<Rightarrow> Range \<Rightarrow> Range \<Rightarrow>
   'a list option comp" where
  "four_way_first array cache compare A1 B1 A2 B2 =
     bnd (compare_at compare array (end' B1 - 1) (start A1)) (\<lambda>c.
       if c < 0
       then bnd (memcpy cache (Range_length B1) array (start A1) (Range_length A1)) (\<lambda>cache.
            bnd (memcpy cache 0 array (start B1) (Range_length B1)) (\<lambda>cache. ret (Some cache)))
       else bnd (compare_at compare array (start B1) (end' A1 - 1)) (\<lambda>c.
         if c < 0
         then bnd (MergeInto array A1 B1 compare cache 0) (\<lambda>cache. ret (Some cache))
         else bnd (compare_at compare array (start B2) (end' A2 - 1)) (\<lambda>c1.
              bnd (if c1 \<ge> 0
                   then bnd (compare_at compare array (start A2) (end' B1 - 1)) (\<lambda>c2. ret (c2 \<ge> 0))
                   else ret False) (\<lambda>ordered.
                if ordered then ret None
                else bnd (memcpy cache 0 array (start A1) (Range_length A1)) (\<lambda>cache.
                     bnd (memcpy cache (Range_length A1) array (start B1) (Range_length B1))
                       (\<lambda>cache. ret (Some cache)))))))"

definition four_way_second ::
  "'a list \<Rightarrow> 'a list \<Rightarrow> ('a \<Rightarrow> 'a \<Rightarrow> int) \<Rightarrow> Range \<Rightarrow> Range \<Rightarrow> Range \<Rightarrow> 'a list comp" where
  "four_way_second array cache compare A1 A2 B2 =
     bnd (compare_at compare array (end' B2 - 1) (start A2)) (\<lambda>c.
       if c < 0
       then bnd (memcpy cache (Range_length A1 + Range_length B2) array (start A2)
                   (Range_length A2)) (\<lambda>cache.
            memcpy cache (Range_length A1) array (start B2) (Range_length B2))
       else bnd (compare_at compare array (start B2) (end' A2 - 1)) (\<lambda>c.
         if c \<noteq> 0
         then MergeInto array A2 B2 compare cache (Range_length A1)
         else bnd (memcpy cache (Range_length A1) array (start A2) (Range_length A2)) (\<lambda>cache.
              memcpy cache (Range_length A1 + Range_length A2) array (start B2)
                (Range_length B2))))"

definition four_way_third ::
  "'a list \<Rightarrow> 'a list \<Rightarrow> ('a \<Rightarrow> 'a \<Rightarrow> int) \<Rightarrow> Range \<Rightarrow> Range \<Rightarrow> 'a list comp" where
  "four_way_third array cache compare A1 A2 =
     (let A3 = Range_new 0 (Range_length A1);
          B3 = Range_new (Range_length A1) (Range_length A1 + Range_length A2)
      in bnd (compare_at compare cache (end' B3 - 1) (start A3)) (\<lambda>c.
           if c < 0
           then bnd (memcpy array (start A1 + Range_length A2) cache (start A3)
                       (Range_length A3)) (\<lambda>array.
                memcpy array (start A1) cache (start B3) (Range_length B3))
           else bnd (compare_at compare cache (start B3) (end' A3 - 1)) (\<lambda>c.
             if c < 0
             then MergeInto cache A3 B3 compare array (start A1)
             else bnd (memcpy array (start A1) cache (start A3) (Range_length A3)) (\<lambda>array.
                  memcpy array (start A1 + Range_length A1) cache (start B3)
                    (Range_length B3)))))"

partial_function (option) four_way_loop ::
  "'a list \<Rightarrow> 'a list \<Rightarrow> ('a \<Rightarrow> 'a \<Rightarrow> int) \<Rightarrow> WikiIterator \<Rightarrow>
   ('a list \<times> 'a list \<times> WikiIterator) comp" where
  "four_way_loop array cache compare iterator =
     (if WikiIterator_finished iterator then ret (array, cache, iterator)
      else case WikiIterator_nextRange iterator of (A1, iterator) \<Rightarrow>
           case WikiIterator_nextRange iterator of (B1, iterator) \<Rightarrow>
           case WikiIterator_nextRange iterator of (A2, iterator) \<Rightarrow>
           case WikiIterator_nextRange iterator of (B2, iterator) \<Rightarrow>
        bnd (four_way_first array cache compare A1 B1 A2 B2) (\<lambda>first.
          case first of
            None \<Rightarrow> four_way_loop array cache compare iterator
          | Some cache \<Rightarrow>
              let A1 = Range_new (start A1) (end' B1) in
              bnd (four_way_second array cache compare A1 A2 B2) (\<lambda>cache.
                let A2 = Range_new (start A2) (end' B2) in
                bnd (four_way_third array cache compare A1 A2) (\<lambda>array.
                  four_way_loop array cache compare iterator))))"

text \<open>
  The branch \<^verbatim>\<open>if (WikiIterator_length(&iterator) < cache_size)\<close> of the level loop. After
  the four-way loop the source calls \<^verbatim>\<open>WikiIterator_nextLevel\<close> once and drops its result.
\<close>

definition cache_level ::
  "'a list \<Rightarrow> 'a list \<Rightarrow> ('a \<Rightarrow> 'a \<Rightarrow> int) \<Rightarrow> size_t \<Rightarrow> size_t \<Rightarrow> WikiIterator \<Rightarrow>
   ('a list \<times> 'a list \<times> WikiIterator) comp" where
  "cache_level array cache compare cache_size len iterator =
     (if (WikiIterator_length iterator + 1) * 4 \<le> cache_size \<and> WikiIterator_length iterator * 4 \<le> len
      then bnd (four_way_loop array cache compare (WikiIterator_begin iterator))
             (\<lambda>(array, cache, iterator). ret (array, cache, snd (WikiIterator_nextLevel iterator)))
      else cache_pairs_loop array cache compare cache_size (WikiIterator_begin iterator))"

section \<open>The merge driver: internal buffers\<close>

text \<open>
  \<^verbatim>\<open>size_t block_size = sqrt(WikiIterator_length(&iterator))\<close>: the conversion of the square
  root to \<^verbatim>\<open>size_t\<close> is modelled as the integer square root.
\<close>

function sqrt_from :: "nat \<Rightarrow> nat \<Rightarrow> nat" where
  "sqrt_from n k = (if (k + 1) * (k + 1) \<le> n then sqrt_from n (k + 1) else k)"
  by pat_completeness auto
termination
proof (relation "measure (\<lambda>(n, k). n - k)")
  show "wf (measure (\<lambda>(n :: nat, k :: nat). n - k))" by simp
next
  fix n k :: nat
  assume a: "(k + 1) * (k + 1) \<le> n"
  have "k + 1 \<le> (k + 1) * (k + 1)" by simp
  then have "k + 1 \<le> n" using a by (rule le_trans)
  then show "((n, k + 1), (n, k)) \<in> measure (\<lambda>(n, k). n - k)" by simp
qed

definition sqrt_sz :: "size_t \<Rightarrow> size_t" where
  "sqrt_sz n = of_nat (sqrt_from (unat n) 0)"

text \<open>\<^verbatim>\<open>struct { size_t from, to, count; Range range; } pull[2];\<close>\<close>

record Pull =
  from' :: size_t
  to' :: size_t
  count' :: size_t
  range' :: Range

text \<open>The variables that the search for the internal buffers changes.\<close>

record Buffers =
  pull0 :: Pull
  pull1 :: Pull
  pull_index :: size_t
  buffer1 :: Range
  buffer2 :: Range
  find' :: size_t
  find_separately :: bool

text \<open>The macro \<^verbatim>\<open>PULL(_to)\<close>: it fills \<^verbatim>\<open>pull[pull_index]\<close>.\<close>

definition PULL :: "Buffers \<Rightarrow> Range \<Rightarrow> Range \<Rightarrow> size_t \<Rightarrow> size_t \<Rightarrow> size_t \<Rightarrow> Buffers" where
  "PULL st A B count0 index to0 =
     (let p = \<lparr>from' = index, to' = to0, count' = count0, range' = Range_new (start A) (end' B)\<rparr>
      in if pull_index st = 0 then st\<lparr>pull0 := p\<rparr> else st\<lparr>pull1 := p\<rparr>)"

text \<open>
  \<^verbatim>\<open>for (last = A.start, count = 1; count < find; last = index, count++) {
    index = FindLastForward(array, &array[size * last], size, Range_new(last + 1, A.end), compare, find - count);
    if (index == A.end) break; }\<close>
\<close>

partial_function (option) count_A_loop ::
  "'a list \<Rightarrow> ('a \<Rightarrow> 'a \<Rightarrow> int) \<Rightarrow> Range \<Rightarrow> size_t \<Rightarrow> size_t \<Rightarrow> size_t \<Rightarrow>
   (size_t \<times> size_t) comp" where
  "count_A_loop array compare A find0 last0 count0 =
     (if count0 < find0
      then bnd (FindLastForward array last0 (Range_new (last0 + 1) (end' A)) compare (find0 - count0))
             (\<lambda>index. if index = end' A then ret (last0, count0)
                       else count_A_loop array compare A find0 index (count0 + 1))
      else ret (last0, count0))"

text \<open>
  \<^verbatim>\<open>for (last = B.end - 1, count = 1; count < find; last = index - 1, count++) {
    index = FindFirstBackward(array, &array[size * last], size, Range_new(B.start, last), compare, find - count);
    if (index == B.start) break; }\<close>
\<close>

partial_function (option) count_B_loop ::
  "'a list \<Rightarrow> ('a \<Rightarrow> 'a \<Rightarrow> int) \<Rightarrow> Range \<Rightarrow> size_t \<Rightarrow> size_t \<Rightarrow> size_t \<Rightarrow>
   (size_t \<times> size_t) comp" where
  "count_B_loop array compare B find0 last0 count0 =
     (if count0 < find0
      then bnd (FindFirstBackward array last0 (Range_new (start B) last0) compare (find0 - count0))
             (\<lambda>index. if index = start B then ret (last0, count0)
                       else count_B_loop array compare B find0 (index - 1) (count0 + 1))
      else ret (last0, count0))"

text \<open>
  The part of the search that looks at \<open>A\<close>; the result says whether the source leaves the
  loop (\<^verbatim>\<open>break\<close>).
\<close>

definition find_in_A ::
  "'a list \<Rightarrow> ('a \<Rightarrow> 'a \<Rightarrow> int) \<Rightarrow> size_t \<Rightarrow> size_t \<Rightarrow> size_t \<Rightarrow> Range \<Rightarrow> Range \<Rightarrow> Buffers \<Rightarrow>
   (bool \<times> Buffers) comp" where
  "find_in_A array compare block_size buffer_size cache_size A B st =
     bnd (count_A_loop array compare A (find' st) (start A) 1) (\<lambda>(last0, count0).
       let index = last0 in
       if count0 \<ge> buffer_size
       then
         let st = PULL st A B count0 index (start A);
             st = st\<lparr>pull_index := 1\<rparr>
         in if count0 = buffer_size + buffer_size
            then ret (True, st\<lparr>buffer1 := Range_new (start A) (start A + buffer_size),
                               buffer2 := Range_new (start A + buffer_size) (start A + count0)\<rparr>)
            else if find' st = buffer_size + buffer_size
            then ret (False, st\<lparr>buffer1 := Range_new (start A) (start A + count0),
                                find' := buffer_size\<rparr>)
            else if block_size \<le> cache_size
            then ret (True, st\<lparr>buffer1 := Range_new (start A) (start A + count0)\<rparr>)
            else if find_separately st
            then ret (False, st\<lparr>buffer1 := Range_new (start A) (start A + count0),
                                find_separately := False\<rparr>)
            else ret (True, st\<lparr>buffer2 := Range_new (start A) (start A + count0)\<rparr>)
       else if pull_index st = 0 \<and> count0 > Range_length (buffer1 st)
       then ret (False, PULL (st\<lparr>buffer1 := Range_new (start A) (start A + count0)\<rparr>)
                          A B count0 index (start A))
       else ret (False, st))"

text \<open>The part of the search that looks at \<open>B\<close>.\<close>

definition find_in_B ::
  "'a list \<Rightarrow> ('a \<Rightarrow> 'a \<Rightarrow> int) \<Rightarrow> size_t \<Rightarrow> size_t \<Rightarrow> size_t \<Rightarrow> Range \<Rightarrow> Range \<Rightarrow> Buffers \<Rightarrow>
   (bool \<times> Buffers) comp" where
  "find_in_B array compare block_size buffer_size cache_size A B st =
     bnd (count_B_loop array compare B (find' st) (end' B - 1) 1) (\<lambda>(last0, count0).
       let index = last0 in
       if count0 \<ge> buffer_size
       then
         let st = PULL st A B count0 index (end' B);
             st = st\<lparr>pull_index := 1\<rparr>
         in if count0 = buffer_size + buffer_size
            then ret (True, st\<lparr>buffer1 := Range_new (end' B - count0) (end' B - buffer_size),
                               buffer2 := Range_new (end' B - buffer_size) (end' B)\<rparr>)
            else if find' st = buffer_size + buffer_size
            then ret (False, st\<lparr>buffer1 := Range_new (end' B - count0) (end' B),
                                find' := buffer_size\<rparr>)
            else if block_size \<le> cache_size
            then ret (True, st\<lparr>buffer1 := Range_new (end' B - count0) (end' B)\<rparr>)
            else if find_separately st
            then ret (False, st\<lparr>buffer1 := Range_new (end' B - count0) (end' B),
                                find_separately := False\<rparr>)
            else
              let st = (if start (range' (pull0 st)) = start A
                        then st\<lparr>pull0 := (pull0 st)\<lparr>range' := (range' (pull0 st))
                                  \<lparr>end' := end' (range' (pull0 st)) - count' (pull1 st)\<rparr>\<rparr>\<rparr>
                        else st)
              in ret (True, st\<lparr>buffer2 := Range_new (end' B - count0) (end' B)\<rparr>)
       else if pull_index st = 0 \<and> count0 > Range_length (buffer1 st)
       then ret (False, PULL (st\<lparr>buffer1 := Range_new (end' B - count0) (end' B)\<rparr>)
                          A B count0 index (end' B))
       else ret (False, st))"

text \<open>
  \<^verbatim>\<open>WikiIterator_begin(&iterator); while (!WikiIterator_finished(&iterator)) {
    A = WikiIterator_nextRange(&iterator); B = WikiIterator_nextRange(&iterator); ... }\<close>
\<close>

partial_function (option) find_buffers_loop ::
  "'a list \<Rightarrow> ('a \<Rightarrow> 'a \<Rightarrow> int) \<Rightarrow> size_t \<Rightarrow> size_t \<Rightarrow> size_t \<Rightarrow> WikiIterator \<Rightarrow> Buffers \<Rightarrow>
   Buffers comp" where
  "find_buffers_loop array compare block_size buffer_size cache_size iterator st =
     (if WikiIterator_finished iterator then ret st
      else case WikiIterator_nextRange iterator of (A, iterator) \<Rightarrow>
           case WikiIterator_nextRange iterator of (B, iterator) \<Rightarrow>
        bnd (find_in_A array compare block_size buffer_size cache_size A B st) (\<lambda>(stop, st).
          if stop then ret st
          else bnd (find_in_B array compare block_size buffer_size cache_size A B st) (\<lambda>(stop, st).
            if stop then ret st
            else find_buffers_loop array compare block_size buffer_size cache_size iterator st)))"

text \<open>
  Pulling the values out to the left:
  \<^verbatim>\<open>for (count = 1; count < length; count++) {
    index = FindFirstBackward(array, &array[size * (index - 1)], size,
              Range_new(pull[pull_index].to, pull[pull_index].from - (count - 1)), compare, length - count);
    range = Range_new(index + 1, pull[pull_index].from + 1);
    Rotate(array, size, Range_length(range) - count, range, cache, cache_size);
    pull[pull_index].from = index + count; }\<close>
\<close>

partial_function (option) pull_left_loop ::
  "'a list \<Rightarrow> 'a list \<Rightarrow> ('a \<Rightarrow> 'a \<Rightarrow> int) \<Rightarrow> size_t \<Rightarrow> size_t \<Rightarrow> Pull \<Rightarrow> size_t \<Rightarrow> size_t \<Rightarrow>
   ('a list \<times> 'a list \<times> Pull) comp" where
  "pull_left_loop array cache compare cache_size length0 pull index count0 =
     (if count0 < length0
      then bnd (FindFirstBackward array (index - 1)
                  (Range_new (to' pull) (from' pull - (count0 - 1))) compare (length0 - count0))
             (\<lambda>index.
               let rng = Range_new (index + 1) (from' pull + 1) in
               bnd (Rotate array (Range_length rng - count0) rng cache cache_size)
                 (\<lambda>(array, cache).
                    pull_left_loop array cache compare cache_size length0
                      (pull\<lparr>from' := index + count0\<rparr>) index (count0 + 1)))
      else ret (array, cache, pull))"

text \<open>
  Pulling the values out to the right:
  \<^verbatim>\<open>for (count = 1; count < length; count++) {
    index = FindLastForward(array, &array[size * index], size,
              Range_new(index, pull[pull_index].to), compare, length - count);
    range = Range_new(pull[pull_index].from, index - 1);
    Rotate(array, size, count, range, cache, cache_size);
    pull[pull_index].from = index - 1 - count; }\<close>
\<close>

partial_function (option) pull_right_loop ::
  "'a list \<Rightarrow> 'a list \<Rightarrow> ('a \<Rightarrow> 'a \<Rightarrow> int) \<Rightarrow> size_t \<Rightarrow> size_t \<Rightarrow> Pull \<Rightarrow> size_t \<Rightarrow> size_t \<Rightarrow>
   ('a list \<times> 'a list \<times> Pull) comp" where
  "pull_right_loop array cache compare cache_size length0 pull index count0 =
     (if count0 < length0
      then bnd (FindLastForward array index (Range_new index (to' pull)) compare (length0 - count0))
             (\<lambda>index.
               let rng = Range_new (from' pull) (index - 1) in
               bnd (Rotate array count0 rng cache cache_size)
                 (\<lambda>(array, cache).
                    pull_right_loop array cache compare cache_size length0
                      (pull\<lparr>from' := index - 1 - count0\<rparr>) index (count0 + 1)))
      else ret (array, cache, pull))"

text \<open>One turn of \<^verbatim>\<open>for (pull_index = 0; pull_index < 2; pull_index++)\<close>.\<close>

definition pull_out ::
  "'a list \<Rightarrow> 'a list \<Rightarrow> ('a \<Rightarrow> 'a \<Rightarrow> int) \<Rightarrow> size_t \<Rightarrow> Pull \<Rightarrow> ('a list \<times> 'a list \<times> Pull) comp" where
  "pull_out array cache compare cache_size pull =
     (let length0 = count' pull in
      if to' pull < from' pull
      then pull_left_loop array cache compare cache_size length0 pull (from' pull) 1
      else if to' pull > from' pull
      then pull_right_loop array cache compare cache_size length0 pull (from' pull + 1) 1
      else ret (array, cache, pull))"

section \<open>The merge driver: block merging\<close>

text \<open>
  Removing from \<open>A\<close> or \<open>B\<close> the part that an internal buffer uses; \<open>None\<close> where the source
  says \<^verbatim>\<open>continue\<close>.
\<close>

definition strip_pull :: "Pull \<Rightarrow> size_t \<Rightarrow> Range \<times> Range \<Rightarrow> (Range \<times> Range) option" where
  "strip_pull pull start0 AB =
     (case AB of (A, B) \<Rightarrow>
        if start0 = start (range' pull)
        then if from' pull > to' pull
             then let A = A\<lparr>start := start A + count' pull\<rparr>
                  in if Range_length A = 0 then None else Some (A, B)
             else if from' pull < to' pull
             then let B = B\<lparr>end' := end' B - count' pull\<rparr>
                  in if Range_length B = 0 then None else Some (A, B)
             else Some (A, B)
        else Some (A, B))"

text \<open>
  \<^verbatim>\<open>for (indexA = buffer1.start, index = firstA.end; index < blockA.end; indexA++, index += block_size)
    Swap(&array[size * indexA], &array[size * index], size);\<close>
\<close>

partial_function (option) tag_loop ::
  "'a list \<Rightarrow> size_t \<Rightarrow> size_t \<Rightarrow> size_t \<Rightarrow> size_t \<Rightarrow> 'a list comp" where
  "tag_loop array blockA_end block_size indexA0 index =
     (if index < blockA_end
      then bnd (Swap array indexA0 index)
             (\<lambda>array. tag_loop array blockA_end block_size (indexA0 + 1) (index + block_size))
      else ret array)"

text \<open>
  \<^verbatim>\<open>for (findA = minA + block_size; findA < blockA.end; findA += block_size)
    if (compare(&array[size * findA], &array[size * minA]) < 0) minA = findA;\<close>
\<close>

partial_function (option) minA_loop ::
  "'a list \<Rightarrow> ('a \<Rightarrow> 'a \<Rightarrow> int) \<Rightarrow> size_t \<Rightarrow> size_t \<Rightarrow> size_t \<Rightarrow> size_t \<Rightarrow> size_t comp" where
  "minA_loop array compare block_size blockA_end minA findA =
     (if findA < blockA_end
      then bnd (compare_at compare array findA minA) (\<lambda>c.
             minA_loop array compare block_size blockA_end (if c < 0 then findA else minA)
               (findA + block_size))
      else ret minA)"

text \<open>
  The local merge of the previous \<open>A\<close> block with the \<open>B\<close> values that follow it: with the
  cache, with the second internal buffer, or in place.
\<close>

definition local_merge ::
  "'a list \<Rightarrow> 'a list \<Rightarrow> ('a \<Rightarrow> 'a \<Rightarrow> int) \<Rightarrow> size_t \<Rightarrow> Range \<Rightarrow> Range \<Rightarrow> Range \<Rightarrow>
   ('a list \<times> 'a list) comp" where
  "local_merge array cache compare cache_size buffer2_0 lastA0 B =
     (if Range_length lastA0 \<le> cache_size
      then bnd (MergeExternal array lastA0 B compare cache) (\<lambda>array. ret (array, cache))
      else if Range_length buffer2_0 > 0
      then bnd (MergeInternal array lastA0 B compare buffer2_0) (\<lambda>array. ret (array, cache))
      else MergeInPlace array lastA0 B compare cache cache_size)"

text \<open>The variables of the rolling of the \<open>A\<close> blocks through the \<open>B\<close> blocks.\<close>

record Roll =
  blockA :: Range
  lastA :: Range
  lastB :: Range
  blockB :: Range
  indexA :: size_t

text \<open>
  The body of \<^verbatim>\<open>while (true)\<close> in the block merge; it is left when no \<open>A\<close> block remains.
\<close>

partial_function (option) roll_loop ::
  "'a list \<Rightarrow> 'a list \<Rightarrow> ('a \<Rightarrow> 'a \<Rightarrow> int) \<Rightarrow> size_t \<Rightarrow> size_t \<Rightarrow> Range \<Rightarrow> Range \<Rightarrow> Roll \<Rightarrow>
   ('a list \<times> 'a list \<times> Roll) comp" where
  "roll_loop array cache compare cache_size block_size buffer2_0 B st =
     bnd (bnd (if Range_length (lastB st) > 0
               then bnd (compare_at compare array (end' (lastB st) - 1) (indexA st))
                      (\<lambda>c. ret (c \<ge> 0))
               else ret False)
            (\<lambda>behind. ret (behind \<or> Range_length (blockB st) = 0))) (\<lambda>drop_block.
       if drop_block
       then
         bnd (BinaryFirst array (indexA st) (lastB st) compare) (\<lambda>B_split.
         let B_remaining = end' (lastB st) - B_split in
         bnd (minA_loop array compare block_size (end' (blockA st)) (start (blockA st))
                (start (blockA st) + block_size)) (\<lambda>minA.
         bnd (BlockSwap array (start (blockA st)) minA block_size) (\<lambda>array.
         bnd (Swap array (start (blockA st)) (indexA st)) (\<lambda>array.
         let st = st\<lparr>indexA := indexA st + 1\<rparr> in
         bnd (local_merge array cache compare cache_size buffer2_0 (lastA st)
                (Range_new (end' (lastA st)) B_split)) (\<lambda>(array, cache).
         bnd (if Range_length buffer2_0 > 0 \<or> block_size \<le> cache_size
              then
                bnd (if block_size \<le> cache_size
                     then bnd (memcpy cache 0 array (start (blockA st)) block_size)
                            (\<lambda>cache. ret (array, cache))
                     else bnd (BlockSwap array (start (blockA st)) (start buffer2_0) block_size)
                            (\<lambda>array. ret (array, cache))) (\<lambda>(array, cache).
                bnd (BlockSwap array B_split (start (blockA st) + block_size - B_remaining)
                       B_remaining) (\<lambda>array. ret (array, cache)))
              else Rotate array (start (blockA st) - B_split)
                     (Range_new B_split (start (blockA st) + block_size)) cache cache_size)
           (\<lambda>(array, cache).
         let st = st\<lparr>lastA := Range_new (start (blockA st) - B_remaining)
                                (start (blockA st) - B_remaining + block_size)\<rparr>;
             st = st\<lparr>lastB := Range_new (end' (lastA st)) (end' (lastA st) + B_remaining)\<rparr>;
             st = st\<lparr>blockA := (blockA st)\<lparr>start := start (blockA st) + block_size\<rparr>\<rparr>
         in if Range_length (blockA st) = 0 then ret (array, cache, st)
            else roll_loop array cache compare cache_size block_size buffer2_0 B st))))))
       else if Range_length (blockB st) < block_size
       then
         bnd (Rotate array (start (blockB st) - start (blockA st))
                (Range_new (start (blockA st)) (end' (blockB st))) cache 0) (\<lambda>(array, cache).
         let st = st\<lparr>lastB := Range_new (start (blockA st))
                                (start (blockA st) + Range_length (blockB st))\<rparr>;
             st = st\<lparr>blockA := \<lparr>start = start (blockA st) + Range_length (blockB st),
                                 end' = end' (blockA st) + Range_length (blockB st)\<rparr>\<rparr>;
             st = st\<lparr>blockB := (blockB st)\<lparr>end' := start (blockB st)\<rparr>\<rparr>
         in roll_loop array cache compare cache_size block_size buffer2_0 B st)
       else
         bnd (BlockSwap array (start (blockA st)) (start (blockB st)) block_size) (\<lambda>array.
         let st = st\<lparr>lastB := Range_new (start (blockA st)) (start (blockA st) + block_size)\<rparr>;
             st = st\<lparr>blockA := \<lparr>start = start (blockA st) + block_size,
                                 end' = end' (blockA st) + block_size\<rparr>\<rparr>;
             st = st\<lparr>blockB := (blockB st)\<lparr>start := start (blockB st) + block_size\<rparr>\<rparr>;
             st = (if end' (blockB st) > end' B - block_size
                   then st\<lparr>blockB := (blockB st)\<lparr>end' := end' B\<rparr>\<rparr>
                   else st\<lparr>blockB := (blockB st)\<lparr>end' := end' (blockB st) + block_size\<rparr>\<rparr>)
         in roll_loop array cache compare cache_size block_size buffer2_0 B st))"

text \<open>
  The block merge of one pair \<open>(A, B)\<close>: the branch
  \<^verbatim>\<open>else if (compare(&array[size * A.end], &array[size * (A.end - 1)]) < 0)\<close>.
  \<^verbatim>\<open>Range_length(blockA) % block_size\<close> traps when \<^verbatim>\<open>block_size\<close> is 0.
\<close>

definition merge_blocks ::
  "'a list \<Rightarrow> 'a list \<Rightarrow> ('a \<Rightarrow> 'a \<Rightarrow> int) \<Rightarrow> size_t \<Rightarrow> size_t \<Rightarrow> Range \<Rightarrow> Range \<Rightarrow>
   Range \<Rightarrow> Range \<Rightarrow> ('a list \<times> 'a list) comp" where
  "merge_blocks array cache compare cache_size block_size buffer1_0 buffer2_0 A B =
     (if block_size = 0 then fault DivisionByZero
      else
        let blockA0 = Range_new (start A) (end' A);
            firstA = Range_new (start A) (start A + Range_length blockA0 mod block_size)
        in
        bnd (tag_loop array (end' blockA0) block_size (start buffer1_0) (end' firstA)) (\<lambda>array.
        let st = \<lparr>blockA = blockA0\<lparr>start := start blockA0 + Range_length firstA\<rparr>,
                  lastA = firstA,
                  lastB = Range_new 0 0,
                  blockB = Range_new (start B) (start B + Min_sz block_size (Range_length B)),
                  indexA = start buffer1_0\<rparr>
        in
        bnd (if Range_length (lastA st) \<le> cache_size
             then bnd (memcpy cache 0 array (start (lastA st)) (Range_length (lastA st)))
                    (\<lambda>cache. ret (array, cache))
             else if Range_length buffer2_0 > 0
             then bnd (BlockSwap array (start (lastA st)) (start buffer2_0) (Range_length (lastA st)))
                    (\<lambda>array. ret (array, cache))
             else ret (array, cache)) (\<lambda>(array, cache).
        bnd (if Range_length (blockA st) > 0
             then roll_loop array cache compare cache_size block_size buffer2_0 B st
             else ret (array, cache, st)) (\<lambda>(array, cache, st).
        local_merge array cache compare cache_size buffer2_0 (lastA st)
          (Range_new (end' (lastA st)) (end' B))))))"

text \<open>
  The loop that merges each pair \<open>(A, B)\<close> of the level:
  \<^verbatim>\<open>WikiIterator_begin(&iterator); while (!WikiIterator_finished(&iterator)) { ... }\<close>
\<close>

partial_function (option) merge_pairs_loop ::
  "'a list \<Rightarrow> 'a list \<Rightarrow> ('a \<Rightarrow> 'a \<Rightarrow> int) \<Rightarrow> size_t \<Rightarrow> size_t \<Rightarrow> Range \<Rightarrow> Range \<Rightarrow>
   Pull \<Rightarrow> Pull \<Rightarrow> WikiIterator \<Rightarrow> ('a list \<times> 'a list \<times> WikiIterator) comp" where
  "merge_pairs_loop array cache compare cache_size block_size buffer1_0 buffer2_0 p0 p1 iterator =
     (if WikiIterator_finished iterator then ret (array, cache, iterator)
      else case WikiIterator_nextRange iterator of (A, iterator) \<Rightarrow>
           case WikiIterator_nextRange iterator of (B, iterator) \<Rightarrow>
        (case Option.bind (strip_pull p0 (start A) (A, B)) (strip_pull p1 (start A)) of
           None \<Rightarrow>
             merge_pairs_loop array cache compare cache_size block_size buffer1_0 buffer2_0 p0 p1
               iterator
         | Some (A, B) \<Rightarrow>
             bnd (compare_at compare array (end' B - 1) (start A)) (\<lambda>c.
               if c < 0
               then bnd (Rotate array (Range_length A) (Range_new (start A) (end' B)) cache cache_size)
                      (\<lambda>(array, cache).
                        merge_pairs_loop array cache compare cache_size block_size buffer1_0
                          buffer2_0 p0 p1 iterator)
               else bnd (compare_at compare array (end' A) (end' A - 1)) (\<lambda>c.
                 if c < 0
                 then bnd (merge_blocks array cache compare cache_size block_size buffer1_0
                             buffer2_0 A B) (\<lambda>(array, cache).
                        merge_pairs_loop array cache compare cache_size block_size buffer1_0
                          buffer2_0 p0 p1 iterator)
                 else merge_pairs_loop array cache compare cache_size block_size buffer1_0
                        buffer2_0 p0 p1 iterator))))"

text \<open>
  Redistributing a buffer that was pulled out to the left:
  \<^verbatim>\<open>while (Range_length(buffer) > 0) {
    index = FindFirstForward(array, &array[size * buffer.start], size,
              Range_new(buffer.end, pull[pull_index].range.end), compare, unique);
    amount = index - buffer.end;
    Rotate(array, size, Range_length(buffer), Range_new(buffer.start, index), cache, cache_size);
    buffer.start += (amount + 1); buffer.end += amount; unique -= 2; }\<close>
\<close>

partial_function (option) redistribute_right_loop ::
  "'a list \<Rightarrow> 'a list \<Rightarrow> ('a \<Rightarrow> 'a \<Rightarrow> int) \<Rightarrow> size_t \<Rightarrow> Pull \<Rightarrow> Range \<Rightarrow> size_t \<Rightarrow>
   ('a list \<times> 'a list) comp" where
  "redistribute_right_loop array cache compare cache_size pull buffer unique =
     (if Range_length buffer > 0
      then bnd (FindFirstForward array (start buffer)
                  (Range_new (end' buffer) (end' (range' pull))) compare unique) (\<lambda>index.
           let amount = index - end' buffer in
           bnd (Rotate array (Range_length buffer) (Range_new (start buffer) index) cache cache_size)
             (\<lambda>(array, cache).
               redistribute_right_loop array cache compare cache_size pull
                 \<lparr>start = start buffer + (amount + 1), end' = end' buffer + amount\<rparr> (unique - 2)))
      else ret (array, cache))"

text \<open>
  Redistributing a buffer that was pulled out to the right:
  \<^verbatim>\<open>while (Range_length(buffer) > 0) {
    index = FindLastBackward(array, &array[size * (buffer.end - 1)], size,
              Range_new(pull[pull_index].range.start, buffer.start), compare, unique);
    amount = buffer.start - index;
    Rotate(array, size, amount, Range_new(index, buffer.end), cache, cache_size);
    buffer.start -= amount; buffer.end -= (amount + 1); unique -= 2; }\<close>
\<close>

partial_function (option) redistribute_left_loop ::
  "'a list \<Rightarrow> 'a list \<Rightarrow> ('a \<Rightarrow> 'a \<Rightarrow> int) \<Rightarrow> size_t \<Rightarrow> Pull \<Rightarrow> Range \<Rightarrow> size_t \<Rightarrow>
   ('a list \<times> 'a list) comp" where
  "redistribute_left_loop array cache compare cache_size pull buffer unique =
     (if Range_length buffer > 0
      then bnd (FindLastBackward array (end' buffer - 1)
                  (Range_new (start (range' pull)) (start buffer)) compare unique) (\<lambda>index.
           let amount = start buffer - index in
           bnd (Rotate array amount (Range_new index (end' buffer)) cache cache_size)
             (\<lambda>(array, cache).
               redistribute_left_loop array cache compare cache_size pull
                 \<lparr>start = start buffer - amount, end' = end' buffer - (amount + 1)\<rparr> (unique - 2)))
      else ret (array, cache))"

text \<open>One turn of the last \<^verbatim>\<open>for (pull_index = 0; pull_index < 2; pull_index++)\<close>.\<close>

definition redistribute ::
  "'a list \<Rightarrow> 'a list \<Rightarrow> ('a \<Rightarrow> 'a \<Rightarrow> int) \<Rightarrow> size_t \<Rightarrow> Pull \<Rightarrow> ('a list \<times> 'a list) comp" where
  "redistribute array cache compare cache_size pull =
     (let unique = count' pull * 2 in
      if from' pull > to' pull
      then redistribute_right_loop array cache compare cache_size pull
             (Range_new (start (range' pull)) (start (range' pull) + count' pull)) unique
      else if from' pull < to' pull
      then redistribute_left_loop array cache compare cache_size pull
             (Range_new (end' (range' pull) - count' pull) (end' (range' pull))) unique
      else ret (array, cache))"

text \<open>
  The \<^verbatim>\<open>else\<close> branch of the level loop: one level of merges with internal buffers.
  \<^verbatim>\<open>WikiIterator_length(&iterator) / block_size\<close> and
  \<^verbatim>\<open>WikiIterator_length(&iterator) / buffer_size\<close> trap when the divisor is 0.
\<close>

definition in_place_level ::
  "'a list \<Rightarrow> 'a list \<Rightarrow> ('a \<Rightarrow> 'a \<Rightarrow> int) \<Rightarrow> size_t \<Rightarrow> WikiIterator \<Rightarrow>
   ('a list \<times> 'a list \<times> WikiIterator) comp" where
  "in_place_level array cache compare cache_size iterator =
     (let block_size = sqrt_sz (WikiIterator_length iterator) in
      if block_size = 0 then fault DivisionByZero
      else
        let buffer_size = WikiIterator_length iterator div block_size + 1;
            pull_init = \<lparr>from' = 0, to' = 0, count' = 0, range' = Range_new 0 0\<rparr>;
            find0 = buffer_size + buffer_size;
            st = \<lparr>pull0 = pull_init, pull1 = pull_init, pull_index = 0,
                  buffer1 = Range_new 0 0, buffer2 = Range_new 0 0,
                  find' = find0, find_separately = False\<rparr>;
            st = (if block_size \<le> cache_size then st\<lparr>find' := buffer_size\<rparr>
                  else if find0 > WikiIterator_length iterator
                  then st\<lparr>find' := buffer_size, find_separately := True\<rparr>
                  else st)
        in
        bnd (find_buffers_loop array compare block_size buffer_size cache_size
               (WikiIterator_begin iterator) st) (\<lambda>st.
        bnd (pull_out array cache compare cache_size (pull0 st)) (\<lambda>(array, cache, p0).
        bnd (pull_out array cache compare cache_size (pull1 st)) (\<lambda>(array, cache, p1).
        let buffer_size = Range_length (buffer1 st) in
        if buffer_size = 0 then fault DivisionByZero
        else
          let block_size = WikiIterator_length iterator div buffer_size + 1 in
          bnd (merge_pairs_loop array cache compare cache_size block_size (buffer1 st) (buffer2 st)
                 p0 p1 (WikiIterator_begin iterator)) (\<lambda>(array, cache, iterator).
          bnd (InsertionSort array (buffer2 st) compare) (\<lambda>array.
          bnd (redistribute array cache compare cache_size p0) (\<lambda>(array, cache).
          bnd (redistribute array cache compare cache_size p1) (\<lambda>(array, cache).
            ret (array, cache, iterator)))))))))"

text \<open>
  The level loop \<^verbatim>\<open>while (true) { ... if (!WikiIterator_nextLevel(&iterator)) break; }\<close>.
\<close>

partial_function (option) levels_loop ::
  "'a list \<Rightarrow> 'a list \<Rightarrow> ('a \<Rightarrow> 'a \<Rightarrow> int) \<Rightarrow> size_t \<Rightarrow> size_t \<Rightarrow> WikiIterator \<Rightarrow> 'a list comp" where
  "levels_loop array cache compare cache_size len iterator =
     bnd (if WikiIterator_length iterator < cache_size
          then cache_level array cache compare cache_size len iterator
          else in_place_level array cache compare cache_size iterator) (\<lambda>(array, cache, iterator).
       case WikiIterator_nextLevel iterator of (again, iterator) \<Rightarrow>
         if again then levels_loop array cache compare cache_size len iterator
         else ret array)"

section \<open>The sort and its entry points\<close>

text \<open>
  \<^verbatim>\<open>new_WikiSort(array, len, size, compare)\<close> on the array of the items of \<^verbatim>\<open>size\<close> bytes.
  The list is the memory object: \<open>len\<close> is the argument of the call and may differ from
  the number of items that the memory holds.
\<close>

definition new_WikiSort :: "'a list \<Rightarrow> size_t \<Rightarrow> ('a \<Rightarrow> 'a \<Rightarrow> int) \<Rightarrow> 'a list comp" where
  "new_WikiSort array len compare =
     (let cache_size = CACHE_SIZE; cache = [] in
      if len < 4
      then if len = 3 then sort3 array compare
           else if len = 2 then sort2 array compare
           else ret array
      else
        bnd (WikiIterator_new len 4) (\<lambda>iterator.
        bnd (base_loop array compare (WikiIterator_begin iterator)) (\<lambda>(array, iterator).
          if len < 8 then ret array
          else levels_loop array cache compare cache_size len iterator)))"

text \<open>
  The entry points receive the memory as bytes. \<^verbatim>\<open>new_WikiSort\<close> addresses it only through
  \<^verbatim>\<open>&array[size * i]\<close>, so on a memory of bytes it works on the items of \<^verbatim>\<open>size\<close> bytes
  that the memory holds, and the comparator is called on the bytes of two such items.
\<close>

type_synonym byte = "8 word"

definition items :: "nat \<Rightarrow> byte list \<Rightarrow> byte list list" where
  "items sz mem = map (\<lambda>i. take sz (drop (sz * i) mem)) [0..<length mem div sz]"

definition new_WikiSort_bytes ::
  "byte list \<Rightarrow> size_t \<Rightarrow> size_t \<Rightarrow> (byte list \<Rightarrow> byte list \<Rightarrow> int) \<Rightarrow> byte list comp" where
  "new_WikiSort_bytes array len sz compare =
     bnd (new_WikiSort (items (unat sz) array) len compare) (\<lambda>its.
       ret (concat its @ drop (unat sz * length its) array))"

text \<open>
  \<^verbatim>\<open>sizeof(Test)\<close>: \<^verbatim>\<open>Test\<close> is two \<^verbatim>\<open>size_t\<close> (\<^verbatim>\<open>VERIFY\<close> is true), 16 bytes under
  \<^verbatim>\<open>__LP64__\<close>.
\<close>

definition sizeof_Test :: size_t where
  "sizeof_Test = 16"

text \<open>
  \<^verbatim>\<open>void WikiSort(void *array, const size_t len, const size_t size, const Comparison compare)
  { new_WikiSort((char *)array, len, sizeof(Test), compare); }\<close>
\<close>

definition WikiSort ::
  "byte list \<Rightarrow> size_t \<Rightarrow> size_t \<Rightarrow> (byte list \<Rightarrow> byte list \<Rightarrow> int) \<Rightarrow> byte list comp" where
  "WikiSort array len sz compare = new_WikiSort_bytes array len sizeof_Test compare"

definition WikiSort_with_buffer ::
  "byte list \<Rightarrow> size_t \<Rightarrow> size_t \<Rightarrow> (byte list \<Rightarrow> byte list \<Rightarrow> int) \<Rightarrow> byte list \<Rightarrow> size_t \<Rightarrow>
   byte list comp" where
  "WikiSort_with_buffer array len sz compare buffer buffer_len =
     new_WikiSort_bytes array len sizeof_Test compare"

definition WikiSort_with_dynamic_buffer ::
  "byte list \<Rightarrow> size_t \<Rightarrow> size_t \<Rightarrow> (byte list \<Rightarrow> byte list \<Rightarrow> int) \<Rightarrow> byte list comp" where
  "WikiSort_with_dynamic_buffer array len sz compare =
     new_WikiSort_bytes array len sizeof_Test compare"

section \<open>Specification vocabulary\<close>

text \<open>The items of a list from index \<open>s\<close> up to, not including, index \<open>e\<close>.\<close>

definition slice :: "'a list \<Rightarrow> nat \<Rightarrow> nat \<Rightarrow> 'a list" where
  "slice xs s e = take (e - s) (drop s xs)"

text \<open>
  The list after the pairs of positions \<open>(s + j, e - 1 - j)\<close> for \<open>j < k\<close> have been exchanged:
  the state of \<^verbatim>\<open>Reverse\<close> after its \<open>k\<close> outermost swaps.
\<close>

definition mirror :: "nat \<Rightarrow> nat \<Rightarrow> nat \<Rightarrow> 'a list \<Rightarrow> 'a list" where
  "mirror s e k xs =
     map (\<lambda>i. if (s \<le> i \<and> i < s + k) \<or> (e - k \<le> i \<and> i < e) then xs ! (s + e - 1 - i) else xs ! i)
       [0..<length xs]"

text \<open>
  A comparator with total-order semantics: the sign of \<open>compare a b\<close> is the opposite of the
  sign of \<open>compare b a\<close>, and "not greater" is transitive.
\<close>

definition total_order_semantics :: "('a \<Rightarrow> 'a \<Rightarrow> int) \<Rightarrow> bool" where
  "total_order_semantics compare \<longleftrightarrow>
     (\<forall>a b. compare a b < 0 \<longleftrightarrow> compare b a > 0) \<and>
     (\<forall>a b c. compare a b \<le> 0 \<and> compare b c \<le> 0 \<longrightarrow> compare a c \<le> 0)"

text \<open>A list that is sorted under the comparator: no item is greater than a later one.\<close>

definition sorted_under :: "('a \<Rightarrow> 'a \<Rightarrow> int) \<Rightarrow> 'a list \<Rightarrow> bool" where
  "sorted_under compare xs \<longleftrightarrow> sorted_wrt (\<lambda>a b. compare a b \<le> 0) xs"

text \<open>
  The tests of the two binary searches at position \<open>i\<close>, for the value at position \<open>v\<close>:
  \<^verbatim>\<open>compare(&array[size * i], value) < 0\<close> and \<^verbatim>\<open>compare(value, &array[size * i]) >= 0\<close>.
\<close>

definition below :: "('a \<Rightarrow> 'a \<Rightarrow> int) \<Rightarrow> 'a list \<Rightarrow> nat \<Rightarrow> nat \<Rightarrow> bool" where
  "below compare array v i \<longleftrightarrow> compare (array ! i) (array ! v) < 0"

definition not_above :: "('a \<Rightarrow> 'a \<Rightarrow> int) \<Rightarrow> 'a list \<Rightarrow> nat \<Rightarrow> nat \<Rightarrow> bool" where
  "not_above compare array v i \<longleftrightarrow> compare (array ! v) (array ! i) \<ge> 0"

text \<open>
  \<open>k\<close> is the place in \<open>[s, e]\<close> where \<open>P\<close> stops holding: \<open>P\<close> holds from \<open>s\<close> up to
  \<open>k\<close> and fails from \<open>k\<close> up to \<open>e\<close>.
\<close>

definition splits_at :: "(nat \<Rightarrow> bool) \<Rightarrow> nat \<Rightarrow> nat \<Rightarrow> nat \<Rightarrow> bool" where
  "splits_at P s e k \<longleftrightarrow>
     s \<le> k \<and> k \<le> e \<and> (\<forall>i. s \<le> i \<and> i < k \<longrightarrow> P i) \<and> (\<forall>i. k \<le> i \<and> i < e \<longrightarrow> \<not> P i)"

definition downward :: "(nat \<Rightarrow> bool) \<Rightarrow> nat \<Rightarrow> nat \<Rightarrow> bool" where
  "downward P s e \<longleftrightarrow> (\<forall>i j. s \<le> i \<and> i \<le> j \<and> j < e \<and> P j \<longrightarrow> P i)"

text \<open>
  The ranges that \<^verbatim>\<open>while (!WikiIterator_finished(&iterator)) { range =
  WikiIterator_nextRange(&iterator); ... }\<close> goes through, in order; \<open>None\<close> when the loop
  does not end.
\<close>

partial_function (option) emitted_ranges :: "WikiIterator \<Rightarrow> Range list option" where
  "emitted_ranges me =
     (if WikiIterator_finished me then Some []
      else case WikiIterator_nextRange me of
             (r, me') \<Rightarrow> Option.bind (emitted_ranges me') (\<lambda>rs. Some (r # rs)))"

text \<open>
  The iterator after \<open>k\<close> calls of \<^verbatim>\<open>WikiIterator_nextLevel\<close> that all returned true;
  \<open>None\<close> when one of them returned false.
\<close>

fun after_levels :: "nat \<Rightarrow> WikiIterator \<Rightarrow> WikiIterator option" where
  "after_levels 0 me = Some me"
| "after_levels (Suc k) me =
     (case after_levels k me of
        None \<Rightarrow> None
      | Some me' \<Rightarrow> (case WikiIterator_nextLevel me' of (again, me'') \<Rightarrow> if again then Some me'' else None))"

text \<open>
  Consecutive half-open intervals from \<open>a\<close> to \<open>b\<close>: the first range starts at \<open>a\<close>, each
  range starts where the one before it ends, and the last one ends at \<open>b\<close>.
\<close>

fun tiles :: "size_t \<Rightarrow> Range list \<Rightarrow> size_t \<Rightarrow> bool" where
  "tiles a [] b \<longleftrightarrow> a = b"
| "tiles a (r # rs) b \<longleftrightarrow> start r = a \<and> start r \<le> end' r \<and> tiles (end' r) rs b"

section \<open>Invariants used in the proofs\<close>

text \<open>
  The steps of an iterator over \<open>N\<close> items with denominator \<open>D\<close>: \<open>2 ^ a\<close> steps of
  \<open>decimal_step + numerator_step / D\<close> make exactly \<open>N\<close>.
\<close>

definition level_inv :: "WikiIterator \<Rightarrow> nat \<Rightarrow> bool" where
  "level_inv me a \<longleftrightarrow>
     0 < unat (denominator me) \<and> 2 * unat (denominator me) \<le> unat (size' me) \<and>
     unat (numerator_step me) < unat (denominator me) \<and>
     (unat (decimal_step me) * unat (denominator me) + unat (numerator_step me)) * 2 ^ a
       = unat (size' me) * unat (denominator me)"

text \<open>The position of the iterator after \<open>j\<close> of these steps.\<close>

definition iter_inv :: "WikiIterator \<Rightarrow> nat \<Rightarrow> nat \<Rightarrow> bool" where
  "iter_inv me a j \<longleftrightarrow>
     level_inv me a \<and> j \<le> 2 ^ a \<and> unat (numerator me) < unat (denominator me) \<and>
     unat (decimal me) * unat (denominator me) + unat (numerator me)
       = j * (unat (decimal_step me) * unat (denominator me) + unat (numerator_step me))"


text \<open>
  A compare-exchange network on a list of keys ordered by \<open>lt\<close>: the comparator \<open>(x, y)\<close>
  exchanges the keys at \<open>x\<close> and \<open>y\<close> when the one at \<open>y\<close> is less than the one at \<open>x\<close>.
\<close>

definition compare_exchange :: "('k \<Rightarrow> 'k \<Rightarrow> bool) \<Rightarrow> nat \<Rightarrow> nat \<Rightarrow> 'k list \<Rightarrow> 'k list" where
  "compare_exchange lt x y ks = (if lt (ks ! y) (ks ! x) then ks[x := ks ! y, y := ks ! x] else ks)"

fun run_network :: "('k \<Rightarrow> 'k \<Rightarrow> bool) \<Rightarrow> (nat \<times> nat) list \<Rightarrow> 'k list \<Rightarrow> 'k list" where
  "run_network lt [] ks = ks"
| "run_network lt ((x, y) # ps) ks = run_network lt ps (compare_exchange lt x y ks)"

definition strict_linear :: "('k \<Rightarrow> 'k \<Rightarrow> bool) \<Rightarrow> bool" where
  "strict_linear lt \<longleftrightarrow>
     (\<forall>a. \<not> lt a a) \<and> (\<forall>a b c. lt a b \<and> lt b c \<longrightarrow> lt a c) \<and> (\<forall>a b. a \<noteq> b \<longrightarrow> lt a b \<or> lt b a)"

text \<open>
  The order that the stabilized compare-exchange of \<^verbatim>\<open>NEW_SWAP\<close> follows, on the entries of
  \<^verbatim>\<open>order\<close>: by the items they stand for, and by the entries themselves when the items
  compare equal.
\<close>

definition stable_less :: "('a \<Rightarrow> 'a \<Rightarrow> int) \<Rightarrow> 'a list \<Rightarrow> 8 word \<Rightarrow> 8 word \<Rightarrow> bool" where
  "stable_less compare orig a b \<longleftrightarrow>
     compare (orig ! unat a) (orig ! unat b) < 0 \<or>
     (compare (orig ! unat a) (orig ! unat b) = 0 \<and> a < b)"

text \<open>
  \<open>p\<close> lists the positions of \<open>xs\<close> in a stably sorted order: every position once, the items
  in that order sorted under the comparator, and of two items that compare equal the one that
  is earlier in \<open>xs\<close> comes first.
\<close>

definition stable_sorting :: "('a \<Rightarrow> 'a \<Rightarrow> int) \<Rightarrow> 'a list \<Rightarrow> nat list \<Rightarrow> bool" where
  "stable_sorting compare xs p \<longleftrightarrow>
     distinct p \<and> set p = {0..<length xs} \<and>
     sorted_under compare (map (\<lambda>i. xs ! i) p) \<and>
     (\<forall>i<length p. \<forall>j<length p.
        p ! i < p ! j \<and> compare (xs ! (p ! i)) (xs ! (p ! j)) = 0 \<longrightarrow> i < j)"

text \<open>
  The stable merge of two runs: the head of the second run is taken only when it is less than
  the head of the first, so of two items that compare equal the one of the first run comes
  first.
\<close>

fun stable_merge :: "('a \<Rightarrow> 'a \<Rightarrow> int) \<Rightarrow> 'a list \<Rightarrow> 'a list \<Rightarrow> 'a list" where
  "stable_merge compare [] ys = ys"
| "stable_merge compare xs [] = xs"
| "stable_merge compare (x # xs) (y # ys) =
     (if compare y x < 0 then y # stable_merge compare (x # xs) ys
      else x # stable_merge compare xs (y # ys))"


text \<open>
  The state of the loop of \<^verbatim>\<open>MergeInternal\<close> when \<open>i\<close> items of the buffer and \<open>j\<close> items of
  \<open>B\<close> have been taken (\<open>A\<close> starts at \<open>a\<close> and has \<open>la\<close> items, \<open>B\<close> follows it and has \<open>lb\<close>
  items, the buffer starts at \<open>u\<close>): the array differs from the initial one only in the first
  \<open>la + j\<close> positions from \<open>a\<close> and the first \<open>i\<close> positions of the buffer; the first \<open>i + j\<close>
  positions from \<open>a\<close> hold the start of the merge; and the other positions that have changed
  hold the items that were in \<open>A\<close>'s positions.
\<close>

definition MergeInternal_inv ::
  "('a \<Rightarrow> 'a \<Rightarrow> int) \<Rightarrow> 'a list \<Rightarrow> 'a list \<Rightarrow> nat \<Rightarrow> nat \<Rightarrow> nat \<Rightarrow> nat \<Rightarrow> nat \<Rightarrow> nat \<Rightarrow> bool" where
  "MergeInternal_inv compare arr0 arr a la lb u i j \<longleftrightarrow>
     length arr = length arr0 \<and>
     (\<forall>p<length arr. \<not> (a \<le> p \<and> p < a + la + j) \<and> \<not> (u \<le> p \<and> p < u + i) \<longrightarrow> arr ! p = arr0 ! p) \<and>
     slice arr a (a + i + j)
       @ stable_merge compare (drop i (slice arr0 u (u + la)))
                              (drop j (slice arr0 (a + la) (a + la + lb))) =
       stable_merge compare (slice arr0 u (u + la)) (slice arr0 (a + la) (a + la + lb)) \<and>
     mset (slice arr (a + i + j) (a + la + j)) + mset (slice arr u (u + i)) =
       mset (slice arr0 a (a + la))"

text \<open>
  The list after the \<open>k\<close> positions from \<open>s1\<close> have been exchanged with the \<open>k\<close> positions
  from \<open>s2\<close>: the state of \<^verbatim>\<open>BlockSwap\<close> after \<open>k\<close> swaps.
\<close>

definition exchange :: "nat \<Rightarrow> nat \<Rightarrow> nat \<Rightarrow> 'a list \<Rightarrow> 'a list" where
  "exchange s1 s2 k xs =
     map (\<lambda>p. if s1 \<le> p \<and> p < s1 + k then xs ! (s2 + (p - s1))
              else if s2 \<le> p \<and> p < s2 + k then xs ! (s1 + (p - s2))
              else xs ! p) [0..<length xs]"

section \<open>Reversal and rotation\<close>

lemma length_mirror [simp]: "length (mirror s e k xs) = length xs"
  by (simp add: mirror_def)

lemma nth_mirror:
  "i < length xs \<Longrightarrow> mirror s e k xs ! i =
     (if (s \<le> i \<and> i < s + k) \<or> (e - k \<le> i \<and> i < e) then xs ! (s + e - 1 - i) else xs ! i)"
  by (simp add: mirror_def)

lemma mirror_0 [simp]: "mirror s e 0 xs = xs"
  by (rule nth_equalityI) (auto simp: nth_mirror)

lemma mirror_step:
  assumes "s + k \<le> e - k" "0 < k" "e \<le> length xs"
  shows "mirror s e (k - 1) (xs[s + k - 1 := xs ! (e - k), e - k := xs ! (s + k - 1)]) = mirror s e k xs"
    (is "mirror s e (k - 1) ?ys = _")
proof (rule nth_equalityI)
  show "length (mirror s e (k - 1) ?ys) = length (mirror s e k xs)"
    by simp
next
  fix i
  assume "i < length (mirror s e (k - 1) ?ys)"
  then have i: "i < length xs" by simp
  have a: "s + k - 1 < length xs" "e - k < length xs" "s + k - 1 \<noteq> e - k" using assms by arith+
  consider "i = s + k - 1" | "i = e - k" | "s \<le> i \<and> i < s + (k - 1)" | "e - (k - 1) \<le> i \<and> i < e"
    | "i < s \<or> (s + k \<le> i \<and> i < e - k) \<or> e \<le> i" using assms by arith
  then show "mirror s e (k - 1) ?ys ! i = mirror s e k xs ! i"
  proof cases
    case 1
    then have "\<not> ((s \<le> i \<and> i < s + (k - 1)) \<or> (e - (k - 1) \<le> i \<and> i < e))"
      using assms by arith
    then have "mirror s e (k - 1) ?ys ! i = ?ys ! i"
      using i by (simp only: nth_mirror length_list_update if_False)
    also have "\<dots> = xs ! (e - k)" using 1 a by (simp add: nth_list_update)
    also have "\<dots> = mirror s e k xs ! i"
    proof -
      have "s + e - 1 - i = e - k" using 1 assms by arith
      moreover have "s \<le> i \<and> i < s + k" using 1 assms by arith
      ultimately show ?thesis using i by (simp add: nth_mirror)
    qed
    finally show ?thesis .
  next
    case 2
    then have "\<not> ((s \<le> i \<and> i < s + (k - 1)) \<or> (e - (k - 1) \<le> i \<and> i < e))"
      using assms by arith
    then have "mirror s e (k - 1) ?ys ! i = ?ys ! i"
      using i by (simp only: nth_mirror length_list_update if_False)
    also have "\<dots> = xs ! (s + k - 1)" using 2 a by (simp add: nth_list_update)
    also have "\<dots> = mirror s e k xs ! i"
    proof -
      have "s + e - 1 - i = s + k - 1" using 2 assms by arith
      moreover have "e - k \<le> i \<and> i < e" using 2 assms by arith
      ultimately show ?thesis using i by (simp add: nth_mirror)
    qed
    finally show ?thesis .
  next
    case 3
    then have j: "s + e - 1 - i \<noteq> s + k - 1" "s + e - 1 - i \<noteq> e - k" using assms by arith+
    have "mirror s e (k - 1) ?ys ! i = ?ys ! (s + e - 1 - i)"
      using i 3 by (simp add: nth_mirror del: nth_list_update_eq nth_list_update_neq)
    also have "\<dots> = xs ! (s + e - 1 - i)" using j by (simp add: nth_list_update)
    also have "\<dots> = mirror s e k xs ! i"
    proof -
      have "s \<le> i \<and> i < s + k" using 3 by arith
      then show ?thesis using i by (simp add: nth_mirror)
    qed
    finally show ?thesis .
  next
    case 4
    then have j: "s + e - 1 - i \<noteq> s + k - 1" "s + e - 1 - i \<noteq> e - k" using assms by arith+
    have "mirror s e (k - 1) ?ys ! i = ?ys ! (s + e - 1 - i)"
      using i 4 by (simp add: nth_mirror del: nth_list_update_eq nth_list_update_neq)
    also have "\<dots> = xs ! (s + e - 1 - i)" using j by (simp add: nth_list_update)
    also have "\<dots> = mirror s e k xs ! i"
    proof -
      have "e - k \<le> i \<and> i < e" using 4 by arith
      then show ?thesis using i by (simp add: nth_mirror)
    qed
    finally show ?thesis .
  next
    case 5
    then have n: "\<not> ((s \<le> i \<and> i < s + (k - 1)) \<or> (e - (k - 1) \<le> i \<and> i < e))"
         "\<not> ((s \<le> i \<and> i < s + k) \<or> (e - k \<le> i \<and> i < e))" 
         "i \<noteq> s + k - 1" "i \<noteq> e - k" using assms by arith+
    have "mirror s e (k - 1) ?ys ! i = ?ys ! i"
      using i n(1) by (simp only: nth_mirror length_list_update if_False)
    also have "\<dots> = xs ! i" using n by (simp add: nth_list_update)
    also have "\<dots> = mirror s e k xs ! i"
      using i n(2) by (simp only: nth_mirror if_False)
    finally show ?thesis .
  qed
qed

lemma mirror_half:
  assumes "s \<le> e" "e \<le> length xs"
  shows "mirror s e ((e - s) div 2) xs = take s xs @ rev (slice xs s e) @ drop e xs"
proof (rule nth_equalityI)
  show "length (mirror s e ((e - s) div 2) xs) = length (take s xs @ rev (slice xs s e) @ drop e xs)"
    using assms by (simp add: slice_def)
next
  fix i
  assume "i < length (mirror s e ((e - s) div 2) xs)"
  then have i: "i < length xs" by simp
  consider "i < s" | "s \<le> i" "i < e" | "e \<le> i" by linarith
  then show "mirror s e ((e - s) div 2) xs ! i = (take s xs @ rev (slice xs s e) @ drop e xs) ! i"
  proof cases
    case 1
    then have "\<not> ((s \<le> i \<and> i < s + (e - s) div 2) \<or> (e - (e - s) div 2 \<le> i \<and> i < e))"
      using assms by arith
    then have "mirror s e ((e - s) div 2) xs ! i = xs ! i"
      using i by (simp only: nth_mirror if_False)
    with 1 assms i show ?thesis by (simp add: nth_append)
  next
    case 2
    have "(take s xs @ rev (slice xs s e) @ drop e xs) ! i = rev (slice xs s e) ! (i - s)"
      using 2 assms by (simp add: nth_append slice_def)
    also have "\<dots> = slice xs s e ! (e - s - 1 - (i - s))"
      using 2 assms by (simp add: rev_nth slice_def)
    also have "\<dots> = xs ! (s + e - 1 - i)"
    proof -
      have "s + (e - s - 1 - (i - s)) = s + e - 1 - i" using 2 by arith
      moreover have "e - s - 1 - (i - s) < e - s" using 2 by arith
      moreover have "slice xs s e ! (e - s - 1 - (i - s)) = xs ! (s + (e - s - 1 - (i - s)))"
        using assms calculation(2) by (simp add: slice_def)
      ultimately show ?thesis by (simp only:)
    qed
    finally have r: "(take s xs @ rev (slice xs s e) @ drop e xs) ! i = xs ! (s + e - 1 - i)" .
    have "mirror s e ((e - s) div 2) xs ! i = xs ! (s + e - 1 - i)"
    proof (cases "(s \<le> i \<and> i < s + (e - s) div 2) \<or> (e - (e - s) div 2 \<le> i \<and> i < e)")
      case True
      then show ?thesis using i by (simp only: nth_mirror if_True)
    next
      case False
      with 2 have "s + e - 1 - i = i" by arith
      with False i show ?thesis by (simp only: nth_mirror if_False)
    qed
    with r show ?thesis by simp
  next
    case 3
    then have "\<not> ((s \<le> i \<and> i < s + (e - s) div 2) \<or> (e - (e - s) div 2 \<le> i \<and> i < e))"
      using assms by arith
    then have "mirror s e ((e - s) div 2) xs ! i = xs ! i"
      using i by (simp only: nth_mirror if_False)
    moreover have "(take s xs @ rev (slice xs s e) @ drop e xs) ! i = xs ! i"
    proof -
      have "(take s xs @ rev (slice xs s e) @ drop e xs) ! i = drop e xs ! (i - e)"
      proof -
        have "\<not> i - s < e - s" "\<not> i < s" "i - s - (e - s) = i - e" using 3 assms by arith+
        then show ?thesis using assms by (simp add: nth_append slice_def)
      qed
      then show ?thesis using 3 i by simp
    qed
    ultimately show ?thesis by simp
  qed
qed

lemma unat_add_le:
  fixes a b c :: size_t
  assumes "unat a + unat b \<le> unat c"
  shows "unat (a + b) = unat a + unat b"
proof -
  have "unat c < 2 ^ LENGTH(64)" by (rule unsigned_less)
  with assms have "unat a + unat b < 2 ^ LENGTH(64)" by linarith
  then show ?thesis by (simp only: unat_add_lem)
qed

lemma unat_sub_le:
  fixes a b :: size_t
  assumes "unat b \<le> unat a"
  shows "unat (a - b) = unat a - unat b"
  using assms by (simp add: unat_sub word_le_nat_alt)

lemma Swap_ok:
  "unat i < length array \<Longrightarrow> unat j < length array \<Longrightarrow>
   Swap array i j = ret (array[unat i := array ! unat j, unat j := array ! unat i])"
  by (simp add: Swap_def)

lemma Reverse_loop_ok:
  assumes "unat (start rng) + unat index \<le> unat (end' rng) - unat index"
    and "unat (end' rng) \<le> length array"
  shows "Reverse_loop array rng index =
           ret (mirror (unat (start rng)) (unat (end' rng)) (unat index) array)"
  using assms
proof (induction "unat index" arbitrary: index array)
  case 0
  then have "index = 0" by (simp add: unat_eq_0)
  then show ?case by (subst Reverse_loop.simps) simp
next
  case (Suc n)
  let ?s = "unat (start rng)" and ?e = "unat (end' rng)" and ?k = "unat index"
  from Suc.hyps(2) have k: "0 < ?k" by simp
  then have pos: "index > 0" by (simp add: word_less_nat_alt)
  have k1: "unat (index - 1) = ?k - 1" using k by (simp add: unat_minus_one unat_gt_0)
  have le: "?s + ?k \<le> ?e - ?k" using Suc.prems(1) .
  then have "?s + ?k \<le> ?e" by arith
  then have sk: "unat (start rng + index) = ?s + ?k" by (rule unat_add_le)
  have "start rng + index \<noteq> 0" using sk k by (metis add_is_0 less_numeral_extra(3) unat_0)
  then have i1: "unat (start rng + index - 1) = ?s + ?k - 1" using sk by (simp add: unat_minus_one)
  have i2: "unat (end' rng - index) = ?e - ?k" using le by (intro unat_sub_le) arith
  have b: "?s + ?k - 1 < length array" "?e - ?k < length array" using le k Suc.prems(2) by arith+
  let ?array' = "array[?s + ?k - 1 := array ! (?e - ?k), ?e - ?k := array ! (?s + ?k - 1)]"
  have sw: "Swap array (start rng + index - 1) (end' rng - index) = ret ?array'"
    using b by (simp add: Swap_ok i1 i2)
  have n: "n = unat (index - 1)" using Suc.hyps(2) k1 by simp
  have "Reverse_loop ?array' rng (index - 1) = ret (mirror ?s ?e (unat (index - 1)) ?array')"
  proof (rule Suc.hyps(1)[OF n])
    show "?s + unat (index - 1) \<le> ?e - unat (index - 1)" using le k1 by arith
    show "?e \<le> length ?array'" using Suc.prems(2) by simp
  qed
  also have "mirror ?s ?e (unat (index - 1)) ?array' = mirror ?s ?e ?k array"
    unfolding k1 using le k Suc.prems(2) by (rule mirror_step)
  finally have rec: "Reverse_loop ?array' rng (index - 1) = ret (mirror ?s ?e ?k array)" .
  show ?case
    by (subst Reverse_loop.simps) (simp only: pos sw rec if_True bnd_ret)
qed

lemma Range_length_unat:
  "unat (start rng) \<le> unat (end' rng) \<Longrightarrow> unat (Range_length rng) = unat (end' rng) - unat (start rng)"
  by (simp add: Range_length_def unat_sub_le)

lemma Reverse_ok:
  assumes "unat (start rng) \<le> unat (end' rng)" and "unat (end' rng) \<le> length array"
  shows "Reverse array rng =
           ret (take (unat (start rng)) array
                @ rev (slice array (unat (start rng)) (unat (end' rng)))
                @ drop (unat (end' rng)) array)"
proof -
  let ?s = "unat (start rng)" and ?e = "unat (end' rng)"
  have h: "unat (Range_length rng div 2) = (?e - ?s) div 2"
    using assms(1) by (simp add: unat_div Range_length_unat)
  have "?s + unat (Range_length rng div 2) \<le> ?e - unat (Range_length rng div 2)"
    unfolding h using assms(1) by arith
  then have "Reverse array rng = ret (mirror ?s ?e (unat (Range_length rng div 2)) array)"
    unfolding Reverse_def using assms(2) by (rule Reverse_loop_ok)
  then show ?thesis using assms by (simp add: h mirror_half)
qed

lemma Reverse_app:
  assumes "unat (start rng) = length P" and "unat (end' rng) = length P + length X"
  shows "Reverse (P @ X @ Q) rng = ret (P @ rev X @ Q)"
proof -
  have "Reverse (P @ X @ Q) rng =
          ret (take (unat (start rng)) (P @ X @ Q)
               @ rev (slice (P @ X @ Q) (unat (start rng)) (unat (end' rng)))
               @ drop (unat (end' rng)) (P @ X @ Q))"
    by (rule Reverse_ok) (simp_all add: assms)
  then show ?thesis by (simp add: assms slice_def)
qed

lemma memcpy_app:
  assumes "unat d = length D1" and "unat n = length S2" and "length D2 = length S2"
    and "unat s = length S1"
  shows "memcpy (D1 @ D2 @ D3) d (S1 @ S2 @ S3) s n = ret (D1 @ S2 @ D3)"
proof (cases "n = 0")
  case True
  with assms have "S2 = []" "D2 = []" by simp_all
  with True show ?thesis by (simp add: memcpy_def)
next
  case False
  then show ?thesis using assms by (simp add: memcpy_def)
qed

lemma slice_append:
  assumes "s \<le> m" and "m \<le> e"
  shows "slice xs s m @ slice xs m e = slice xs s e"
proof -
  have 1: "e - s = (m - s) + (e - m)" using assms by arith
  have 2: "drop m xs = drop (m - s) (drop s xs)" using assms by simp
  show ?thesis unfolding slice_def 1 2 by (simp only: take_add)
qed

lemma slice_whole:
  assumes "s \<le> e"
  shows "take s xs @ slice xs s e @ drop e xs = xs"
proof -
  have "drop e xs = drop (e - s) (drop s xs)" using assms by simp
  then show ?thesis unfolding slice_def by (simp only: append_take_drop_id)
qed

lemma length_slice: "e \<le> length xs \<Longrightarrow> length (slice xs s e) = e - s"
  by (simp add: slice_def)

lemma split_array:
  assumes "s + a \<le> e" and "e \<le> length xs"
  obtains P X1 X2 Q where "xs = P @ X1 @ X2 @ Q" "length P = s" "length X1 = a"
    "length X2 = e - s - a" "X1 @ X2 = slice xs s e" "P = take s xs" "Q = drop e xs"
proof
  have sl: "slice xs s (s + a) @ slice xs (s + a) e = slice xs s e"
    using assms by (intro slice_append) simp_all
  have "take s xs @ slice xs s e @ drop e xs = xs"
    using assms by (intro slice_whole) simp
  then show "xs = take s xs @ slice xs s (s + a) @ slice xs (s + a) e @ drop e xs"
    by (simp only: sl[symmetric] append_assoc)
  show "length (take s xs) = s" using assms by simp
  show "length (slice xs s (s + a)) = a" using assms by (simp add: length_slice)
  show "length (slice xs (s + a) e) = e - s - a" using assms by (simp add: length_slice)
  show "slice xs s (s + a) @ slice xs (s + a) e = slice xs s e" by (rule sl)
qed simp_all

lemma memcpy_eq:
  assumes "dst = D1 @ D2 @ D3" and "src = S1 @ S2 @ S3"
    and "unat d = length D1" and "unat n = length S2" and "length D2 = length S2"
    and "unat s = length S1"
  shows "memcpy dst d src s n = ret (D1 @ S2 @ D3)"
  unfolding assms(1,2) using assms(3-) by (rule memcpy_app)

lemma Rotate_ok:
  assumes se: "start rng \<le> end' rng"
    and el: "unat (end' rng) \<le> length array"
    and am: "amount \<le> Range_length rng"
    and cs: "unat cache_size \<le> length cache"
  shows "\<exists>cache'. Rotate array amount rng cache cache_size =
           ret (take (unat (start rng)) array
                @ rotate (unat amount) (slice array (unat (start rng)) (unat (end' rng)))
                @ drop (unat (end' rng)) array, cache') \<and> length cache' = length cache"
proof (cases "Range_length rng = 0")
  case True
  with am have "amount = 0" by simp
  moreover have "take (unat (start rng)) array @ slice array (unat (start rng)) (unat (end' rng))
                @ drop (unat (end' rng)) array = array"
    using se by (intro slice_whole) (simp add: word_le_nat_alt)
  ultimately show ?thesis using True by (simp add: Rotate_def)
next
  case False
  let ?s = "unat (start rng)" and ?e = "unat (end' rng)" and ?a = "unat amount"
  have se': "?s \<le> ?e" using se by (simp add: word_le_nat_alt)
  have len: "unat (Range_length rng) = ?e - ?s" using se' by (rule Range_length_unat)
  have a: "?a \<le> ?e - ?s" using am len by (simp add: word_le_nat_alt)
  then have sae: "?s + ?a \<le> ?e" using se' by arith
  then have "unat (start rng) + unat amount \<le> unat (end' rng)" .
  then have split: "unat (start rng + amount) = ?s + ?a" by (rule unat_add_le)
  obtain P X1 X2 Q where arr: "array = P @ X1 @ X2 @ Q" and lP: "length P = ?s"
    and l1: "length X1 = ?a" and l2: "length X2 = ?e - ?s - ?a"
    and X: "X1 @ X2 = slice array ?s ?e" and P: "P = take ?s array" and Q: "Q = drop ?e array"
    using sae el by (rule split_array)
  have rot: "rotate ?a (slice array ?s ?e) = X2 @ X1"
    unfolding X[symmetric] l1[symmetric] by (rule rotate_append)
  define range1 where "range1 = Range_new (start rng) (start rng + amount)"
  define range2 where "range2 = Range_new (start rng + amount) (end' rng)"
  have r1: "unat (start range1) = ?s" "unat (end' range1) = ?s + ?a"
    by (simp_all add: range1_def Range_new_def split)
  have r2: "unat (start range2) = ?s + ?a" "unat (end' range2) = ?e"
    by (simp_all add: range2_def Range_new_def split)
  have n1: "unat (Range_length range1) = ?a"
    using Range_length_unat[of range1] r1 by simp
  have n2: "unat (Range_length range2) = ?e - ?s - ?a"
    using Range_length_unat[of range2] r2 sae by simp
  have goal: "take ?s array @ rotate ?a (slice array ?s ?e) @ drop ?e array = P @ X2 @ X1 @ Q"
    by (simp add: rot P[symmetric] Q[symmetric])
  have unf: "Rotate array amount rng cache cache_size =
     (if Range_length range1 \<le> Range_length range2 \<and> Range_length range1 \<le> cache_size
          then
            bnd (memcpy cache 0 array (start range1) (Range_length range1)) (\<lambda>cache.
            bnd (memcpy array (start range1) array (start range2) (Range_length range2)) (\<lambda>array.
            bnd (memcpy array (start range1 + Range_length range2) cache 0 (Range_length range1))
              (\<lambda>array. ret (array, cache))))
          else if \<not> Range_length range1 \<le> Range_length range2 \<and> Range_length range2 \<le> cache_size
          then
            bnd (memcpy cache 0 array (start range2) (Range_length range2)) (\<lambda>cache.
            bnd (memcpy array (end' range2 - Range_length range1) array (start range1)
                   (Range_length range1)) (\<lambda>array.
            bnd (memcpy array (start range1) cache 0 (Range_length range2))
              (\<lambda>array. ret (array, cache))))
          else
            bnd (Reverse array range1) (\<lambda>array.
            bnd (Reverse array range2) (\<lambda>array.
            bnd (Reverse array rng) (\<lambda>array. ret (array, cache)))))"
    unfolding Rotate_def Let_def range1_def range2_def using False by (simp only: if_False)
  consider (A) "Range_length range1 \<le> Range_length range2 \<and> Range_length range1 \<le> cache_size"
    | (B) "\<not> (Range_length range1 \<le> Range_length range2 \<and> Range_length range1 \<le> cache_size)"
          "\<not> Range_length range1 \<le> Range_length range2 \<and> Range_length range2 \<le> cache_size"
    | (C) "\<not> (Range_length range1 \<le> Range_length range2 \<and> Range_length range1 \<le> cache_size)"
          "\<not> (\<not> Range_length range1 \<le> Range_length range2 \<and> Range_length range2 \<le> cache_size)"
    by blast
  then show ?thesis
  proof cases
    case A
    then have "?a \<le> length cache" using cs n1 by (simp add: word_le_nat_alt)
    then have "length (take ?a cache) = ?a" by simp
    then obtain C1 C2 where c: "cache = C1 @ C2" "length C1 = ?a"
      using append_take_drop_id[of ?a cache] by metis
    have m1: "memcpy cache 0 array (start range1) (Range_length range1) = ret (X1 @ C2)"
      using memcpy_eq[of cache "[]" C1 C2 array P X1 "X2 @ Q" 0 "Range_length range1" "start range1"]
      by (simp add: c arr r1 n1 lP l1)
    define R where "R = drop (length X2) (X1 @ X2 @ Q)"
    have lR: "length (take (length X2) (X1 @ X2 @ Q)) = length X2" by simp
    have arrR: "array = P @ take (length X2) (X1 @ X2 @ Q) @ R"
      by (simp only: arr R_def append_take_drop_id)
    have arr2: "array = (P @ X1) @ X2 @ Q" by (simp add: arr)
    have m2: "memcpy array (start range1) array (start range2) (Range_length range2) = ret (P @ X2 @ R)"
      using arrR arr2
      by (rule memcpy_eq[of array P "take (length X2) (X1 @ X2 @ Q)" R array "P @ X1" X2 Q])
         (simp_all add: r1 r2 n2 lP l1 l2)
    have dR: "drop ?a R = Q" unfolding R_def l1[symmetric] by (simp add: add.commute)
    have lR2: "?a \<le> length R" unfolding R_def l1[symmetric] by simp
    have R2: "R = take ?a R @ Q" using dR append_take_drop_id[of ?a R] by simp
    have off: "unat (start range1 + Range_length range2) = ?s + (?e - ?s - ?a)"
      by (rule trans[OF unat_add_le[where c = "end' rng"]]) (use sae in \<open>simp_all add: r1 n2\<close>)
    have "memcpy (P @ X2 @ R) (start range1 + Range_length range2) (X1 @ C2) 0 (Range_length range1)
               = ret ((P @ X2) @ X1 @ Q)"
      by (rule memcpy_eq[of _ "P @ X2" "take ?a R" Q _ "[]" X1 C2])
         (use lR2 in \<open>simp_all add: R2[symmetric] off n1 lP l1 l2\<close>)
    then have m3: "memcpy (P @ X2 @ R) (start range1 + Range_length range2) (X1 @ C2) 0 (Range_length range1)
               = ret (P @ X2 @ X1 @ Q)" by simp
    have "length (X1 @ C2) = length cache" using c l1 by simp
    then show ?thesis
      unfolding unf goal using A by (simp add: m1 m2 m3)
  next
    case B
    then have "?e - ?s - ?a \<le> length cache" using cs n2 by (simp add: word_le_nat_alt)
    then have "length (take (?e - ?s - ?a) cache) = ?e - ?s - ?a" by simp
    then obtain C1 C2 where c: "cache = C1 @ C2" "length C1 = ?e - ?s - ?a"
      using append_take_drop_id[of "?e - ?s - ?a" cache] by metis
    have m1: "memcpy cache 0 array (start range2) (Range_length range2) = ret (X2 @ C2)"
      using memcpy_eq[of cache "[]" C1 C2 array "P @ X1" X2 "Q" 0 "Range_length range2" "start range2"]
      by (simp add: c arr r2 n2 lP l1 l2)
    define L where "L = take (length X2) (X1 @ X2)"
    define M where "M = drop (length X2) (X1 @ X2)"
    have LM: "X1 @ X2 = L @ M" by (simp only: L_def M_def append_take_drop_id)
    have lL: "length L = length X2" by (simp add: L_def)
    have lM: "length M = length X1" by (simp add: M_def)
    have off: "unat (end' range2 - Range_length range1) = ?e - ?a"
      by (rule trans[OF unat_sub_le]) (use sae in \<open>simp_all add: r2 n1\<close>)
    have arr': "array = (P @ L) @ M @ Q" using arr LM by simp
    have "memcpy array (end' range2 - Range_length range1) array (start range1) (Range_length range1)
               = ret ((P @ L) @ X1 @ Q)"
      by (rule memcpy_eq[of array "P @ L" M Q array P X1 "X2 @ Q"])
         (use sae in \<open>simp_all add: arr' arr[symmetric] off r1 n1 lP l1 l2 lL lM\<close>)
    then have m2: "memcpy array (end' range2 - Range_length range1) array (start range1) (Range_length range1)
               = ret (P @ L @ X1 @ Q)" by simp
    have m3: "memcpy (P @ L @ X1 @ Q) (start range1) (X2 @ C2) 0 (Range_length range2)
               = ret (P @ X2 @ X1 @ Q)"
      by (rule memcpy_eq[of _ "P" "L" "X1 @ Q" _ "[]" X2 C2])
         (simp_all add: r1 n2 lP l1 l2 lL)
    have "length (X2 @ C2) = length cache" using c l2 by simp
    then show ?thesis
      unfolding unf goal using B by (simp add: m1 m2 m3)
  next
    case C
    have v1: "Reverse array range1 = ret (P @ rev X1 @ X2 @ Q)"
      unfolding arr using Reverse_app[of range1 P X1 "X2 @ Q"] by (simp add: r1 lP l1)
    have v2: "Reverse (P @ rev X1 @ X2 @ Q) range2 = ret (P @ rev X1 @ rev X2 @ Q)"
      using Reverse_app[of range2 "P @ rev X1" X2 "Q"] sae by (simp add: r2 lP l1 l2)
    have v3: "Reverse (P @ rev X1 @ rev X2 @ Q) rng = ret (P @ X2 @ X1 @ Q)"
      using Reverse_app[of rng "P" "rev X1 @ rev X2" "Q"] sae by (simp add: lP l1 l2)
    have "Rotate array amount rng cache cache_size = ret (P @ X2 @ X1 @ Q, cache)"
      unfolding unf by (simp only: C if_False v1 v2 v3 bnd_ret)
    then show ?thesis unfolding goal by simp
  qed
qed

text \<open>
  Claim C9. For every range \<open>rng\<close> inside the array and every \<open>amount\<close> with
  \<open>0 \<le> amount \<le> Range_length rng\<close>, \<^verbatim>\<open>Rotate\<close> returns, and the array it leaves is the old
  one with the items of the range rotated left by \<open>amount\<close> positions and every position
  outside the range unchanged; this holds on each of the two cache-assisted paths and on the
  three-reversal path. The cache holds at least \<open>cache_size\<close> items, as the caller promises.
\<close>

theorem Rotate_rotates_range:
  assumes "start rng \<le> end' rng"
    and "unat (end' rng) \<le> length array"
    and "amount \<le> Range_length rng"
    and "unat cache_size \<le> length cache"
  shows "\<exists>cache'. Rotate array amount rng cache cache_size =
           ret (take (unat (start rng)) array
                @ rotate (unat amount) (slice array (unat (start rng)) (unat (end' rng)))
                @ drop (unat (end' rng)) array, cache')"
  using Rotate_ok[OF assms] by blast

theorem Rotate_rotates_range_witness:
  "\<exists>cache'. Rotate [10, 11, 12, 13, 14 :: nat] 1 (Range_new 1 4) [] 0
             = ret ([10, 12, 13, 11, 14], cache')"
  using Rotate_rotates_range [of "Range_new 1 4" "[10, 11, 12, 13, 14 :: nat]" 1 0 "[]"]
  by (simp add: Range_new_def Range_length_def slice_def)

section \<open>Binary searches\<close>

lemma mid_unat:
  fixes start0 end0 :: size_t
  assumes "start0 < end0"
  shows "unat (start0 + (end0 - start0) div 2) = unat start0 + (unat end0 - unat start0) div 2"
proof -
  have le: "unat start0 \<le> unat end0" using assms by (simp add: word_less_nat_alt)
  have d: "unat ((end0 - start0) div 2) = (unat end0 - unat start0) div 2"
    by (simp add: unat_div unat_sub_le[OF le])
  have "unat start0 + unat ((end0 - start0) div 2) \<le> unat end0"
    unfolding d using le by arith
  then have "unat (start0 + (end0 - start0) div 2) = unat start0 + unat ((end0 - start0) div 2)"
    by (rule unat_add_le)
  then show ?thesis by (simp only: d)
qed

lemma unat_plus_one:
  fixes a b :: size_t
  assumes "a < b"
  shows "unat (a + 1) = unat a + 1"
proof -
  have "unat a + unat (1 :: size_t) \<le> unat b" using assms by (simp add: word_less_nat_alt)
  then have "unat (a + 1) = unat a + unat (1 :: size_t)" by (rule unat_add_le)
  then show ?thesis by simp
qed

lemma compare_at_ok:
  "unat i < length array \<Longrightarrow> unat j < length array \<Longrightarrow>
   compare_at compare array i j = ret (compare (array ! unat i) (array ! unat j))"
  by (simp add: compare_at_def item_def)

lemma splits_at_unique:
  assumes "splits_at P s e k" and "splits_at P s e k'"
  shows "k = k'"
proof (rule ccontr)
  assume "k \<noteq> k'"
  then consider "k < k'" | "k' < k" by arith
  then show False
  proof cases
    case 1
    with assms show False unfolding splits_at_def by (meson le_refl less_le_trans)
  next
    case 2
    with assms show False unfolding splits_at_def by (meson le_refl less_le_trans)
  qed
qed

lemma splits_at_extend:
  assumes "splits_at P a b k" and "s \<le> a" and "b \<le> e"
    and "\<And>i. s \<le> i \<Longrightarrow> i < a \<Longrightarrow> P i" and "\<And>i. b \<le> i \<Longrightarrow> i < e \<Longrightarrow> \<not> P i"
  shows "splits_at P s e k"
  unfolding splits_at_def
proof (intro conjI allI impI)
  show "s \<le> k" using assms(1,2) by (simp add: splits_at_def)
  show "k \<le> e" using assms(1,3) by (simp add: splits_at_def)
next
  fix i assume i: "s \<le> i \<and> i < k"
  show "P i"
  proof (cases "i < a")
    case True
    with i assms(4) show ?thesis by simp
  next
    case False
    with i assms(1) show ?thesis by (simp add: splits_at_def)
  qed
next
  fix i assume i: "k \<le> i \<and> i < e"
  show "\<not> P i"
  proof (cases "i < b")
    case True
    with i assms(1) show ?thesis by (simp add: splits_at_def)
  next
    case False
    with i assms(5) show ?thesis by simp
  qed
qed

lemma downwardD: "downward P s e \<Longrightarrow> s \<le> i \<Longrightarrow> i \<le> j \<Longrightarrow> j < e \<Longrightarrow> P j \<Longrightarrow> P i"
  unfolding downward_def by blast

lemma downward_subrange: "downward P s e \<Longrightarrow> s \<le> s' \<Longrightarrow> e' \<le> e \<Longrightarrow> downward P s' e'"
  unfolding downward_def by (meson le_trans less_le_trans)


lemma BinaryFirst_loop_step:
  assumes "start0 < end0" and "unat end0 < length array" and "unat val < length array"
  shows "BinaryFirst_loop compare array val start0 end0 =
          (if below compare array (unat val) (unat (start0 + (end0 - start0) div 2))
           then BinaryFirst_loop compare array val (start0 + (end0 - start0) div 2 + 1) end0
           else BinaryFirst_loop compare array val start0 (start0 + (end0 - start0) div 2))"
proof -
  have "unat (start0 + (end0 - start0) div 2) < length array"
    using assms(1,2) by (simp add: mid_unat word_less_nat_alt)
  then have c: "compare_at compare array (start0 + (end0 - start0) div 2) val =
      ret (compare (array ! unat (start0 + (end0 - start0) div 2)) (array ! unat val))"
    using assms(3) by (simp add: compare_at_ok)
  show ?thesis
    by (subst BinaryFirst_loop.simps) (simp add: assms(1) Let_def c below_def)
qed

lemma BinaryFirst_loop_stop:
  "\<not> start0 < end0 \<Longrightarrow> BinaryFirst_loop compare array val start0 end0 = ret start0"
  by (subst BinaryFirst_loop.simps) simp

lemma BinaryFirst_loop_spec:
  assumes "unat lo \<le> unat hi" and "unat hi < length array" and "unat val < length array"
    and "downward (below compare array (unat val)) (unat lo) (unat hi + 1)"
  shows "\<exists>k. BinaryFirst_loop compare array val lo hi = ret k \<and> unat lo \<le> unat k \<and> unat k \<le> unat hi
           \<and> (\<forall>i. unat lo \<le> i \<and> i < unat k \<longrightarrow> below compare array (unat val) i)
           \<and> (unat k < unat hi \<longrightarrow> \<not> below compare array (unat val) (unat k))"
  using assms
proof (induction "unat hi - unat lo" arbitrary: lo hi rule: less_induct)
  case less
  let ?P = "below compare array (unat val)"
  show ?case
  proof (cases "lo < hi")
    case False
    then have "BinaryFirst_loop compare array val lo hi = ret lo" by (rule BinaryFirst_loop_stop)
    moreover have "unat lo = unat hi" using False less.prems(1) by (simp add: word_less_nat_alt)
    ultimately show ?thesis by auto
  next
    case True
    define mid where "mid = lo + (hi - lo) div 2"
    have lh: "unat lo < unat hi" using True by (simp add: word_less_nat_alt)
    have m: "unat mid = unat lo + (unat hi - unat lo) div 2"
      unfolding mid_def using True by (rule mid_unat)
    have m1: "unat lo \<le> unat mid" "unat mid < unat hi" using m lh by arith+
    have "mid < hi" using m1 by (simp add: word_less_nat_alt)
    then have m2: "unat (mid + 1) = unat mid + 1" by (rule unat_plus_one)
    have step: "BinaryFirst_loop compare array val lo hi =
          (if ?P (unat mid) then BinaryFirst_loop compare array val (mid + 1) hi
           else BinaryFirst_loop compare array val lo mid)"
      unfolding mid_def using True less.prems(2,3) by (rule BinaryFirst_loop_step)
    show ?thesis
    proof (cases "?P (unat mid)")
      case P: True
      have "\<exists>k. BinaryFirst_loop compare array val (mid + 1) hi = ret k \<and> unat (mid + 1) \<le> unat k
              \<and> unat k \<le> unat hi \<and> (\<forall>i. unat (mid + 1) \<le> i \<and> i < unat k \<longrightarrow> ?P i)
              \<and> (unat k < unat hi \<longrightarrow> \<not> ?P (unat k))"
      proof (rule less.hyps)
        show "unat hi - unat (mid + 1) < unat hi - unat lo" using m1 m2 by arith
        show "unat (mid + 1) \<le> unat hi" using m1 m2 by arith
        show "unat hi < length array" by (rule less.prems(2))
        show "unat val < length array" by (rule less.prems(3))
        show "downward ?P (unat (mid + 1)) (unat hi + 1)"
          using less.prems(4) by (rule downward_subrange) (use m1 m2 in simp_all)
      qed
      then obtain k where k: "BinaryFirst_loop compare array val (mid + 1) hi = ret k"
        "unat (mid + 1) \<le> unat k" "unat k \<le> unat hi"
        "\<forall>i. unat (mid + 1) \<le> i \<and> i < unat k \<longrightarrow> ?P i"
        "unat k < unat hi \<longrightarrow> \<not> ?P (unat k)" by blast
      have "\<forall>i. unat lo \<le> i \<and> i < unat k \<longrightarrow> ?P i"
      proof (intro allI impI)
        fix i assume i: "unat lo \<le> i \<and> i < unat k"
        show "?P i"
        proof (cases "i \<le> unat mid")
          case True
          show ?thesis
            by (rule downwardD[OF less.prems(4), of i "unat mid"]) (use i True m1 P in simp_all)
        next
          case False
          with i k(4) m2 show ?thesis by simp
        qed
      qed
      moreover have "unat lo \<le> unat k" using k(2) m1 m2 by arith
      ultimately show ?thesis using step P k by simp
    next
      case N: False
      have "\<exists>k. BinaryFirst_loop compare array val lo mid = ret k \<and> unat lo \<le> unat k
              \<and> unat k \<le> unat mid \<and> (\<forall>i. unat lo \<le> i \<and> i < unat k \<longrightarrow> ?P i)
              \<and> (unat k < unat mid \<longrightarrow> \<not> ?P (unat k))"
      proof (rule less.hyps)
        show "unat mid - unat lo < unat hi - unat lo" using m1 by arith
        show "unat lo \<le> unat mid" using m1 by simp
        show "unat mid < length array" using m1 less.prems(2) by arith
        show "unat val < length array" by (rule less.prems(3))
        show "downward ?P (unat lo) (unat mid + 1)"
          using less.prems(4) by (rule downward_subrange) (use m1 in simp_all)
      qed
      then obtain k where k: "BinaryFirst_loop compare array val lo mid = ret k"
        "unat lo \<le> unat k" "unat k \<le> unat mid"
        "\<forall>i. unat lo \<le> i \<and> i < unat k \<longrightarrow> ?P i"
        "unat k < unat mid \<longrightarrow> \<not> ?P (unat k)" by blast
      have "\<not> ?P (unat k)"
      proof (cases "unat k < unat mid")
        case True
        with k(5) show ?thesis by simp
      next
        case False
        with k(3) have "unat k = unat mid" by arith
        with N show ?thesis by simp
      qed
      moreover have "unat k \<le> unat hi" using k(3) m1 by arith
      ultimately show ?thesis using step N k by simp
    qed
  qed
qed

lemma BinaryFirst_spec:
  assumes se: "start rng \<le> end' rng" and el: "unat (end' rng) \<le> length array"
    and vl: "unat val < length array"
    and dw: "downward (below compare array (unat val)) (unat (start rng)) (unat (end' rng))"
  shows "\<exists>k. BinaryFirst array val rng compare = ret k \<and>
           splits_at (below compare array (unat val)) (unat (start rng)) (unat (end' rng)) (unat k)"
proof (cases "start rng \<ge> end' rng")
  case True
  with se have "start rng = end' rng" by simp
  then show ?thesis using True by (auto simp: BinaryFirst_def splits_at_def)
next
  case False
  let ?P = "below compare array (unat val)"
  let ?s = "unat (start rng)" and ?e = "unat (end' rng)"
  have lt: "?s < ?e" using False by (simp add: word_le_nat_alt)
  then have e0: "end' rng \<noteq> 0" by (metis not_less_zero unat_0)
  have e1: "unat (end' rng - 1) = ?e - 1" using e0 by (simp add: unat_minus_one)
  have "\<exists>k. BinaryFirst_loop compare array val (start rng) (end' rng - 1) = ret k
          \<and> ?s \<le> unat k \<and> unat k \<le> unat (end' rng - 1)
          \<and> (\<forall>i. ?s \<le> i \<and> i < unat k \<longrightarrow> ?P i)
          \<and> (unat k < unat (end' rng - 1) \<longrightarrow> \<not> ?P (unat k))"
  proof (rule BinaryFirst_loop_spec)
    show "?s \<le> unat (end' rng - 1)" using lt e1 by arith
    show "unat (end' rng - 1) < length array" using lt e1 el by arith
    show "unat val < length array" by (rule vl)
    show "downward ?P ?s (unat (end' rng - 1) + 1)" using dw lt e1 by simp
  qed
  then obtain k where k: "BinaryFirst_loop compare array val (start rng) (end' rng - 1) = ret k"
    "?s \<le> unat k" "unat k \<le> ?e - 1" "\<forall>i. ?s \<le> i \<and> i < unat k \<longrightarrow> ?P i"
    "unat k < ?e - 1 \<longrightarrow> \<not> ?P (unat k)" unfolding e1 by blast
  have kl: "unat k < length array" using k(3) lt el by arith
  have c: "compare_at compare array k val = ret (compare (array ! unat k) (array ! unat val))"
    using kl vl by (simp add: compare_at_ok)
  show ?thesis
  proof (cases "k = end' rng - 1")
    case last: True
    then have ke: "unat k = ?e - 1" using e1 by simp
    show ?thesis
    proof (cases "?P (unat k)")
      case True
      have "k < end' rng" using ke lt by (simp add: word_less_nat_alt)
      then have "unat (k + 1) = unat k + 1" by (rule unat_plus_one)
      then have k1: "unat (k + 1) = ?e" using ke lt by arith
      have r: "BinaryFirst array val rng compare = ret (k + 1)"
        using False True last k(1) c by (simp add: BinaryFirst_def below_def)
      have "splits_at ?P ?s ?e ?e"
        unfolding splits_at_def
      proof (intro conjI allI impI)
        fix i assume i: "?s \<le> i \<and> i < ?e"
        show "?P i"
        proof (cases "i < unat k")
          case True
          with i k(4) show ?thesis by simp
        next
          case False
          with i ke have "i = unat k" by arith
          with \<open>?P (unat k)\<close> show ?thesis by simp
        qed
      qed (use lt in auto)
      with r k1 show ?thesis by simp
    next
      case N: False
      have r: "BinaryFirst array val rng compare = ret k"
        using False N last k(1) c by (simp add: BinaryFirst_def below_def)
      have "splits_at ?P ?s ?e (unat k)"
        unfolding splits_at_def
      proof (intro conjI allI impI)
        fix i assume i: "unat k \<le> i \<and> i < ?e"
        with ke have "i = unat k" by arith
        with N show "\<not> ?P i" by simp
      qed (use k ke lt in simp_all)
      with r show ?thesis by simp
    qed
  next
    case notlast: False
    then have "unat k \<noteq> ?e - 1" using e1 by (simp add: word_unat_eq_iff)
    with k(3) have klt: "unat k < ?e - 1" by arith
    with k(5) have N: "\<not> ?P (unat k)" by simp
    have r: "BinaryFirst array val rng compare = ret k"
      using False notlast k(1) by (simp add: BinaryFirst_def)
    have "splits_at ?P ?s ?e (unat k)"
      unfolding splits_at_def
    proof (intro conjI allI impI)
      fix i assume i: "unat k \<le> i \<and> i < ?e"
      show "\<not> ?P i"
      proof
        assume "?P i"
        have "?P (unat k)"
          by (rule downwardD[OF dw, of "unat k" i]) (use i k(2) \<open>?P i\<close> in simp_all)
        with N show False by simp
      qed
    qed (use k klt in simp_all)
    with r show ?thesis by simp
  qed
qed

lemma BinaryLast_loop_step:
  assumes "start0 < end0" and "unat end0 < length array" and "unat val < length array"
  shows "BinaryLast_loop compare array val start0 end0 =
          (if not_above compare array (unat val) (unat (start0 + (end0 - start0) div 2))
           then BinaryLast_loop compare array val (start0 + (end0 - start0) div 2 + 1) end0
           else BinaryLast_loop compare array val start0 (start0 + (end0 - start0) div 2))"
proof -
  have "unat (start0 + (end0 - start0) div 2) < length array"
    using assms(1,2) by (simp add: mid_unat word_less_nat_alt)
  then have c: "compare_at compare array val (start0 + (end0 - start0) div 2) =
      ret (compare (array ! unat val) (array ! unat (start0 + (end0 - start0) div 2)))"
    using assms(3) by (simp add: compare_at_ok)
  show ?thesis
    by (subst BinaryLast_loop.simps) (simp add: assms(1) Let_def c not_above_def)
qed

lemma BinaryLast_loop_stop:
  "\<not> start0 < end0 \<Longrightarrow> BinaryLast_loop compare array val start0 end0 = ret start0"
  by (subst BinaryLast_loop.simps) simp

lemma BinaryLast_loop_spec:
  assumes "unat lo \<le> unat hi" and "unat hi < length array" and "unat val < length array"
    and "downward (not_above compare array (unat val)) (unat lo) (unat hi + 1)"
  shows "\<exists>k. BinaryLast_loop compare array val lo hi = ret k \<and> unat lo \<le> unat k \<and> unat k \<le> unat hi
           \<and> (\<forall>i. unat lo \<le> i \<and> i < unat k \<longrightarrow> not_above compare array (unat val) i)
           \<and> (unat k < unat hi \<longrightarrow> \<not> not_above compare array (unat val) (unat k))"
  using assms
proof (induction "unat hi - unat lo" arbitrary: lo hi rule: less_induct)
  case less
  let ?P = "not_above compare array (unat val)"
  show ?case
  proof (cases "lo < hi")
    case False
    then have "BinaryLast_loop compare array val lo hi = ret lo" by (rule BinaryLast_loop_stop)
    moreover have "unat lo = unat hi" using False less.prems(1) by (simp add: word_less_nat_alt)
    ultimately show ?thesis by auto
  next
    case True
    define mid where "mid = lo + (hi - lo) div 2"
    have lh: "unat lo < unat hi" using True by (simp add: word_less_nat_alt)
    have m: "unat mid = unat lo + (unat hi - unat lo) div 2"
      unfolding mid_def using True by (rule mid_unat)
    have m1: "unat lo \<le> unat mid" "unat mid < unat hi" using m lh by arith+
    have "mid < hi" using m1 by (simp add: word_less_nat_alt)
    then have m2: "unat (mid + 1) = unat mid + 1" by (rule unat_plus_one)
    have step: "BinaryLast_loop compare array val lo hi =
          (if ?P (unat mid) then BinaryLast_loop compare array val (mid + 1) hi
           else BinaryLast_loop compare array val lo mid)"
      unfolding mid_def using True less.prems(2,3) by (rule BinaryLast_loop_step)
    show ?thesis
    proof (cases "?P (unat mid)")
      case P: True
      have "\<exists>k. BinaryLast_loop compare array val (mid + 1) hi = ret k \<and> unat (mid + 1) \<le> unat k
              \<and> unat k \<le> unat hi \<and> (\<forall>i. unat (mid + 1) \<le> i \<and> i < unat k \<longrightarrow> ?P i)
              \<and> (unat k < unat hi \<longrightarrow> \<not> ?P (unat k))"
      proof (rule less.hyps)
        show "unat hi - unat (mid + 1) < unat hi - unat lo" using m1 m2 by arith
        show "unat (mid + 1) \<le> unat hi" using m1 m2 by arith
        show "unat hi < length array" by (rule less.prems(2))
        show "unat val < length array" by (rule less.prems(3))
        show "downward ?P (unat (mid + 1)) (unat hi + 1)"
          using less.prems(4) by (rule downward_subrange) (use m1 m2 in simp_all)
      qed
      then obtain k where k: "BinaryLast_loop compare array val (mid + 1) hi = ret k"
        "unat (mid + 1) \<le> unat k" "unat k \<le> unat hi"
        "\<forall>i. unat (mid + 1) \<le> i \<and> i < unat k \<longrightarrow> ?P i"
        "unat k < unat hi \<longrightarrow> \<not> ?P (unat k)" by blast
      have "\<forall>i. unat lo \<le> i \<and> i < unat k \<longrightarrow> ?P i"
      proof (intro allI impI)
        fix i assume i: "unat lo \<le> i \<and> i < unat k"
        show "?P i"
        proof (cases "i \<le> unat mid")
          case True
          show ?thesis
            by (rule downwardD[OF less.prems(4), of i "unat mid"]) (use i True m1 P in simp_all)
        next
          case False
          with i k(4) m2 show ?thesis by simp
        qed
      qed
      moreover have "unat lo \<le> unat k" using k(2) m1 m2 by arith
      ultimately show ?thesis using step P k by simp
    next
      case N: False
      have "\<exists>k. BinaryLast_loop compare array val lo mid = ret k \<and> unat lo \<le> unat k
              \<and> unat k \<le> unat mid \<and> (\<forall>i. unat lo \<le> i \<and> i < unat k \<longrightarrow> ?P i)
              \<and> (unat k < unat mid \<longrightarrow> \<not> ?P (unat k))"
      proof (rule less.hyps)
        show "unat mid - unat lo < unat hi - unat lo" using m1 by arith
        show "unat lo \<le> unat mid" using m1 by simp
        show "unat mid < length array" using m1 less.prems(2) by arith
        show "unat val < length array" by (rule less.prems(3))
        show "downward ?P (unat lo) (unat mid + 1)"
          using less.prems(4) by (rule downward_subrange) (use m1 in simp_all)
      qed
      then obtain k where k: "BinaryLast_loop compare array val lo mid = ret k"
        "unat lo \<le> unat k" "unat k \<le> unat mid"
        "\<forall>i. unat lo \<le> i \<and> i < unat k \<longrightarrow> ?P i"
        "unat k < unat mid \<longrightarrow> \<not> ?P (unat k)" by blast
      have "\<not> ?P (unat k)"
      proof (cases "unat k < unat mid")
        case True
        with k(5) show ?thesis by simp
      next
        case False
        with k(3) have "unat k = unat mid" by arith
        with N show ?thesis by simp
      qed
      moreover have "unat k \<le> unat hi" using k(3) m1 by arith
      ultimately show ?thesis using step N k by simp
    qed
  qed
qed

lemma BinaryLast_spec:
  assumes se: "start rng \<le> end' rng" and el: "unat (end' rng) \<le> length array"
    and vl: "unat val < length array"
    and dw: "downward (not_above compare array (unat val)) (unat (start rng)) (unat (end' rng))"
  shows "\<exists>k. BinaryLast array val rng compare = ret k \<and>
           splits_at (not_above compare array (unat val)) (unat (start rng)) (unat (end' rng)) (unat k)"
proof (cases "start rng \<ge> end' rng")
  case True
  with se have "start rng = end' rng" by simp
  then show ?thesis using True by (auto simp: BinaryLast_def splits_at_def)
next
  case False
  let ?P = "not_above compare array (unat val)"
  let ?s = "unat (start rng)" and ?e = "unat (end' rng)"
  have lt: "?s < ?e" using False by (simp add: word_le_nat_alt)
  then have e0: "end' rng \<noteq> 0" by (metis not_less_zero unat_0)
  have e1: "unat (end' rng - 1) = ?e - 1" using e0 by (simp add: unat_minus_one)
  have "\<exists>k. BinaryLast_loop compare array val (start rng) (end' rng - 1) = ret k
          \<and> ?s \<le> unat k \<and> unat k \<le> unat (end' rng - 1)
          \<and> (\<forall>i. ?s \<le> i \<and> i < unat k \<longrightarrow> ?P i)
          \<and> (unat k < unat (end' rng - 1) \<longrightarrow> \<not> ?P (unat k))"
  proof (rule BinaryLast_loop_spec)
    show "?s \<le> unat (end' rng - 1)" using lt e1 by arith
    show "unat (end' rng - 1) < length array" using lt e1 el by arith
    show "unat val < length array" by (rule vl)
    show "downward ?P ?s (unat (end' rng - 1) + 1)" using dw lt e1 by simp
  qed
  then obtain k where k: "BinaryLast_loop compare array val (start rng) (end' rng - 1) = ret k"
    "?s \<le> unat k" "unat k \<le> ?e - 1" "\<forall>i. ?s \<le> i \<and> i < unat k \<longrightarrow> ?P i"
    "unat k < ?e - 1 \<longrightarrow> \<not> ?P (unat k)" unfolding e1 by blast
  have kl: "unat k < length array" using k(3) lt el by arith
  have c: "compare_at compare array val k = ret (compare (array ! unat val) (array ! unat k))"
    using kl vl by (simp add: compare_at_ok)
  show ?thesis
  proof (cases "k = end' rng - 1")
    case last: True
    then have ke: "unat k = ?e - 1" using e1 by simp
    show ?thesis
    proof (cases "?P (unat k)")
      case True
      have "k < end' rng" using ke lt by (simp add: word_less_nat_alt)
      then have "unat (k + 1) = unat k + 1" by (rule unat_plus_one)
      then have k1: "unat (k + 1) = ?e" using ke lt by arith
      have r: "BinaryLast array val rng compare = ret (k + 1)"
        using False True last k(1) c by (simp add: BinaryLast_def not_above_def)
      have "splits_at ?P ?s ?e ?e"
        unfolding splits_at_def
      proof (intro conjI allI impI)
        fix i assume i: "?s \<le> i \<and> i < ?e"
        show "?P i"
        proof (cases "i < unat k")
          case True
          with i k(4) show ?thesis by simp
        next
          case False
          with i ke have "i = unat k" by arith
          with \<open>?P (unat k)\<close> show ?thesis by simp
        qed
      qed (use lt in auto)
      with r k1 show ?thesis by simp
    next
      case N: False
      have r: "BinaryLast array val rng compare = ret k"
        using False N last k(1) c by (simp add: BinaryLast_def not_above_def)
      have "splits_at ?P ?s ?e (unat k)"
        unfolding splits_at_def
      proof (intro conjI allI impI)
        fix i assume i: "unat k \<le> i \<and> i < ?e"
        with ke have "i = unat k" by arith
        with N show "\<not> ?P i" by simp
      qed (use k ke lt in simp_all)
      with r show ?thesis by simp
    qed
  next
    case notlast: False
    then have "unat k \<noteq> ?e - 1" using e1 by (simp add: word_unat_eq_iff)
    with k(3) have klt: "unat k < ?e - 1" by arith
    with k(5) have N: "\<not> ?P (unat k)" by simp
    have r: "BinaryLast array val rng compare = ret k"
      using False notlast k(1) by (simp add: BinaryLast_def)
    have "splits_at ?P ?s ?e (unat k)"
      unfolding splits_at_def
    proof (intro conjI allI impI)
      fix i assume i: "unat k \<le> i \<and> i < ?e"
      show "\<not> ?P i"
      proof
        assume "?P i"
        have "?P (unat k)"
          by (rule downwardD[OF dw, of "unat k" i]) (use i k(2) \<open>?P i\<close> in simp_all)
        with N show False by simp
      qed
    qed (use k klt in simp_all)
    with r show ?thesis by simp
  qed
qed

section \<open>Galloping searches\<close>

lemma FindFirstForward_loop_step:
  assumes "unat (index - 1) < length array" and "unat val < length array"
  shows "FindFirstForward_loop array val rng compare skip index =
          (if below compare array (unat val) (unat (index - 1))
           then if index \<ge> end' rng - skip
                then BinaryFirst array val (Range_new index (end' rng)) compare
                else FindFirstForward_loop array val rng compare skip (index + skip)
           else BinaryFirst array val (Range_new (index - skip) index) compare)"
  by (subst FindFirstForward_loop.simps) (simp add: compare_at_ok assms below_def)

lemma FindFirstForward_loop_spec:
  assumes se: "start rng \<le> end' rng" and el: "unat (end' rng) \<le> length array"
    and vl: "unat val < length array"
    and dw: "downward (below compare array (unat val)) (unat (start rng)) (unat (end' rng))"
    and k1: "1 \<le> unat skip"
    and lo: "unat (start rng) + unat skip \<le> unat index" and hi: "unat index \<le> unat (end' rng)"
    and inv: "\<forall>j. unat (start rng) \<le> j \<and> j < unat index - unat skip
                \<longrightarrow> below compare array (unat val) j"
  shows "\<exists>k. FindFirstForward_loop array val rng compare skip index = ret k \<and>
           splits_at (below compare array (unat val)) (unat (start rng)) (unat (end' rng)) (unat k)"
  using lo hi inv
proof (induction "unat (end' rng) - unat index" arbitrary: index rule: less_induct)
  case less
  let ?P = "below compare array (unat val)"
  let ?s = "unat (start rng)" and ?e = "unat (end' rng)" and ?i = "unat index" and ?k = "unat skip"
  have ipos: "0 < ?i" using less.prems(1) k1 by arith
  then have "index \<noteq> 0" by (simp add: unat_gt_0)
  then have i1: "unat (index - 1) = ?i - 1" by (simp add: unat_minus_one)
  have i1l: "unat (index - 1) < length array" using i1 ipos less.prems(2) el by arith
  have step: "FindFirstForward_loop array val rng compare skip index =
          (if ?P (?i - 1)
           then if index \<ge> end' rng - skip
                then BinaryFirst array val (Range_new index (end' rng)) compare
                else FindFirstForward_loop array val rng compare skip (index + skip)
           else BinaryFirst array val (Range_new (index - skip) index) compare)"
    using FindFirstForward_loop_step[OF i1l vl] by (simp only: i1)
  have ke: "?k \<le> ?e" using less.prems(1,2) by arith
  have esk: "unat (end' rng - skip) = ?e - ?k" using ke by (rule unat_sub_le)
  show ?case
  proof (cases "?P (?i - 1)")
    case P: True
    have allP: "\<And>j. ?s \<le> j \<Longrightarrow> j < ?i \<Longrightarrow> ?P j"
    proof -
      fix j assume "?s \<le> j" "j < ?i"
      then show "?P j"
        using downwardD[OF dw, of j "?i - 1"] P less.prems(2) ipos by simp
    qed
    show ?thesis
    proof (cases "index \<ge> end' rng - skip")
      case True
      have "\<exists>k. BinaryFirst array val (Range_new index (end' rng)) compare = ret k \<and>
              splits_at ?P (unat (start (Range_new index (end' rng))))
                 (unat (end' (Range_new index (end' rng)))) (unat k)"
      proof (rule BinaryFirst_spec)
        show "start (Range_new index (end' rng)) \<le> end' (Range_new index (end' rng))"
          using less.prems(2) by (simp add: Range_new_def word_le_nat_alt)
        show "unat (end' (Range_new index (end' rng))) \<le> length array"
          using el by (simp add: Range_new_def)
        show "unat val < length array" by (rule vl)
        show "downward ?P (unat (start (Range_new index (end' rng))))
                (unat (end' (Range_new index (end' rng))))"
          using dw by (rule downward_subrange) (use less.prems(1) in \<open>simp_all add: Range_new_def\<close>)
      qed
      then obtain k where k: "BinaryFirst array val (Range_new index (end' rng)) compare = ret k"
        "splits_at ?P ?i ?e (unat k)" by (auto simp: Range_new_def)
      have "splits_at ?P ?s ?e (unat k)"
        using k(2) by (rule splits_at_extend) (use less.prems(1) allP in auto)
      then show ?thesis using step P True k(1) by simp
    next
      case False
      then have lt: "?i < ?e - ?k" using esk by (simp add: word_le_nat_alt)
      then have "?i + ?k \<le> ?e" by arith
      then have isk: "unat (index + skip) = ?i + ?k" by (rule unat_add_le)
      have "\<exists>k. FindFirstForward_loop array val rng compare skip (index + skip) = ret k \<and>
              splits_at ?P ?s ?e (unat k)"
      proof (rule less.hyps)
        show "?e - unat (index + skip) < ?e - ?i" using isk lt k1 by arith
        show "?s + ?k \<le> unat (index + skip)" using isk less.prems(1) by arith
        show "unat (index + skip) \<le> ?e" using isk lt by arith
        show "\<forall>j. ?s \<le> j \<and> j < unat (index + skip) - ?k \<longrightarrow> ?P j"
          using allP isk by simp
      qed
      then show ?thesis using step P False by simp
    qed
  next
    case N: False
    have ik: "unat (index - skip) = ?i - ?k"
      using less.prems(1) by (intro unat_sub_le) arith
    have "\<exists>k. BinaryFirst array val (Range_new (index - skip) index) compare = ret k \<and>
            splits_at ?P (unat (start (Range_new (index - skip) index)))
               (unat (end' (Range_new (index - skip) index))) (unat k)"
    proof (rule BinaryFirst_spec)
      show "start (Range_new (index - skip) index) \<le> end' (Range_new (index - skip) index)"
        using ik by (simp add: Range_new_def word_le_nat_alt)
      show "unat (end' (Range_new (index - skip) index)) \<le> length array"
        using el less.prems(2) by (simp add: Range_new_def)
      show "unat val < length array" by (rule vl)
      show "downward ?P (unat (start (Range_new (index - skip) index)))
              (unat (end' (Range_new (index - skip) index)))"
      proof (rule downward_subrange[OF dw])
        show "?s \<le> unat (start (Range_new (index - skip) index))"
          using less.prems(1) ik by (simp add: Range_new_def)
        show "unat (end' (Range_new (index - skip) index)) \<le> ?e"
          using less.prems(2) by (simp add: Range_new_def)
      qed
    qed
    then obtain k where k: "BinaryFirst array val (Range_new (index - skip) index) compare = ret k"
      "splits_at ?P (?i - ?k) ?i (unat k)" by (auto simp: Range_new_def ik)
    have "splits_at ?P ?s ?e (unat k)"
      using k(2)
    proof (rule splits_at_extend)
      show "?s \<le> ?i - ?k" using less.prems(1) by arith
      show "?i \<le> ?e" by (rule less.prems(2))
      show "\<And>j. ?s \<le> j \<Longrightarrow> j < ?i - ?k \<Longrightarrow> ?P j" using less.prems(3) by simp
      show "\<And>j. ?i \<le> j \<Longrightarrow> j < ?e \<Longrightarrow> \<not> ?P j"
      proof
        fix j assume j: "?i \<le> j" "j < ?e" "?P j"
        have "?P (?i - 1)"
        proof (rule downwardD[OF dw])
          show "?s \<le> ?i - 1" using less.prems(1) k1 by arith
          show "?i - 1 \<le> j" using j(1) by arith
          show "j < ?e" by (rule j(2))
          show "?P j" by (rule j(3))
        qed
        with N show False by simp
      qed
    qed
    then show ?thesis using step N k(1) by simp
  qed
qed

lemma FindFirstForward_spec:
  assumes se: "start rng \<le> end' rng" and el: "unat (end' rng) \<le> length array"
    and vl: "unat val < length array"
    and dw: "downward (below compare array (unat val)) (unat (start rng)) (unat (end' rng))"
    and u: "1 \<le> unique"
  shows "\<exists>k. FindFirstForward array val rng compare unique = ret k \<and>
           splits_at (below compare array (unat val)) (unat (start rng)) (unat (end' rng)) (unat k)"
proof (cases "Range_length rng = 0")
  case True
  then have "start rng = end' rng" by (simp add: Range_length_def)
  then show ?thesis using True by (auto simp: FindFirstForward_def splits_at_def)
next
  case False
  let ?s = "unat (start rng)" and ?e = "unat (end' rng)"
  have se': "?s \<le> ?e" using se by (simp add: word_le_nat_alt)
  then have len: "unat (Range_length rng) = ?e - ?s" by (rule Range_length_unat)
  have pos: "0 < ?e - ?s" using False len by (metis unat_gt_0)
  define skip where "skip = Max_sz (Range_length rng div unique) 1"
  have u0: "unique \<noteq> 0" using u by auto
  have sk: "skip_of rng unique = ret skip" using u0 by (simp add: skip_of_def skip_def)
  have d: "unat (Range_length rng div unique) = (?e - ?s) div unat unique"
    by (simp add: unat_div len)
  have k1: "1 \<le> unat skip"
    unfolding skip_def Max_sz_def by (simp add: word_less_nat_alt) 
  have k2: "unat skip \<le> ?e - ?s"
  proof -
    have "(?e - ?s) div unat unique \<le> ?e - ?s" by (rule div_le_dividend)
    moreover have "Suc 0 \<le> ?e - ?s" using pos by arith
    ultimately show ?thesis unfolding skip_def Max_sz_def using d by simp
  qed
  show ?thesis
    proof -
    have "?s + unat skip \<le> ?e" using k2 se' by arith
    then have i0: "unat (start rng + skip) = ?s + unat skip" by (rule unat_add_le)
    have "\<exists>k. FindFirstForward_loop array val rng compare skip (start rng + skip) = ret k \<and>
           splits_at (below compare array (unat val)) ?s ?e (unat k)"
      using se el vl dw k1
    proof (rule FindFirstForward_loop_spec)
      show "?s + unat skip \<le> unat (start rng + skip)" using i0 by simp
      show "unat (start rng + skip) \<le> ?e" using i0 k2 se' by arith
      show "\<forall>j. ?s \<le> j \<and> j < unat (start rng + skip) - unat skip
              \<longrightarrow> below compare array (unat val) j" using i0 by auto
    qed
    then show ?thesis using False sk by (simp add: FindFirstForward_def)
  qed
qed

lemma FindLastForward_loop_step:
  assumes "unat (index - 1) < length array" and "unat val < length array"
  shows "FindLastForward_loop array val rng compare skip index =
          (if not_above compare array (unat val) (unat (index - 1))
           then if index \<ge> end' rng - skip
                then BinaryLast array val (Range_new index (end' rng)) compare
                else FindLastForward_loop array val rng compare skip (index + skip)
           else BinaryLast array val (Range_new (index - skip) index) compare)"
  by (subst FindLastForward_loop.simps) (simp add: compare_at_ok assms not_above_def)

lemma FindLastForward_loop_spec:
  assumes se: "start rng \<le> end' rng" and el: "unat (end' rng) \<le> length array"
    and vl: "unat val < length array"
    and dw: "downward (not_above compare array (unat val)) (unat (start rng)) (unat (end' rng))"
    and k1: "1 \<le> unat skip"
    and lo: "unat (start rng) + unat skip \<le> unat index" and hi: "unat index \<le> unat (end' rng)"
    and inv: "\<forall>j. unat (start rng) \<le> j \<and> j < unat index - unat skip
                \<longrightarrow> not_above compare array (unat val) j"
  shows "\<exists>k. FindLastForward_loop array val rng compare skip index = ret k \<and>
           splits_at (not_above compare array (unat val)) (unat (start rng)) (unat (end' rng)) (unat k)"
  using lo hi inv
proof (induction "unat (end' rng) - unat index" arbitrary: index rule: less_induct)
  case less
  let ?P = "not_above compare array (unat val)"
  let ?s = "unat (start rng)" and ?e = "unat (end' rng)" and ?i = "unat index" and ?k = "unat skip"
  have ipos: "0 < ?i" using less.prems(1) k1 by arith
  then have "index \<noteq> 0" by (simp add: unat_gt_0)
  then have i1: "unat (index - 1) = ?i - 1" by (simp add: unat_minus_one)
  have i1l: "unat (index - 1) < length array" using i1 ipos less.prems(2) el by arith
  have step: "FindLastForward_loop array val rng compare skip index =
          (if ?P (?i - 1)
           then if index \<ge> end' rng - skip
                then BinaryLast array val (Range_new index (end' rng)) compare
                else FindLastForward_loop array val rng compare skip (index + skip)
           else BinaryLast array val (Range_new (index - skip) index) compare)"
    using FindLastForward_loop_step[OF i1l vl] by (simp only: i1)
  have ke: "?k \<le> ?e" using less.prems(1,2) by arith
  have esk: "unat (end' rng - skip) = ?e - ?k" using ke by (rule unat_sub_le)
  show ?case
  proof (cases "?P (?i - 1)")
    case P: True
    have allP: "\<And>j. ?s \<le> j \<Longrightarrow> j < ?i \<Longrightarrow> ?P j"
    proof -
      fix j assume "?s \<le> j" "j < ?i"
      then show "?P j"
        using downwardD[OF dw, of j "?i - 1"] P less.prems(2) ipos by simp
    qed
    show ?thesis
    proof (cases "index \<ge> end' rng - skip")
      case True
      have "\<exists>k. BinaryLast array val (Range_new index (end' rng)) compare = ret k \<and>
              splits_at ?P (unat (start (Range_new index (end' rng))))
                 (unat (end' (Range_new index (end' rng)))) (unat k)"
      proof (rule BinaryLast_spec)
        show "start (Range_new index (end' rng)) \<le> end' (Range_new index (end' rng))"
          using less.prems(2) by (simp add: Range_new_def word_le_nat_alt)
        show "unat (end' (Range_new index (end' rng))) \<le> length array"
          using el by (simp add: Range_new_def)
        show "unat val < length array" by (rule vl)
        show "downward ?P (unat (start (Range_new index (end' rng))))
                (unat (end' (Range_new index (end' rng))))"
          using dw by (rule downward_subrange) (use less.prems(1) in \<open>simp_all add: Range_new_def\<close>)
      qed
      then obtain k where k: "BinaryLast array val (Range_new index (end' rng)) compare = ret k"
        "splits_at ?P ?i ?e (unat k)" by (auto simp: Range_new_def)
      have "splits_at ?P ?s ?e (unat k)"
        using k(2) by (rule splits_at_extend) (use less.prems(1) allP in auto)
      then show ?thesis using step P True k(1) by simp
    next
      case False
      then have lt: "?i < ?e - ?k" using esk by (simp add: word_le_nat_alt)
      then have "?i + ?k \<le> ?e" by arith
      then have isk: "unat (index + skip) = ?i + ?k" by (rule unat_add_le)
      have "\<exists>k. FindLastForward_loop array val rng compare skip (index + skip) = ret k \<and>
              splits_at ?P ?s ?e (unat k)"
      proof (rule less.hyps)
        show "?e - unat (index + skip) < ?e - ?i" using isk lt k1 by arith
        show "?s + ?k \<le> unat (index + skip)" using isk less.prems(1) by arith
        show "unat (index + skip) \<le> ?e" using isk lt by arith
        show "\<forall>j. ?s \<le> j \<and> j < unat (index + skip) - ?k \<longrightarrow> ?P j"
          using allP isk by simp
      qed
      then show ?thesis using step P False by simp
    qed
  next
    case N: False
    have ik: "unat (index - skip) = ?i - ?k"
      using less.prems(1) by (intro unat_sub_le) arith
    have "\<exists>k. BinaryLast array val (Range_new (index - skip) index) compare = ret k \<and>
            splits_at ?P (unat (start (Range_new (index - skip) index)))
               (unat (end' (Range_new (index - skip) index))) (unat k)"
    proof (rule BinaryLast_spec)
      show "start (Range_new (index - skip) index) \<le> end' (Range_new (index - skip) index)"
        using ik by (simp add: Range_new_def word_le_nat_alt)
      show "unat (end' (Range_new (index - skip) index)) \<le> length array"
        using el less.prems(2) by (simp add: Range_new_def)
      show "unat val < length array" by (rule vl)
      show "downward ?P (unat (start (Range_new (index - skip) index)))
              (unat (end' (Range_new (index - skip) index)))"
      proof (rule downward_subrange[OF dw])
        show "?s \<le> unat (start (Range_new (index - skip) index))"
          using less.prems(1) ik by (simp add: Range_new_def)
        show "unat (end' (Range_new (index - skip) index)) \<le> ?e"
          using less.prems(2) by (simp add: Range_new_def)
      qed
    qed
    then obtain k where k: "BinaryLast array val (Range_new (index - skip) index) compare = ret k"
      "splits_at ?P (?i - ?k) ?i (unat k)" by (auto simp: Range_new_def ik)
    have "splits_at ?P ?s ?e (unat k)"
      using k(2)
    proof (rule splits_at_extend)
      show "?s \<le> ?i - ?k" using less.prems(1) by arith
      show "?i \<le> ?e" by (rule less.prems(2))
      show "\<And>j. ?s \<le> j \<Longrightarrow> j < ?i - ?k \<Longrightarrow> ?P j" using less.prems(3) by simp
      show "\<And>j. ?i \<le> j \<Longrightarrow> j < ?e \<Longrightarrow> \<not> ?P j"
      proof
        fix j assume j: "?i \<le> j" "j < ?e" "?P j"
        have "?P (?i - 1)"
        proof (rule downwardD[OF dw])
          show "?s \<le> ?i - 1" using less.prems(1) k1 by arith
          show "?i - 1 \<le> j" using j(1) by arith
          show "j < ?e" by (rule j(2))
          show "?P j" by (rule j(3))
        qed
        with N show False by simp
      qed
    qed
    then show ?thesis using step N k(1) by simp
  qed
qed

lemma FindLastForward_spec:
  assumes se: "start rng \<le> end' rng" and el: "unat (end' rng) \<le> length array"
    and vl: "unat val < length array"
    and dw: "downward (not_above compare array (unat val)) (unat (start rng)) (unat (end' rng))"
    and u: "1 \<le> unique"
  shows "\<exists>k. FindLastForward array val rng compare unique = ret k \<and>
           splits_at (not_above compare array (unat val)) (unat (start rng)) (unat (end' rng)) (unat k)"
proof (cases "Range_length rng = 0")
  case True
  then have "start rng = end' rng" by (simp add: Range_length_def)
  then show ?thesis using True by (auto simp: FindLastForward_def splits_at_def)
next
  case False
  let ?s = "unat (start rng)" and ?e = "unat (end' rng)"
  have se': "?s \<le> ?e" using se by (simp add: word_le_nat_alt)
  then have len: "unat (Range_length rng) = ?e - ?s" by (rule Range_length_unat)
  have pos: "0 < ?e - ?s" using False len by (metis unat_gt_0)
  define skip where "skip = Max_sz (Range_length rng div unique) 1"
  have u0: "unique \<noteq> 0" using u by auto
  have sk: "skip_of rng unique = ret skip" using u0 by (simp add: skip_of_def skip_def)
  have d: "unat (Range_length rng div unique) = (?e - ?s) div unat unique"
    by (simp add: unat_div len)
  have k1: "1 \<le> unat skip"
    unfolding skip_def Max_sz_def by (simp add: word_less_nat_alt) 
  have k2: "unat skip \<le> ?e - ?s"
  proof -
    have "(?e - ?s) div unat unique \<le> ?e - ?s" by (rule div_le_dividend)
    moreover have "Suc 0 \<le> ?e - ?s" using pos by arith
    ultimately show ?thesis unfolding skip_def Max_sz_def using d by simp
  qed
  show ?thesis
    proof -
    have "?s + unat skip \<le> ?e" using k2 se' by arith
    then have i0: "unat (start rng + skip) = ?s + unat skip" by (rule unat_add_le)
    have "\<exists>k. FindLastForward_loop array val rng compare skip (start rng + skip) = ret k \<and>
           splits_at (not_above compare array (unat val)) ?s ?e (unat k)"
      using se el vl dw k1
    proof (rule FindLastForward_loop_spec)
      show "?s + unat skip \<le> unat (start rng + skip)" using i0 by simp
      show "unat (start rng + skip) \<le> ?e" using i0 k2 se' by arith
      show "\<forall>j. ?s \<le> j \<and> j < unat (start rng + skip) - unat skip
              \<longrightarrow> not_above compare array (unat val) j" using i0 by auto
    qed
    then show ?thesis using False sk by (simp add: FindLastForward_def)
  qed
qed

lemma FindFirstBackward_loop_step:
  assumes "index > start rng" and "unat (index - 1) < length array" and "unat val < length array"
  shows "FindFirstBackward_loop array val rng compare skip index =
          (if \<not> below compare array (unat val) (unat (index - 1))
           then if index < start rng + skip
                then BinaryFirst array val (Range_new (start rng) index) compare
                else FindFirstBackward_loop array val rng compare skip (index - skip)
           else BinaryFirst array val (Range_new index (index + skip)) compare)"
  by (subst FindFirstBackward_loop.simps) (simp add: compare_at_ok assms below_def not_less not_le)

lemma FindFirstBackward_loop_stop:
  assumes "\<not> index > start rng"
  shows "FindFirstBackward_loop array val rng compare skip index =
           BinaryFirst array val (Range_new index (index + skip)) compare"
  by (subst FindFirstBackward_loop.simps) (simp add: assms)

lemma FindFirstBackward_loop_spec:
  assumes se: "start rng \<le> end' rng" and el: "unat (end' rng) \<le> length array"
    and vl: "unat val < length array"
    and dw: "downward (below compare array (unat val)) (unat (start rng)) (unat (end' rng))"
    and k1: "1 \<le> unat skip"
    and lo: "unat (start rng) \<le> unat index" and hi: "unat index + unat skip \<le> unat (end' rng)"
    and inv: "\<forall>j. unat index + unat skip \<le> j \<and> j < unat (end' rng)
                \<longrightarrow> \<not> below compare array (unat val) j"
  shows "\<exists>k. FindFirstBackward_loop array val rng compare skip index = ret k \<and>
           splits_at (below compare array (unat val)) (unat (start rng)) (unat (end' rng)) (unat k)"
  using lo hi inv
proof (induction "unat index - unat (start rng)" arbitrary: index rule: less_induct)
  case less
  let ?P = "below compare array (unat val)"
  let ?s = "unat (start rng)" and ?e = "unat (end' rng)" and ?i = "unat index" and ?k = "unat skip"
  have isk: "unat (index + skip) = ?i + ?k" using less.prems(2) by (rule unat_add_le)
  have upper: "\<exists>k. BinaryFirst array val (Range_new index (index + skip)) compare = ret k \<and>
            splits_at ?P ?i (?i + ?k) (unat k)"
  proof -
    have "\<exists>k. BinaryFirst array val (Range_new index (index + skip)) compare = ret k \<and>
            splits_at ?P (unat (start (Range_new index (index + skip))))
               (unat (end' (Range_new index (index + skip)))) (unat k)"
    proof (rule BinaryFirst_spec)
      show "start (Range_new index (index + skip)) \<le> end' (Range_new index (index + skip))"
        using isk by (simp add: Range_new_def word_le_nat_alt)
      show "unat (end' (Range_new index (index + skip))) \<le> length array"
        using el less.prems(2) isk by (simp add: Range_new_def)
      show "unat val < length array" by (rule vl)
      show "downward ?P (unat (start (Range_new index (index + skip))))
              (unat (end' (Range_new index (index + skip))))"
        using dw by (rule downward_subrange)
           (use less.prems(1,2) isk in \<open>simp_all add: Range_new_def\<close>)
    qed
    then show ?thesis by (simp add: Range_new_def isk)
  qed
  show ?case
  proof (cases "index > start rng")
    case False
    then have eq: "?i = ?s" using less.prems(1) by (simp add: word_less_nat_alt)
    from upper obtain k where k: "BinaryFirst array val (Range_new index (index + skip)) compare = ret k"
      "splits_at ?P ?i (?i + ?k) (unat k)" by blast
    have "splits_at ?P ?s ?e (unat k)"
      using k(2) by (rule splits_at_extend) (use eq less.prems(2,3) in auto)
    then show ?thesis using FindFirstBackward_loop_stop[OF False, of array val compare skip] k(1) by simp
  next
    case True
    then have si: "?s < ?i" by (simp add: word_less_nat_alt)
    then have "index \<noteq> 0" by (metis not_less_zero unat_0)
    then have i1: "unat (index - 1) = ?i - 1" by (simp add: unat_minus_one)
    have i1l: "unat (index - 1) < length array" using i1 si less.prems(2) el by arith
    have step: "FindFirstBackward_loop array val rng compare skip index =
          (if \<not> ?P (?i - 1)
           then if index < start rng + skip
                then BinaryFirst array val (Range_new (start rng) index) compare
                else FindFirstBackward_loop array val rng compare skip (index - skip)
           else BinaryFirst array val (Range_new index (index + skip)) compare)"
      using FindFirstBackward_loop_step[OF True i1l vl] by (simp only: i1)
    have "?s + ?k \<le> ?e" using less.prems(1,2) by arith
    then have ssk: "unat (start rng + skip) = ?s + ?k" by (rule unat_add_le)
    show ?thesis
    proof (cases "?P (?i - 1)")
      case P: True
      from upper obtain k where k: "BinaryFirst array val (Range_new index (index + skip)) compare = ret k"
        "splits_at ?P ?i (?i + ?k) (unat k)" by blast
      have "splits_at ?P ?s ?e (unat k)"
        using k(2)
      proof (rule splits_at_extend)
        show "?s \<le> ?i" by (rule less.prems(1))
        show "?i + ?k \<le> ?e" by (rule less.prems(2))
        show "\<And>j. ?s \<le> j \<Longrightarrow> j < ?i \<Longrightarrow> ?P j"
        proof -
          fix j assume "?s \<le> j" "j < ?i"
          then show "?P j"
            using downwardD[OF dw, of j "?i - 1"] P less.prems(2) k1 by simp
        qed
        show "\<And>j. ?i + ?k \<le> j \<Longrightarrow> j < ?e \<Longrightarrow> \<not> ?P j" using less.prems(3) by simp
      qed
      then show ?thesis using step P k(1) by simp
    next
      case N: False
      have allN: "\<And>j. ?i \<le> j \<Longrightarrow> j < ?e \<Longrightarrow> \<not> ?P j"
      proof
        fix j assume j: "?i \<le> j" "j < ?e" "?P j"
        have "?P (?i - 1)"
        proof (rule downwardD[OF dw])
          show "?s \<le> ?i - 1" using si by arith
          show "?i - 1 \<le> j" using j(1) by arith
          show "j < ?e" by (rule j(2))
          show "?P j" by (rule j(3))
        qed
        with N show False by simp
      qed
      show ?thesis
      proof (cases "index < start rng + skip")
        case True
        have "\<exists>k. BinaryFirst array val (Range_new (start rng) index) compare = ret k \<and>
                splits_at ?P (unat (start (Range_new (start rng) index)))
                   (unat (end' (Range_new (start rng) index))) (unat k)"
        proof (rule BinaryFirst_spec)
          show "start (Range_new (start rng) index) \<le> end' (Range_new (start rng) index)"
            using less.prems(1) by (simp add: Range_new_def word_le_nat_alt)
          show "unat (end' (Range_new (start rng) index)) \<le> length array"
            using el less.prems(2) by (simp add: Range_new_def)
          show "unat val < length array" by (rule vl)
          show "downward ?P (unat (start (Range_new (start rng) index)))
                  (unat (end' (Range_new (start rng) index)))"
            using dw by (rule downward_subrange) (use less.prems(2) in \<open>simp_all add: Range_new_def\<close>)
        qed
        then obtain k where k: "BinaryFirst array val (Range_new (start rng) index) compare = ret k"
          "splits_at ?P ?s ?i (unat k)" by (auto simp: Range_new_def)
        have "splits_at ?P ?s ?e (unat k)"
          using k(2) by (rule splits_at_extend) (use less.prems(2) allN in auto)
        then show ?thesis using step N True k(1) by simp
      next
        case False
        then have ge: "?s + ?k \<le> ?i" using ssk by (simp add: word_less_nat_alt)
        have ik: "unat (index - skip) = ?i - ?k" using ge by (intro unat_sub_le) arith
        have "\<exists>k. FindFirstBackward_loop array val rng compare skip (index - skip) = ret k \<and>
                splits_at ?P ?s ?e (unat k)"
        proof (rule less.hyps)
          show "unat (index - skip) - ?s < ?i - ?s" using ik ge k1 by arith
          show "?s \<le> unat (index - skip)" using ik ge by arith
          show "unat (index - skip) + ?k \<le> ?e" using ik ge less.prems(2) by arith
          show "\<forall>j. unat (index - skip) + ?k \<le> j \<and> j < ?e \<longrightarrow> \<not> ?P j"
            using allN ik ge by simp
        qed
        then show ?thesis using step N False by simp
      qed
    qed
  qed
qed

lemma FindFirstBackward_spec:
  assumes se: "start rng \<le> end' rng" and el: "unat (end' rng) \<le> length array"
    and vl: "unat val < length array"
    and dw: "downward (below compare array (unat val)) (unat (start rng)) (unat (end' rng))"
    and u: "1 \<le> unique"
  shows "\<exists>k. FindFirstBackward array val rng compare unique = ret k \<and>
           splits_at (below compare array (unat val)) (unat (start rng)) (unat (end' rng)) (unat k)"
proof (cases "Range_length rng = 0")
  case True
  then have "start rng = end' rng" by (simp add: Range_length_def)
  then show ?thesis using True by (auto simp: FindFirstBackward_def splits_at_def)
next
  case False
  let ?s = "unat (start rng)" and ?e = "unat (end' rng)"
  have se': "?s \<le> ?e" using se by (simp add: word_le_nat_alt)
  then have len: "unat (Range_length rng) = ?e - ?s" by (rule Range_length_unat)
  have pos: "0 < ?e - ?s" using False len by (metis unat_gt_0)
  define skip where "skip = Max_sz (Range_length rng div unique) 1"
  have u0: "unique \<noteq> 0" using u by auto
  have sk: "skip_of rng unique = ret skip" using u0 by (simp add: skip_of_def skip_def)
  have d: "unat (Range_length rng div unique) = (?e - ?s) div unat unique"
    by (simp add: unat_div len)
  have k1: "1 \<le> unat skip"
    unfolding skip_def Max_sz_def by (simp add: word_less_nat_alt) 
  have k2: "unat skip \<le> ?e - ?s"
  proof -
    have "(?e - ?s) div unat unique \<le> ?e - ?s" by (rule div_le_dividend)
    moreover have "Suc 0 \<le> ?e - ?s" using pos by arith
    ultimately show ?thesis unfolding skip_def Max_sz_def using d by simp
  qed
  show ?thesis
    proof -
    have i0: "unat (end' rng - skip) = ?e - unat skip"
      using k2 by (intro unat_sub_le) arith
    have "\<exists>k. FindFirstBackward_loop array val rng compare skip (end' rng - skip) = ret k \<and>
           splits_at (below compare array (unat val)) ?s ?e (unat k)"
      using se el vl dw k1
    proof (rule FindFirstBackward_loop_spec)
      show "?s \<le> unat (end' rng - skip)" using i0 k2 se' by arith
      show "unat (end' rng - skip) + unat skip \<le> ?e" using i0 k2 se' by arith
      show "\<forall>j. unat (end' rng - skip) + unat skip \<le> j \<and> j < ?e
              \<longrightarrow> \<not> below compare array (unat val) j" using i0 k2 se' by auto
    qed
    then show ?thesis using False sk by (simp add: FindFirstBackward_def)
  qed
qed

lemma FindLastBackward_loop_step:
  assumes "index > start rng" and "unat (index - 1) < length array" and "unat val < length array"
  shows "FindLastBackward_loop array val rng compare skip index =
          (if \<not> not_above compare array (unat val) (unat (index - 1))
           then if index < start rng + skip
                then BinaryLast array val (Range_new (start rng) index) compare
                else FindLastBackward_loop array val rng compare skip (index - skip)
           else BinaryLast array val (Range_new index (index + skip)) compare)"
  by (subst FindLastBackward_loop.simps) (simp add: compare_at_ok assms not_above_def not_less not_le)

lemma FindLastBackward_loop_stop:
  assumes "\<not> index > start rng"
  shows "FindLastBackward_loop array val rng compare skip index =
           BinaryLast array val (Range_new index (index + skip)) compare"
  by (subst FindLastBackward_loop.simps) (simp add: assms)

lemma FindLastBackward_loop_spec:
  assumes se: "start rng \<le> end' rng" and el: "unat (end' rng) \<le> length array"
    and vl: "unat val < length array"
    and dw: "downward (not_above compare array (unat val)) (unat (start rng)) (unat (end' rng))"
    and k1: "1 \<le> unat skip"
    and lo: "unat (start rng) \<le> unat index" and hi: "unat index + unat skip \<le> unat (end' rng)"
    and inv: "\<forall>j. unat index + unat skip \<le> j \<and> j < unat (end' rng)
                \<longrightarrow> \<not> not_above compare array (unat val) j"
  shows "\<exists>k. FindLastBackward_loop array val rng compare skip index = ret k \<and>
           splits_at (not_above compare array (unat val)) (unat (start rng)) (unat (end' rng)) (unat k)"
  using lo hi inv
proof (induction "unat index - unat (start rng)" arbitrary: index rule: less_induct)
  case less
  let ?P = "not_above compare array (unat val)"
  let ?s = "unat (start rng)" and ?e = "unat (end' rng)" and ?i = "unat index" and ?k = "unat skip"
  have isk: "unat (index + skip) = ?i + ?k" using less.prems(2) by (rule unat_add_le)
  have upper: "\<exists>k. BinaryLast array val (Range_new index (index + skip)) compare = ret k \<and>
            splits_at ?P ?i (?i + ?k) (unat k)"
  proof -
    have "\<exists>k. BinaryLast array val (Range_new index (index + skip)) compare = ret k \<and>
            splits_at ?P (unat (start (Range_new index (index + skip))))
               (unat (end' (Range_new index (index + skip)))) (unat k)"
    proof (rule BinaryLast_spec)
      show "start (Range_new index (index + skip)) \<le> end' (Range_new index (index + skip))"
        using isk by (simp add: Range_new_def word_le_nat_alt)
      show "unat (end' (Range_new index (index + skip))) \<le> length array"
        using el less.prems(2) isk by (simp add: Range_new_def)
      show "unat val < length array" by (rule vl)
      show "downward ?P (unat (start (Range_new index (index + skip))))
              (unat (end' (Range_new index (index + skip))))"
        using dw by (rule downward_subrange)
           (use less.prems(1,2) isk in \<open>simp_all add: Range_new_def\<close>)
    qed
    then show ?thesis by (simp add: Range_new_def isk)
  qed
  show ?case
  proof (cases "index > start rng")
    case False
    then have eq: "?i = ?s" using less.prems(1) by (simp add: word_less_nat_alt)
    from upper obtain k where k: "BinaryLast array val (Range_new index (index + skip)) compare = ret k"
      "splits_at ?P ?i (?i + ?k) (unat k)" by blast
    have "splits_at ?P ?s ?e (unat k)"
      using k(2) by (rule splits_at_extend) (use eq less.prems(2,3) in auto)
    then show ?thesis using FindLastBackward_loop_stop[OF False, of array val compare skip] k(1) by simp
  next
    case True
    then have si: "?s < ?i" by (simp add: word_less_nat_alt)
    then have "index \<noteq> 0" by (metis not_less_zero unat_0)
    then have i1: "unat (index - 1) = ?i - 1" by (simp add: unat_minus_one)
    have i1l: "unat (index - 1) < length array" using i1 si less.prems(2) el by arith
    have step: "FindLastBackward_loop array val rng compare skip index =
          (if \<not> ?P (?i - 1)
           then if index < start rng + skip
                then BinaryLast array val (Range_new (start rng) index) compare
                else FindLastBackward_loop array val rng compare skip (index - skip)
           else BinaryLast array val (Range_new index (index + skip)) compare)"
      using FindLastBackward_loop_step[OF True i1l vl] by (simp only: i1)
    have "?s + ?k \<le> ?e" using less.prems(1,2) by arith
    then have ssk: "unat (start rng + skip) = ?s + ?k" by (rule unat_add_le)
    show ?thesis
    proof (cases "?P (?i - 1)")
      case P: True
      from upper obtain k where k: "BinaryLast array val (Range_new index (index + skip)) compare = ret k"
        "splits_at ?P ?i (?i + ?k) (unat k)" by blast
      have "splits_at ?P ?s ?e (unat k)"
        using k(2)
      proof (rule splits_at_extend)
        show "?s \<le> ?i" by (rule less.prems(1))
        show "?i + ?k \<le> ?e" by (rule less.prems(2))
        show "\<And>j. ?s \<le> j \<Longrightarrow> j < ?i \<Longrightarrow> ?P j"
        proof -
          fix j assume "?s \<le> j" "j < ?i"
          then show "?P j"
            using downwardD[OF dw, of j "?i - 1"] P less.prems(2) k1 by simp
        qed
        show "\<And>j. ?i + ?k \<le> j \<Longrightarrow> j < ?e \<Longrightarrow> \<not> ?P j" using less.prems(3) by simp
      qed
      then show ?thesis using step P k(1) by simp
    next
      case N: False
      have allN: "\<And>j. ?i \<le> j \<Longrightarrow> j < ?e \<Longrightarrow> \<not> ?P j"
      proof
        fix j assume j: "?i \<le> j" "j < ?e" "?P j"
        have "?P (?i - 1)"
        proof (rule downwardD[OF dw])
          show "?s \<le> ?i - 1" using si by arith
          show "?i - 1 \<le> j" using j(1) by arith
          show "j < ?e" by (rule j(2))
          show "?P j" by (rule j(3))
        qed
        with N show False by simp
      qed
      show ?thesis
      proof (cases "index < start rng + skip")
        case True
        have "\<exists>k. BinaryLast array val (Range_new (start rng) index) compare = ret k \<and>
                splits_at ?P (unat (start (Range_new (start rng) index)))
                   (unat (end' (Range_new (start rng) index))) (unat k)"
        proof (rule BinaryLast_spec)
          show "start (Range_new (start rng) index) \<le> end' (Range_new (start rng) index)"
            using less.prems(1) by (simp add: Range_new_def word_le_nat_alt)
          show "unat (end' (Range_new (start rng) index)) \<le> length array"
            using el less.prems(2) by (simp add: Range_new_def)
          show "unat val < length array" by (rule vl)
          show "downward ?P (unat (start (Range_new (start rng) index)))
                  (unat (end' (Range_new (start rng) index)))"
            using dw by (rule downward_subrange) (use less.prems(2) in \<open>simp_all add: Range_new_def\<close>)
        qed
        then obtain k where k: "BinaryLast array val (Range_new (start rng) index) compare = ret k"
          "splits_at ?P ?s ?i (unat k)" by (auto simp: Range_new_def)
        have "splits_at ?P ?s ?e (unat k)"
          using k(2) by (rule splits_at_extend) (use less.prems(2) allN in auto)
        then show ?thesis using step N True k(1) by simp
      next
        case False
        then have ge: "?s + ?k \<le> ?i" using ssk by (simp add: word_less_nat_alt)
        have ik: "unat (index - skip) = ?i - ?k" using ge by (intro unat_sub_le) arith
        have "\<exists>k. FindLastBackward_loop array val rng compare skip (index - skip) = ret k \<and>
                splits_at ?P ?s ?e (unat k)"
        proof (rule less.hyps)
          show "unat (index - skip) - ?s < ?i - ?s" using ik ge k1 by arith
          show "?s \<le> unat (index - skip)" using ik ge by arith
          show "unat (index - skip) + ?k \<le> ?e" using ik ge less.prems(2) by arith
          show "\<forall>j. unat (index - skip) + ?k \<le> j \<and> j < ?e \<longrightarrow> \<not> ?P j"
            using allN ik ge by simp
        qed
        then show ?thesis using step N False by simp
      qed
    qed
  qed
qed

lemma FindLastBackward_spec:
  assumes se: "start rng \<le> end' rng" and el: "unat (end' rng) \<le> length array"
    and vl: "unat val < length array"
    and dw: "downward (not_above compare array (unat val)) (unat (start rng)) (unat (end' rng))"
    and u: "1 \<le> unique"
  shows "\<exists>k. FindLastBackward array val rng compare unique = ret k \<and>
           splits_at (not_above compare array (unat val)) (unat (start rng)) (unat (end' rng)) (unat k)"
proof (cases "Range_length rng = 0")
  case True
  then have "start rng = end' rng" by (simp add: Range_length_def)
  then show ?thesis using True by (auto simp: FindLastBackward_def splits_at_def)
next
  case False
  let ?s = "unat (start rng)" and ?e = "unat (end' rng)"
  have se': "?s \<le> ?e" using se by (simp add: word_le_nat_alt)
  then have len: "unat (Range_length rng) = ?e - ?s" by (rule Range_length_unat)
  have pos: "0 < ?e - ?s" using False len by (metis unat_gt_0)
  define skip where "skip = Max_sz (Range_length rng div unique) 1"
  have u0: "unique \<noteq> 0" using u by auto
  have sk: "skip_of rng unique = ret skip" using u0 by (simp add: skip_of_def skip_def)
  have d: "unat (Range_length rng div unique) = (?e - ?s) div unat unique"
    by (simp add: unat_div len)
  have k1: "1 \<le> unat skip"
    unfolding skip_def Max_sz_def by (simp add: word_less_nat_alt) 
  have k2: "unat skip \<le> ?e - ?s"
  proof -
    have "(?e - ?s) div unat unique \<le> ?e - ?s" by (rule div_le_dividend)
    moreover have "Suc 0 \<le> ?e - ?s" using pos by arith
    ultimately show ?thesis unfolding skip_def Max_sz_def using d by simp
  qed
  show ?thesis
    proof -
    have i0: "unat (end' rng - skip) = ?e - unat skip"
      using k2 by (intro unat_sub_le) arith
    have "\<exists>k. FindLastBackward_loop array val rng compare skip (end' rng - skip) = ret k \<and>
           splits_at (not_above compare array (unat val)) ?s ?e (unat k)"
      using se el vl dw k1
    proof (rule FindLastBackward_loop_spec)
      show "?s \<le> unat (end' rng - skip)" using i0 k2 se' by arith
      show "unat (end' rng - skip) + unat skip \<le> ?e" using i0 k2 se' by arith
      show "\<forall>j. unat (end' rng - skip) + unat skip \<le> j \<and> j < ?e
              \<longrightarrow> \<not> not_above compare array (unat val) j" using i0 k2 se' by auto
    qed
    then show ?thesis using False sk by (simp add: FindLastBackward_def)
  qed
qed

section \<open>Sorted ranges and the tests of the searches\<close>

lemma total_order_refl: "total_order_semantics compare \<Longrightarrow> compare a a = 0"
  unfolding total_order_semantics_def by (metis less_irrefl not_less_iff_gr_or_eq)

lemma total_order_trans:
  "total_order_semantics compare \<Longrightarrow> compare a b \<le> 0 \<Longrightarrow> compare b c \<le> 0 \<Longrightarrow> compare a c \<le> 0"
  unfolding total_order_semantics_def by blast

lemma total_order_flip:
  "total_order_semantics compare \<Longrightarrow> compare a b < 0 \<longleftrightarrow> compare b a > 0"
  unfolding total_order_semantics_def by blast

lemma total_order_flip_le:
  "total_order_semantics compare \<Longrightarrow> compare a b \<le> 0 \<longleftrightarrow> compare b a \<ge> 0"
  using total_order_flip[of compare b a] by auto

lemma nth_slice: "i < e - s \<Longrightarrow> e \<le> length xs \<Longrightarrow> slice xs s e ! i = xs ! (s + i)"
  by (simp add: slice_def)

lemma sorted_under_nth:
  assumes t: "total_order_semantics compare"
    and so: "sorted_under compare (slice array s e)"
    and e: "e \<le> length array" and i: "s \<le> i" "i \<le> j" "j < e"
  shows "compare (array ! i) (array ! j) \<le> 0"
proof (cases "i = j")
  case True
  then show ?thesis using total_order_refl[OF t] by simp
next
  case False
  have l: "length (slice array s e) = e - s" using e by (rule length_slice)
  have "compare (slice array s e ! (i - s)) (slice array s e ! (j - s)) \<le> 0"
    using so False i l unfolding sorted_under_def sorted_wrt_iff_nth_less by simp
  moreover have "slice array s e ! (i - s) = array ! i"
    using nth_slice[of "i - s" e s array] i e by simp
  moreover have "slice array s e ! (j - s) = array ! j"
    using nth_slice[of "j - s" e s array] i e by simp
  ultimately show ?thesis by simp
qed

lemma downward_below:
  assumes t: "total_order_semantics compare"
    and so: "sorted_under compare (slice array s e)" and e: "e \<le> length array"
  shows "downward (below compare array v) s e"
  unfolding downward_def below_def
proof (intro allI impI)
  fix i j
  assume h: "s \<le> i \<and> i \<le> j \<and> j < e \<and> compare (array ! j) (array ! v) < 0"
  then have ij: "compare (array ! i) (array ! j) \<le> 0"
    using sorted_under_nth[OF t so e, of i j] by simp
  show "compare (array ! i) (array ! v) < 0"
  proof (rule ccontr)
    assume "\<not> compare (array ! i) (array ! v) < 0"
    then have "compare (array ! v) (array ! i) \<le> 0" using total_order_flip_le[OF t] by simp
    then have "compare (array ! v) (array ! j) \<le> 0" using ij by (rule total_order_trans[OF t])
    then have "compare (array ! j) (array ! v) \<ge> 0" using total_order_flip_le[OF t] by simp
    with h show False by simp
  qed
qed

lemma downward_not_above:
  assumes t: "total_order_semantics compare"
    and so: "sorted_under compare (slice array s e)" and e: "e \<le> length array"
  shows "downward (not_above compare array v) s e"
  unfolding downward_def not_above_def
proof (intro allI impI)
  fix i j
  assume h: "s \<le> i \<and> i \<le> j \<and> j < e \<and> 0 \<le> compare (array ! v) (array ! j)"
  then have ij: "compare (array ! i) (array ! j) \<le> 0"
    using sorted_under_nth[OF t so e, of i j] by simp
  from h have "compare (array ! j) (array ! v) \<le> 0" using total_order_flip_le[OF t] by simp
  with ij have "compare (array ! i) (array ! v) \<le> 0" by (rule total_order_trans[OF t])
  then show "0 \<le> compare (array ! v) (array ! i)" using total_order_flip_le[OF t] by simp
qed

text \<open>
  Claim C5. On a range of the array that is sorted under a comparator with total-order
  semantics, for every search value (a position of the array, as at every call of the
  source) and every estimate \<open>unique \<ge> 1\<close>, the four galloping searches return, and
  \<^verbatim>\<open>FindFirstForward\<close> and \<^verbatim>\<open>FindFirstBackward\<close> return the index that \<^verbatim>\<open>BinaryFirst\<close>
  returns, \<^verbatim>\<open>FindLastForward\<close> and \<^verbatim>\<open>FindLastBackward\<close> the index that \<^verbatim>\<open>BinaryLast\<close>
  returns.
\<close>

theorem galloping_searches_agree_with_binary:
  assumes t: "total_order_semantics compare"
    and se: "start rng \<le> end' rng" and el: "unat (end' rng) \<le> length array"
    and so: "sorted_under compare (slice array (unat (start rng)) (unat (end' rng)))"
    and vl: "unat val < length array"
    and u: "1 \<le> unique"
  shows "\<exists>first last.
           BinaryFirst array val rng compare = ret first \<and>
           FindFirstForward array val rng compare unique = ret first \<and>
           FindFirstBackward array val rng compare unique = ret first \<and>
           BinaryLast array val rng compare = ret last \<and>
           FindLastForward array val rng compare unique = ret last \<and>
           FindLastBackward array val rng compare unique = ret last"
proof -
  let ?s = "unat (start rng)" and ?e = "unat (end' rng)"
  have d1: "downward (below compare array (unat val)) ?s ?e"
    using t so el by (rule downward_below)
  have d2: "downward (not_above compare array (unat val)) ?s ?e"
    using t so el by (rule downward_not_above)
  obtain b where b: "BinaryFirst array val rng compare = ret b"
    "splits_at (below compare array (unat val)) ?s ?e (unat b)"
    using BinaryFirst_spec[OF se el vl d1] by blast
  obtain f where f: "FindFirstForward array val rng compare unique = ret f"
    "splits_at (below compare array (unat val)) ?s ?e (unat f)"
    using FindFirstForward_spec[OF se el vl d1 u] by blast
  obtain g where g: "FindFirstBackward array val rng compare unique = ret g"
    "splits_at (below compare array (unat val)) ?s ?e (unat g)"
    using FindFirstBackward_spec[OF se el vl d1 u] by blast
  obtain b' where b': "BinaryLast array val rng compare = ret b'"
    "splits_at (not_above compare array (unat val)) ?s ?e (unat b')"
    using BinaryLast_spec[OF se el vl d2] by blast
  obtain f' where f': "FindLastForward array val rng compare unique = ret f'"
    "splits_at (not_above compare array (unat val)) ?s ?e (unat f')"
    using FindLastForward_spec[OF se el vl d2 u] by blast
  obtain g' where g': "FindLastBackward array val rng compare unique = ret g'"
    "splits_at (not_above compare array (unat val)) ?s ?e (unat g')"
    using FindLastBackward_spec[OF se el vl d2 u] by blast
  have "unat f = unat b" using f(2) b(2) by (rule splits_at_unique)
  then have 1: "f = b" by (simp add: word_unat_eq_iff)
  have "unat g = unat b" using g(2) b(2) by (rule splits_at_unique)
  then have 2: "g = b" by (simp add: word_unat_eq_iff)
  have "unat f' = unat b'" using f'(2) b'(2) by (rule splits_at_unique)
  then have 3: "f' = b'" by (simp add: word_unat_eq_iff)
  have "unat g' = unat b'" using g'(2) b'(2) by (rule splits_at_unique)
  then have 4: "g' = b'" by (simp add: word_unat_eq_iff)
  show ?thesis using b(1) f(1) g(1) b'(1) f'(1) g'(1) 1 2 3 4 by simp
qed

theorem galloping_searches_agree_with_binary_witness:
  "\<exists>first last.
     BinaryFirst [1, 2, 2, 2, 3, 5 :: nat] 2 (Range_new 0 6) (\<lambda>a b. int a - int b) = ret first \<and>
     FindFirstForward [1, 2, 2, 2, 3, 5] 2 (Range_new 0 6) (\<lambda>a b. int a - int b) 2 = ret first \<and>
     FindFirstBackward [1, 2, 2, 2, 3, 5] 2 (Range_new 0 6) (\<lambda>a b. int a - int b) 2 = ret first \<and>
     BinaryLast [1, 2, 2, 2, 3, 5] 2 (Range_new 0 6) (\<lambda>a b. int a - int b) = ret last \<and>
     FindLastForward [1, 2, 2, 2, 3, 5] 2 (Range_new 0 6) (\<lambda>a b. int a - int b) 2 = ret last \<and>
     FindLastBackward [1, 2, 2, 2, 3, 5] 2 (Range_new 0 6) (\<lambda>a b. int a - int b) 2 = ret last"
proof -
  have t: "total_order_semantics (\<lambda>a b :: nat. int a - int b)"
    by (auto simp: total_order_semantics_def)
  have so: "sorted_under (\<lambda>a b. int a - int b)
              (slice [1, 2, 2, 2, 3, 5 :: nat] (unat (start (Range_new 0 6))) (unat (end' (Range_new 0 6))))"
    by (simp add: sorted_under_def slice_def Range_new_def)
  show ?thesis
    by (rule galloping_searches_agree_with_binary [OF t _ _ so])
       (simp_all add: Range_new_def)
qed

section \<open>The level iterator\<close>

lemma smear_step:
  fixes x y :: size_t
  assumes "\<And>i. bit y i \<longleftrightarrow> (\<exists>j<m. bit x (i + j))"
  shows "bit (y OR drop_bit m y) i \<longleftrightarrow> (\<exists>j<2 * m. bit x (i + j))"
proof -
  have "bit (y OR drop_bit m y) i \<longleftrightarrow> bit y i \<or> bit y (m + i)"
    by (simp add: bit_or_iff bit_drop_bit_eq)
  also have "\<dots> \<longleftrightarrow> (\<exists>j<m. bit x (i + j)) \<or> (\<exists>j<m. bit x (m + i + j))"
    by (simp only: assms)
  also have "\<dots> \<longleftrightarrow> (\<exists>j<2 * m. bit x (i + j))"
  proof
    assume "(\<exists>j<m. bit x (i + j)) \<or> (\<exists>j<m. bit x (m + i + j))"
    then show "\<exists>j<2 * m. bit x (i + j)"
    proof
      assume "\<exists>j<m. bit x (i + j)"
      then obtain j where "j < m" "bit x (i + j)" by blast
      then have "j < 2 * m \<and> bit x (i + j)" by simp
      then show ?thesis by blast
    next
      assume "\<exists>j<m. bit x (m + i + j)"
      then obtain j where "j < m" "bit x (m + i + j)" by blast
      then have "m + j < 2 * m \<and> bit x (i + (m + j))" by (simp add: ac_simps)
      then show ?thesis by blast
    qed
  next
    assume "\<exists>j<2 * m. bit x (i + j)"
    then obtain j where j: "j < 2 * m" "bit x (i + j)" by blast
    show "(\<exists>j<m. bit x (i + j)) \<or> (\<exists>j<m. bit x (m + i + j))"
    proof (cases "j < m")
      case True
      with j show ?thesis by blast
    next
      case False
      then have "j - m < m \<and> bit x (m + i + (j - m))" using j by (simp add: ac_simps)
      then show ?thesis by blast
    qed
  qed
  finally show ?thesis .
qed

lemma smear_all:
  fixes x :: size_t
  defines "x1 \<equiv> x OR drop_bit 1 x"
  defines "x2 \<equiv> x1 OR drop_bit 2 x1"
  defines "x3 \<equiv> x2 OR drop_bit 4 x2"
  defines "x4 \<equiv> x3 OR drop_bit 8 x3"
  defines "x5 \<equiv> x4 OR drop_bit 16 x4"
  defines "x6 \<equiv> x5 OR drop_bit 32 x5"
  shows "bit x6 i \<longleftrightarrow> (\<exists>j<64. bit x (i + j))"
proof -
  have 0: "\<And>i. bit x i \<longleftrightarrow> (\<exists>j<1. bit x (i + j))" by simp
  have 1: "\<And>i. bit x1 i \<longleftrightarrow> (\<exists>j<2. bit x (i + j))"
    unfolding x1_def using smear_step[of x 1 x, OF 0] by simp
  have 2: "\<And>i. bit x2 i \<longleftrightarrow> (\<exists>j<4. bit x (i + j))"
    unfolding x2_def using smear_step[of x1 2 x, OF 1] by simp
  have 3: "\<And>i. bit x3 i \<longleftrightarrow> (\<exists>j<8. bit x (i + j))"
    unfolding x3_def using smear_step[of x2 4 x, OF 2] by simp
  have 4: "\<And>i. bit x4 i \<longleftrightarrow> (\<exists>j<16. bit x (i + j))"
    unfolding x4_def using smear_step[of x3 8 x, OF 3] by simp
  have 5: "\<And>i. bit x5 i \<longleftrightarrow> (\<exists>j<32. bit x (i + j))"
    unfolding x5_def using smear_step[of x4 16 x, OF 4] by simp
  show ?thesis
    unfolding x6_def using smear_step[of x5 32 x, OF 5] by simp
qed

lemma FloorPowerOfTwo_spec:
  fixes x :: size_t
  assumes "x \<noteq> 0"
  shows "\<exists>p<64. FloorPowerOfTwo x = 2 ^ p \<and> 2 ^ p \<le> unat x \<and> unat x < 2 ^ (p + 1)"
proof -
  have "1 \<le> unat x" using assms by (simp add: unat_gt_0 Suc_leI)
  then obtain p where p: "2 ^ p \<le> unat x" "unat x < 2 ^ (p + 1)"
    using ex_power_ivl1[of 2 "unat x"] by auto
  have "unat x < 2 ^ 64" using unsigned_less[of x] by simp
  with p(1) have "(2::nat) ^ p < 2 ^ 64" by linarith
  then have p64: "p < 64" by (rule power_less_imp_less_exp[rotated]) simp
  have hi: "\<not> bit x j" if "p < j" for j
  proof -
    have "(2::nat) ^ (p + 1) \<le> 2 ^ j" using that by (intro power_increasing) simp_all
    then have "unat x < 2 ^ j" using p(2) by linarith
    then have "unat x div 2 ^ j = 0" by simp
    then have "\<not> bit (unat x) j" by (simp add: bit_iff_odd)
    then show ?thesis by (simp add: bit_unsigned_iff)
  qed
  have top: "bit x p"
  proof -
    have "unat x div 2 ^ p = 1" by (rule div_nat_eqI) (use p in simp_all)
    then have "bit (unat x) p" by (simp add: bit_iff_odd)
    then show ?thesis by (simp add: bit_unsigned_iff)
  qed
  define r where "r = (let x1 = x OR drop_bit 1 x; x2 = x1 OR drop_bit 2 x1;
      x3 = x2 OR drop_bit 4 x2; x4 = x3 OR drop_bit 8 x3; x5 = x4 OR drop_bit 16 x4
      in x5 OR drop_bit 32 x5)"
  have rb: "bit r i \<longleftrightarrow> (\<exists>j<64. bit x (i + j))" for i
    unfolding r_def Let_def by (rule smear_all)
  have "r = mask (p + 1)"
  proof (rule bit_eqI)
    fix i
    assume "possible_bit TYPE(size_t) i"
    then have i64: "i < 64" by (simp add: possible_bit_def)
    show "bit r i \<longleftrightarrow> bit (mask (p + 1) :: size_t) i"
    proof (cases "i \<le> p")
      case True
      then have "p - i < 64 \<and> bit x (i + (p - i))" using top p64 by simp
      then have "bit r i" unfolding rb by blast
      then show ?thesis using True i64 by (simp add: bit_mask_iff)
    next
      case False
      then have "\<not> bit r i" unfolding rb using hi by simp
      then show ?thesis using False by (simp add: bit_mask_iff)
    qed
  qed
  moreover have "drop_bit 1 (mask (p + 1) :: size_t) = mask p"
    by (rule bit_eqI) (use p64 in \<open>auto simp: bit_drop_bit_eq bit_mask_iff possible_bit_def\<close>)
  moreover have "(mask (p + 1) :: size_t) - mask p = 2 ^ p"
    by (simp add: mask_eq_exp_minus_1)
  ultimately have "r - drop_bit 1 r = 2 ^ p"
    by (simp only:)
  moreover have "FloorPowerOfTwo x = r - drop_bit 1 r"
    unfolding FloorPowerOfTwo_def r_def Let_def by (rule refl)
  ultimately show ?thesis using p p64 by auto
qed

lemma unat_add_lt:
  fixes a b :: size_t
  assumes "unat a + unat b < 2 ^ 64"
  shows "unat (a + b) = unat a + unat b"
  using assms unat_add_lem[of a b] by simp

lemma WikiIterator_new_inv:
  assumes "4 \<le> N"
  shows "\<exists>it a. WikiIterator_new N 4 = ret it \<and> size' it = N \<and> level_inv it a \<and>
           unat (denominator it) = 2 ^ a \<and> unat N < 8 * 2 ^ a"
proof -
  have N4: "4 \<le> unat N" using assms by (simp add: word_le_nat_alt)
  then have "N \<noteq> 0" by auto
  then obtain p where p: "p < 64" "FloorPowerOfTwo N = 2 ^ p" "2 ^ p \<le> unat N" "unat N < 2 ^ (p + 1)"
    using FloorPowerOfTwo_spec by blast
  have "(2::nat) ^ 2 < 2 ^ (p + 1)" using N4 p(4) by simp
  then have "2 < p + 1" by (rule power_less_imp_less_exp[rotated]) simp
  then have p2: "2 \<le> p" by simp
  define a where "a = p - 2"
  have pa: "p = a + 2" using p2 by (simp add: a_def)
  have up: "unat (2 ^ p :: size_t) = 2 ^ p"
  proof -
    have "(2::nat) ^ p < 2 ^ 64" using p(1) by (intro power_strict_increasing) simp_all
    moreover have "(2 ^ p :: size_t) = of_nat (2 ^ p)" by simp
    ultimately show ?thesis by (simp only: unat_of_nat) simp
  qed
  have d: "unat (FloorPowerOfTwo N div 4) = 2 ^ a"
    by (simp add: unat_div p(2) up) (simp add: pa)
  have d0: "FloorPowerOfTwo N div 4 \<noteq> 0" using d by (metis power_not_zero unat_0 zero_neq_numeral)
  define it where "it = WikiIterator_begin
               \<lparr>size' = N, power_of_two = FloorPowerOfTwo N, numerator = 0, decimal = 0,
                denominator = FloorPowerOfTwo N div 4,
                decimal_step = N div (FloorPowerOfTwo N div 4),
                numerator_step = N mod (FloorPowerOfTwo N div 4)\<rparr>"
  have new: "WikiIterator_new N 4 = ret it"
    using d0 by (simp add: WikiIterator_new_def Let_def it_def)
  have f: "size' it = N" "unat (denominator it) = 2 ^ a"
    "unat (decimal_step it) = unat N div 2 ^ a" "unat (numerator_step it) = unat N mod 2 ^ a"
    using d by (simp_all add: it_def WikiIterator_begin_def unat_div unat_mod)
  have "2 * (2::nat) ^ a \<le> unat N" using p(3) by (simp add: pa)
  moreover have "unat N div 2 ^ a * 2 ^ a + unat N mod 2 ^ a = unat N"
    by (rule div_mult_mod_eq)
  ultimately have "level_inv it a"
    unfolding level_inv_def f by simp
  moreover have "unat N < 8 * 2 ^ a" using p(4) by (simp add: pa)
  ultimately show ?thesis using new f by blast
qed

lemma level_inv_step_total:
  assumes "level_inv me a"
  shows "unat (decimal_step me) * 2 ^ a \<le> unat (size' me)"
proof -
  let ?D = "unat (denominator me)"
  have "(unat (decimal_step me) * 2 ^ a) * ?D \<le>
          (unat (decimal_step me) * ?D + unat (numerator_step me)) * 2 ^ a"
    by (simp add: algebra_simps)
  also have "\<dots> = unat (size' me) * ?D" using assms by (simp add: level_inv_def)
  finally show ?thesis using assms by (simp add: level_inv_def)
qed

lemma nat_level_step:
  fixes N D ds ns a :: nat
  assumes D: "0 < D" and N: "0 < N" and ns: "ns < D"
    and T: "(ds * D + ns) * 2 ^ a = N * D" and a: "1 \<le> a"
  defines "ds' \<equiv> (if D \<le> 2 * ns then 2 * ds + 1 else 2 * ds)"
    and "ns' \<equiv> (if D \<le> 2 * ns then 2 * ns - D else 2 * ns)"
  shows "ns' < D" and "(ds' * D + ns') * 2 ^ (a - 1) = N * D" and "ds' \<le> N"
    and "ds' < N \<longleftrightarrow> 2 \<le> a" and "2 * ds \<le> N"
proof -
  show n: "ns' < D" using ns by (auto simp: ns'_def)
  have e: "ds' * D + ns' = 2 * (ds * D + ns)"
    by (auto simp: ds'_def ns'_def algebra_simps)
  have pa: "(2::nat) ^ a = 2 * 2 ^ (a - 1)" using a by (cases a) simp_all
  show t: "(ds' * D + ns') * 2 ^ (a - 1) = N * D"
    unfolding e using T pa by (simp add: algebra_simps)
  have "ds' * D \<le> (ds' * D + ns') * 2 ^ (a - 1)"
  proof -
    have "ds' * D \<le> ds' * D + ns'" by simp
    also have "\<dots> = (ds' * D + ns') * 1" by simp
    also have "\<dots> \<le> (ds' * D + ns') * 2 ^ (a - 1)" by (intro mult_le_mono2) simp
    finally show ?thesis .
  qed
  then have "ds' * D \<le> N * D" using t by simp
  then show le: "ds' \<le> N" using D by simp
  show "ds' < N \<longleftrightarrow> 2 \<le> a"
  proof (cases "2 \<le> a")
    case True
    then obtain b where "a = b + 2" using le_Suc_ex by (metis add.commute)
    then have "(2::nat) ^ (a - 1) = 2 * 2 ^ b" by simp
    then have "(2::nat) \<le> 2 ^ (a - 1)" by simp
    then have "(ds' * D) * 2 \<le> (ds' * D + ns') * 2 ^ (a - 1)"
      by (intro mult_le_mono) simp_all
    then have "(2 * ds') * D \<le> N * D" using t by (simp add: algebra_simps)
    then have "2 * ds' \<le> N" using D by simp
    then have "ds' < N" using N by arith
    with True show ?thesis by simp
  next
    case False
    with a have "a = 1" by arith
    then have "ds' * D + ns' = N * D" using t by simp
    then have "N * D < (ds' + 1) * D" using n by (simp add: algebra_simps)
    then have "N < ds' + 1" using mult_less_cancel2[of N D "ds' + 1"] by blast
    with le have "ds' = N" by arith
    with False show ?thesis by simp
  qed
  show "2 * ds \<le> N" using le by (auto simp: ds'_def split: if_splits)
qed

lemma nat_iter_step:
  fixes N D ds ns m j num dec :: nat
  assumes D: "0 < D" and N: "0 < N" and ns: "ns < D"
    and T: "(ds * D + ns) * m = N * D" and j: "j < m" and num: "num < D"
    and pos: "dec * D + num = j * (ds * D + ns)"
  defines "dec' \<equiv> (if D \<le> num + ns then dec + ds + 1 else dec + ds)"
    and "num' \<equiv> (if D \<le> num + ns then num + ns - D else num + ns)"
  shows "num' < D" and "dec' * D + num' = (j + 1) * (ds * D + ns)" and "dec' \<le> N"
    and "dec < N" and "dec + ds \<le> dec'"
proof -
  define TT where "TT = ds * D + ns"
  have T': "m * TT = N * D" using T by (simp only: TT_def mult.commute)
  have pos': "dec * D + num = j * TT" using pos by (simp only: TT_def)
  show "num' < D" using ns num by (auto simp: num'_def)
  have "dec' * D + num' = (dec * D + num) + TT"
    by (auto simp: dec'_def num'_def TT_def algebra_simps)
  then have e: "dec' * D + num' = (j + 1) * TT"
    using pos' by (simp add: algebra_simps)
  then show "dec' * D + num' = (j + 1) * (ds * D + ns)" by (simp only: TT_def)
  have "(j + 1) * TT \<le> m * TT"
    using j by (intro mult_le_mono1) simp
  then have "dec' * D \<le> N * D" using e T' by linarith
  then show "dec' \<le> N" using D by simp
  have "0 < N * D" using N D by simp
  then have "0 < m * TT" using T' by simp
  then have Tpos: "0 < TT" by simp
  have "j * TT < m * TT" using j Tpos by simp
  then have "dec * D < N * D" using pos' T' by linarith
  then show "dec < N" by simp
  show "dec + ds \<le> dec'" by (simp add: dec'_def)
qed

lemma nat_iter_end:
  fixes N D ds ns m num dec :: nat
  assumes D: "0 < D" and T: "(ds * D + ns) * m = N * D" and num: "num < D"
    and pos: "dec * D + num = m * (ds * D + ns)"
  shows "dec = N"
proof -
  have e: "dec * D + num = N * D" using pos T by (simp add: mult.commute)
  then have "dec * D \<le> N * D" by linarith
  then have 1: "dec \<le> N" using D by simp
  have "N * D < (dec + 1) * D" using e num by (simp add: algebra_simps)
  then have "N < dec + 1" using mult_less_cancel2[of N D "dec + 1"] by blast
  with 1 show ?thesis by arith
qed

lemma level_inv_pos: "level_inv me a \<Longrightarrow> 0 < unat (size' me)"
  by (auto simp: level_inv_def)

lemma WikiIterator_nextLevel_inv:
  assumes inv: "level_inv me a" and a1: "1 \<le> a"
  shows "\<exists>me'. WikiIterator_nextLevel me = (2 \<le> a, me') \<and> level_inv me' (a - 1) \<and>
           size' me' = size' me \<and> denominator me' = denominator me"
proof -
  let ?N = "unat (size' me)" and ?D = "unat (denominator me)"
  let ?ds = "unat (decimal_step me)" and ?ns = "unat (numerator_step me)"
  have D: "0 < ?D" and DN: "2 * ?D \<le> ?N" and ns: "?ns < ?D"
    and T: "(?ds * ?D + ?ns) * 2 ^ a = ?N * ?D"
    using inv by (simp_all add: level_inv_def)
  have N: "0 < ?N" using inv by (rule level_inv_pos)
  define ds' where "ds' = (if ?D \<le> 2 * ?ns then 2 * ?ds + 1 else 2 * ?ds)"
  define ns' where "ns' = (if ?D \<le> 2 * ?ns then 2 * ?ns - ?D else 2 * ?ns)"
  note st = nat_level_step[OF D N ns T a1, folded ds'_def ns'_def]
  have u1: "unat (decimal_step me + decimal_step me) = 2 * ?ds"
    using unat_add_le[of "decimal_step me" "decimal_step me" "size' me"] st(5) by simp
  have u2: "unat (numerator_step me + numerator_step me) = 2 * ?ns"
    using unat_add_le[of "numerator_step me" "numerator_step me" "size' me"] ns DN by simp
  have c: "numerator_step me + numerator_step me \<ge> denominator me \<longleftrightarrow> ?D \<le> 2 * ?ns"
    by (simp only: word_le_nat_alt u2)
  show ?thesis
  proof (cases "?D \<le> 2 * ?ns")
    case True
    then have v: "ds' = 2 * ?ds + 1" "ns' = 2 * ?ns - ?D" by (simp_all add: ds'_def ns'_def)
    define me' where "me' = me\<lparr>decimal_step := decimal_step me + decimal_step me + 1,
        numerator_step := numerator_step me + numerator_step me - denominator me\<rparr>"
    have "unat (denominator me) \<le> unat (numerator_step me + numerator_step me)"
      using True by (simp only: u2)
    then have "unat (numerator_step me + numerator_step me - denominator me)
                = unat (numerator_step me + numerator_step me) - ?D"
      by (rule unat_sub_le)
    moreover have "numerator_step me' = numerator_step me + numerator_step me - denominator me"
      unfolding me'_def by simp
    ultimately have u3: "unat (numerator_step me') = ns'"
      by (simp only: v u2)
    have "unat (decimal_step me + decimal_step me) + unat (1 :: size_t) \<le> unat (size' me)"
      using st(3) v u1 by simp
    then have "unat (decimal_step me + decimal_step me + 1)
                 = unat (decimal_step me + decimal_step me) + unat (1 :: size_t)"
      by (rule unat_add_le)
    moreover have "decimal_step me' = decimal_step me + decimal_step me + 1"
      unfolding me'_def by simp
    ultimately have u4: "unat (decimal_step me') = ds'" by (simp only: v u1 unat_1)
    have f: "size' me' = size' me" "denominator me' = denominator me" by (simp_all add: me'_def)
    have "WikiIterator_nextLevel me = (decimal_step me' < size' me', me')"
      using True c by (simp add: WikiIterator_nextLevel_def Let_def me'_def)
    moreover have "decimal_step me' < size' me' \<longleftrightarrow> 2 \<le> a"
      using st(4) by (simp add: word_less_nat_alt u4 f)
    moreover have "level_inv me' (a - 1)"
      unfolding level_inv_def f u3 u4 using D DN st(1,2) by simp
    ultimately show ?thesis using f by auto
  next
    case False
    then have v: "ds' = 2 * ?ds" "ns' = 2 * ?ns" by (simp_all add: ds'_def ns'_def)
    define me' where "me' = me\<lparr>decimal_step := decimal_step me + decimal_step me,
        numerator_step := numerator_step me + numerator_step me\<rparr>"
    have "numerator_step me' = numerator_step me + numerator_step me"
      unfolding me'_def by simp
    then have u3: "unat (numerator_step me') = ns'" by (simp only: v u2)
    have "decimal_step me' = decimal_step me + decimal_step me"
      unfolding me'_def by simp
    then have u4: "unat (decimal_step me') = ds'" by (simp only: v u1)
    have f: "size' me' = size' me" "denominator me' = denominator me" by (simp_all add: me'_def)
    have "WikiIterator_nextLevel me = (decimal_step me' < size' me', me')"
      using False c by (simp add: WikiIterator_nextLevel_def Let_def me'_def)
    moreover have "decimal_step me' < size' me' \<longleftrightarrow> 2 \<le> a"
      using st(4) by (simp add: word_less_nat_alt u4 f)
    moreover have "level_inv me' (a - 1)"
      unfolding level_inv_def f u3 u4 using D DN st(1,2) by simp
    ultimately show ?thesis using f by auto
  qed
qed

lemma WikiIterator_nextLevel_last:
  assumes inv: "level_inv me 0" and small: "unat (size' me) < 8"
  shows "\<not> fst (WikiIterator_nextLevel me)"
proof -
  let ?N = "unat (size' me)" and ?D = "unat (denominator me)"
  let ?ds = "unat (decimal_step me)" and ?ns = "unat (numerator_step me)"
  have D: "0 < ?D" and ns: "?ns < ?D" and T: "?ds * ?D + ?ns = ?N * ?D"
    using inv by (simp_all add: level_inv_def)
  have dsN: "?ds = ?N"
    by (rule nat_iter_end[where D="?D" and ds="?ds" and ns="?ns" and m=1 and num="?ns"])
       (use D ns T in simp_all)
  with T have ns0: "?ns = 0" by simp
  have "?ds + ?ds < 2 ^ 64" using dsN small by simp
  then have u1: "unat (decimal_step me + decimal_step me) = 2 * ?ds"
    using unat_add_lt[of "decimal_step me" "decimal_step me"] by simp
  have z: "numerator_step me = 0" using ns0 by (simp add: unat_eq_0)
  have d0: "denominator me \<noteq> 0" using D by auto
  have c: "\<not> denominator me \<le> 0" using d0 by simp
  have "\<not> decimal_step me + decimal_step me < size' me"
    using u1 dsN by (simp add: word_less_nat_alt)
  then show ?thesis
    using c by (simp add: WikiIterator_nextLevel_def Let_def z)
qed

lemma after_levels_inv:
  assumes inv: "level_inv it0 a0" and small: "unat (size' it0) < 8 * 2 ^ a0"
    and k: "after_levels k it0 = Some me"
  shows "k \<le> a0 \<and> level_inv me (a0 - k) \<and> (1 \<le> k \<longrightarrow> 1 \<le> a0 - k) \<and> size' me = size' it0"
  using k
proof (induction k arbitrary: me)
  case 0
  then show ?case using inv by simp
next
  case (Suc k)
  from Suc.prems obtain mk where mk: "after_levels k it0 = Some mk"
    and nl: "WikiIterator_nextLevel mk = (True, me)"
    by (auto split: option.splits prod.splits if_splits)
  from Suc.IH[OF mk] have ih: "k \<le> a0" "level_inv mk (a0 - k)" "1 \<le> k \<longrightarrow> 1 \<le> a0 - k"
    "size' mk = size' it0" by simp_all
  show ?case
  proof (cases "1 \<le> a0 - k")
    case True
    from WikiIterator_nextLevel_inv[OF ih(2) True] nl
    have *: "2 \<le> a0 - k" "level_inv me (a0 - k - 1)" "size' me = size' mk" by auto
    have "Suc k \<le> a0" "1 \<le> a0 - Suc k" "a0 - k - 1 = a0 - Suc k" using *(1) by arith+
    then show ?thesis using * ih(4) by simp
  next
    case False
    then have "a0 - k = 0" by simp
    with ih(1,3) have k0: "k = 0" "a0 = 0" by auto
    then have "mk = it0" using mk by simp
    then have "\<not> fst (WikiIterator_nextLevel mk)"
      using WikiIterator_nextLevel_last[of it0] inv small k0 by simp
    with nl show ?thesis by simp
  qed
qed

lemma emitted_ranges_inv:
  assumes "iter_inv me a j"
  shows "\<exists>rs. emitted_ranges me = Some rs \<and> tiles (decimal me) rs (size' me) \<and>
           (\<forall>r\<in>set rs. Range_length r = decimal_step me \<or> Range_length r = decimal_step me + 1) \<and>
           sum_list (map (\<lambda>r. unat (Range_length r)) rs) = unat (size' me) - unat (decimal me)"
  using assms
proof (induction "2 ^ a - j" arbitrary: me j rule: less_induct)
  case less
  let ?N = "unat (size' me)" and ?D = "unat (denominator me)"
  let ?ds = "unat (decimal_step me)" and ?ns = "unat (numerator_step me)"
  let ?dec = "unat (decimal me)" and ?num = "unat (numerator me)"
  have lv: "level_inv me a" and j: "j \<le> 2 ^ a" and num: "?num < ?D"
    and pos: "?dec * ?D + ?num = j * (?ds * ?D + ?ns)"
    using less.prems by (simp_all add: iter_inv_def)
  have D: "0 < ?D" and DN: "2 * ?D \<le> ?N" and ns: "?ns < ?D"
    and T: "(?ds * ?D + ?ns) * 2 ^ a = ?N * ?D"
    using lv by (simp_all add: level_inv_def)
  have N: "0 < ?N" using lv by (rule level_inv_pos)
  show ?case
  proof (cases "j = 2 ^ a")
    case True
    have "?dec = ?N"
      by (rule nat_iter_end[OF D T num]) (use pos True in simp)
    then have e: "decimal me = size' me" by (simp add: word_unat_eq_iff)
    then have "WikiIterator_finished me" by (simp add: WikiIterator_finished_def)
    then have "emitted_ranges me = Some []" by (subst emitted_ranges.simps) simp
    then show ?thesis using e by simp
  next
    case False
    with j have jlt: "j < 2 ^ a" by simp
    define dec' where "dec' = (if ?D \<le> ?num + ?ns then ?dec + ?ds + 1 else ?dec + ?ds)"
    define num' where "num' = (if ?D \<le> ?num + ?ns then ?num + ?ns - ?D else ?num + ?ns)"
    note st = nat_iter_step[OF D N ns T jlt num pos, folded dec'_def num'_def]
    have nf: "\<not> WikiIterator_finished me"
      using st(4) by (simp add: WikiIterator_finished_def word_le_nat_alt)
    have a1: "?dec + ?ds \<le> ?N" using st(3,5) by arith
    then have u1: "unat (decimal me + decimal_step me) = ?dec + ?ds"
      using unat_add_le[of "decimal me" "decimal_step me" "size' me"] by simp
    have u2: "unat (numerator me + numerator_step me) = ?num + ?ns"
      using unat_add_le[of "numerator me" "numerator_step me" "size' me"] num ns DN by simp
    have c: "numerator me + numerator_step me \<ge> denominator me \<longleftrightarrow> ?D \<le> ?num + ?ns"
      by (simp only: word_le_nat_alt u2)
    obtain r me' where nr: "WikiIterator_nextRange me = (r, me')" by (cases "WikiIterator_nextRange me")
    have fields: "size' me' = size' me \<and> denominator me' = denominator me \<and>
        decimal_step me' = decimal_step me \<and> numerator_step me' = numerator_step me \<and>
        unat (decimal me') = dec' \<and> unat (numerator me') = num' \<and>
        r = Range_new (decimal me) (decimal me')"
    proof (cases "?D \<le> ?num + ?ns")
      case True
      then have v: "dec' = ?dec + ?ds + 1" "num' = ?num + ?ns - ?D" by (simp_all add: dec'_def num'_def)
      have me': "me' = me\<lparr>decimal := decimal me + decimal_step me + 1,
                 numerator := numerator me + numerator_step me - denominator me\<rparr>"
        and r: "r = Range_new (decimal me) (decimal me + decimal_step me + 1)"
        using nr True c by (auto simp: WikiIterator_nextRange_def Let_def)
      have "unat (denominator me) \<le> unat (numerator me + numerator_step me)"
        using True by (simp only: u2)
      then have "unat (numerator me + numerator_step me - denominator me)
                  = unat (numerator me + numerator_step me) - ?D" by (rule unat_sub_le)
      then have x1: "unat (numerator me') = num'" unfolding me' by (simp add: v u2)
      have "unat (decimal me + decimal_step me) + unat (1 :: size_t) \<le> unat (size' me)"
        using st(3) v u1 by simp
      then have "unat (decimal me + decimal_step me + 1)
                  = unat (decimal me + decimal_step me) + unat (1 :: size_t)" by (rule unat_add_le)
      then have x2: "unat (decimal me') = dec'" unfolding me' by (simp add: v u1)
      show ?thesis using x1 x2 r by (simp add: me')
    next
      case False
      then have v: "dec' = ?dec + ?ds" "num' = ?num + ?ns" by (simp_all add: dec'_def num'_def)
      have me': "me' = me\<lparr>decimal := decimal me + decimal_step me,
                 numerator := numerator me + numerator_step me\<rparr>"
        and r: "r = Range_new (decimal me) (decimal me + decimal_step me)"
        using nr False c by (auto simp: WikiIterator_nextRange_def Let_def)
      show ?thesis using r by (simp add: me' v u1 u2)
    qed
    have inv': "iter_inv me' a (j + 1)"
      unfolding iter_inv_def level_inv_def using fields D DN ns T jlt st(1,2) by simp
    have "\<exists>rs. emitted_ranges me' = Some rs \<and> tiles (decimal me') rs (size' me') \<and>
           (\<forall>r\<in>set rs. Range_length r = decimal_step me' \<or> Range_length r = decimal_step me' + 1) \<and>
           sum_list (map (\<lambda>r. unat (Range_length r)) rs) = unat (size' me') - unat (decimal me')"
      by (rule less.hyps[OF _ inv']) (use jlt in arith)
    then obtain rs where rs: "emitted_ranges me' = Some rs" "tiles (decimal me') rs (size' me)"
      "\<forall>r\<in>set rs. Range_length r = decimal_step me \<or> Range_length r = decimal_step me + 1"
      "sum_list (map (\<lambda>r. unat (Range_length r)) rs) = ?N - dec'"
      using fields by auto
    have em: "emitted_ranges me = Some (r # rs)"
      by (subst emitted_ranges.simps) (simp add: nf nr rs(1))
    have rr: "start r = decimal me" "end' r = decimal me'" using fields by (simp_all add: Range_new_def)
    have dle: "?dec \<le> dec'" using st(5) by arith
    have len: "unat (Range_length r) = dec' - ?dec"
      using Range_length_unat[of r] rr fields dle by simp
    have lr: "Range_length r = decimal_step me \<or> Range_length r = decimal_step me + 1"
    proof (cases "?D \<le> ?num + ?ns")
      case True
      then have "Range_length r = decimal_step me + 1"
        using nr c by (auto simp: WikiIterator_nextRange_def Let_def Range_length_def Range_new_def)
      then show ?thesis by simp
    next
      case False
      then have "Range_length r = decimal_step me"
        using nr c by (auto simp: WikiIterator_nextRange_def Let_def Range_length_def Range_new_def)
      then show ?thesis by simp
    qed
    have "tiles (decimal me) (r # rs) (size' me)"
      using rr rs(2) dle fields by (simp add: word_le_nat_alt)
    moreover have "sum_list (map (\<lambda>r. unat (Range_length r)) (r # rs)) = ?N - ?dec"
      using len rs(4) dle st(3) by simp
    ultimately show ?thesis using em lr rs(3) by (simp del: tiles.simps)
  qed
qed

text \<open>
  Claim C4. For every \<open>N \<ge> 4\<close> and \<open>min_level = 4\<close>, \<^verbatim>\<open>WikiIterator_new\<close> returns an
  iterator such that, after any number \<open>k\<close> of \<^verbatim>\<open>WikiIterator_nextLevel\<close> calls that all
  returned true, the loop over \<^verbatim>\<open>WikiIterator_nextRange\<close> from \<^verbatim>\<open>WikiIterator_begin\<close> until
  \<^verbatim>\<open>WikiIterator_finished\<close> ends, and the ranges it emits are consecutive half-open intervals
  from 0 to exactly \<open>N\<close>, each of length \<open>decimal_step\<close> or \<open>decimal_step + 1\<close>, whose
  lengths sum to \<open>N\<close>.
\<close>

theorem WikiIterator_ranges_tile_the_array:
  assumes "4 \<le> N"
  shows "\<exists>it0. WikiIterator_new N 4 = ret it0 \<and>
           (\<forall>k me. after_levels k it0 = Some me \<longrightarrow>
              (\<exists>rs. emitted_ranges (WikiIterator_begin me) = Some rs \<and> tiles 0 rs N \<and>
                 (\<forall>r\<in>set rs. Range_length r = decimal_step me \<or>
                               Range_length r = decimal_step me + 1) \<and>
                 sum_list (map (\<lambda>r. unat (Range_length r)) rs) = unat N))"
proof -
  obtain it0 a0 where it0: "WikiIterator_new N 4 = ret it0" "size' it0 = N" "level_inv it0 a0"
    "unat (denominator it0) = 2 ^ a0" "unat N < 8 * 2 ^ a0"
    using WikiIterator_new_inv[OF assms] by blast
  have "\<exists>rs. emitted_ranges (WikiIterator_begin me) = Some rs \<and> tiles 0 rs N \<and>
                 (\<forall>r\<in>set rs. Range_length r = decimal_step me \<or>
                               Range_length r = decimal_step me + 1) \<and>
                 sum_list (map (\<lambda>r. unat (Range_length r)) rs) = unat N"
    if k: "after_levels k it0 = Some me" for k me
  proof -
    have "unat (size' it0) < 8 * 2 ^ a0" using it0(2,5) by simp
    with it0(3) have inv: "level_inv me (a0 - k)" "size' me = size' it0"
      using after_levels_inv[OF _ _ k] by simp_all
    have "level_inv (WikiIterator_begin me) (a0 - k)"
      using inv(1) by (simp add: level_inv_def WikiIterator_begin_def)
    then have "iter_inv (WikiIterator_begin me) (a0 - k) 0"
      by (simp add: iter_inv_def) (simp add: level_inv_def WikiIterator_begin_def)
    from emitted_ranges_inv[OF this] show ?thesis
      using inv(2) it0(2) by (simp add: WikiIterator_begin_def)
  qed
  with it0(1) show ?thesis by blast
qed

theorem WikiIterator_ranges_tile_the_array_witness:
  "\<exists>it0 me rs. WikiIterator_new 20 4 = ret it0 \<and> after_levels 1 it0 = Some me \<and>
     emitted_ranges (WikiIterator_begin me) = Some rs \<and> tiles 0 rs 20 \<and>
     (\<forall>r\<in>set rs. Range_length r = decimal_step me \<or> Range_length r = decimal_step me + 1) \<and>
     sum_list (map (\<lambda>r. unat (Range_length r)) rs) = unat (20 :: size_t)"
proof -
  have "(4 :: size_t) \<le> 20" by simp
  from WikiIterator_ranges_tile_the_array [OF this]
  obtain it0 where it0: "WikiIterator_new 20 4 = ret it0"
    and all: "\<And>k me. after_levels k it0 = Some me \<Longrightarrow>
              (\<exists>rs. emitted_ranges (WikiIterator_begin me) = Some rs \<and> tiles 0 rs 20 \<and>
                 (\<forall>r\<in>set rs. Range_length r = decimal_step me \<or>
                               Range_length r = decimal_step me + 1) \<and>
                 sum_list (map (\<lambda>r. unat (Range_length r)) rs) = unat (20 :: size_t))"
    by blast
  have "WikiIterator_new 20 4 = ret \<lparr>size' = 20, power_of_two = 16, numerator = 0, decimal = 0,
          denominator = 4, decimal_step = 5, numerator_step = 0\<rparr>"
    by (simp add: WikiIterator_new_def FloorPowerOfTwo_def WikiIterator_begin_def Let_def)
  with it0 have "it0 = \<lparr>size' = 20, power_of_two = 16, numerator = 0, decimal = 0,
          denominator = 4, decimal_step = 5, numerator_step = 0\<rparr>" by simp
  then have "after_levels 1 it0 = Some \<lparr>size' = 20, power_of_two = 16, numerator = 0, decimal = 0,
          denominator = 4, decimal_step = 10, numerator_step = 0\<rparr>"
    by (simp add: WikiIterator_nextLevel_def Let_def)
  with all it0 show ?thesis by blast
qed

section \<open>The entry points\<close>

text \<open>
  Claim C10. For every array, \<open>len\<close>, \<open>size\<close>, comparator, buffer and \<open>buffer_len\<close>,
  \<^verbatim>\<open>WikiSort_with_buffer\<close> and \<^verbatim>\<open>WikiSort_with_dynamic_buffer\<close> do to the array exactly what
  \<^verbatim>\<open>WikiSort\<close> does with the same array, \<open>len\<close>, \<open>size\<close> and comparator: the buffer
  arguments are ignored.
\<close>

theorem buffer_entry_points_delegate:
  "WikiSort_with_buffer array len sz compare buffer buffer_len = WikiSort array len sz compare \<and>
   WikiSort_with_dynamic_buffer array len sz compare = WikiSort array len sz compare"
  by (simp add: WikiSort_with_buffer_def WikiSort_with_dynamic_buffer_def WikiSort_def)

lemma items_Cons:
  assumes "length x = n" and "0 < n"
  shows "items n (x @ rest) = x # items n rest"
proof -
  have d: "(length (x @ rest)) div n = Suc (length rest div n)"
    using assms by (simp add: div_add_self1)
  have "[0..<Suc (length rest div n)] = 0 # map Suc [0..<length rest div n]"
    by (simp only: map_Suc_upt upt_conv_Cons zero_less_Suc)
  then show ?thesis
    unfolding items_def d using assms by (simp add: comp_def)
qed

lemma items_Nil:
  "0 < n \<Longrightarrow> items n [] = []"
  by (simp add: items_def)

text \<open>
  Claim C3. \<^verbatim>\<open>WikiSort(array, n, s, comparator)\<close> is to sort the \<open>n\<close> elements of \<open>s\<close> bytes each
  that the array holds, for every positive \<open>s\<close>. The source passes \<^verbatim>\<open>sizeof(Test)\<close> to
  \<^verbatim>\<open>new_WikiSort\<close> whatever \<open>s\<close> is, so the result does not depend on \<open>s\<close>, and with two
  elements of 32 bytes, ordered by their first byte, the two halves of the first element are
  exchanged and the second element is not moved: the memory then holds neither the two elements
  of the input nor a sorted sequence of elements.
\<close>

theorem WikiSort_ignores_element_size:
  "WikiSort array len s compare = WikiSort array len s' compare \<and>
   WikiSort ((5 # replicate 15 0 @ 2 # replicate 15 0) @ (1 # replicate 31 0)) 2 32
       (\<lambda>a b. int (unat (hd a)) - int (unat (hd b)))
     = ret ((2 # replicate 15 0 @ 5 # replicate 15 0) @ (1 # replicate 31 0))"
proof -
  define a b c d :: "byte list" where
    "a = 5 # replicate 15 0" and "b = 2 # replicate 15 0" and "c = 1 # replicate 15 0" and
    "d = replicate 16 0"
  define cmp :: "byte list \<Rightarrow> byte list \<Rightarrow> int" where
    "cmp = (\<lambda>a b. int (unat (hd a)) - int (unat (hd b)))"
  have l: "length a = 16" "length b = 16" "length c = 16" "length d = 16"
    by (simp_all add: a_def b_def c_def d_def)
  have its: "items 16 (a @ b @ c @ d) = [a, b, c, d]"
    using items_Cons [of a 16 "b @ c @ d"] items_Cons [of b 16 "c @ d"] items_Cons [of c 16 d]
      items_Cons [of d 16 "[]"] items_Nil [of 16] l by simp
  have len: "(2::size_t) < 4" "(2::size_t) \<noteq> 3"
    by simp_all
  have c10: "cmp b a < 0"
    by (simp add: cmp_def a_def b_def)
  have srt: "new_WikiSort [a, b, c, d] 2 cmp = ret [b, a, c, d]"
    unfolding new_WikiSort_def sort2_def compare_at_def item_def Swap_def Let_def
    using c10 by (simp add: len)
  have "new_WikiSort_bytes (a @ b @ c @ d) 2 16 cmp = ret (b @ a @ c @ d)"
    unfolding new_WikiSort_bytes_def using its srt l by simp
  moreover have "(5 # replicate 15 0 @ 2 # replicate 15 0) @ (1 # replicate 31 0) = a @ b @ c @ d"
    unfolding a_def b_def c_def d_def by (simp add: replicate_add [symmetric] del: replicate_add)
  moreover have "(2 # replicate 15 0 @ 5 # replicate 15 0) @ (1 # replicate 31 0) = b @ a @ c @ d"
    unfolding a_def b_def c_def d_def by (simp add: replicate_add [symmetric] del: replicate_add)
  ultimately show ?thesis
    unfolding WikiSort_def sizeof_Test_def cmp_def [symmetric]
    by (simp only: simp_thms)
qed

section \<open>The sorting networks\<close>

lemma length_compare_exchange [simp]: "length (compare_exchange lt x y ks) = length ks"
  by (simp add: compare_exchange_def)

lemma length_run_network [simp]: "length (run_network lt ps ks) = length ks"
  by (induction ps arbitrary: ks) auto

lemma mset_compare_exchange:
  "x < length ks \<Longrightarrow> y < length ks \<Longrightarrow> mset (compare_exchange lt x y ks) = mset ks"
  by (simp add: compare_exchange_def mset_swap)

lemma mset_run_network:
  "\<forall>(x, y)\<in>set ps. x < length ks \<and> y < length ks \<Longrightarrow> mset (run_network lt ps ks) = mset ks"
  by (induction ps arbitrary: ks) (auto simp add: mset_compare_exchange)

lemma list_update_swap_same:
  "xs ! x = xs ! y \<Longrightarrow> xs[x := xs ! y, y := xs ! x] = xs"
  by (metis list_update_id)

text \<open>
  The zero-one principle: a threshold \<open>\<lambda>v. \<not> lt v a\<close> of a strict linear order commutes with
  every compare-exchange.
\<close>

lemma compare_exchange_threshold:
  assumes lin: "strict_linear lt" and x: "x < length ks" and y: "y < length ks"
  shows "map (\<lambda>v. \<not> lt v a) (compare_exchange lt x y ks) =
         compare_exchange (<) x y (map (\<lambda>v. \<not> lt v a) ks)"
proof (cases "lt (ks ! y) (ks ! x)")
  case True
  have mono: "\<not> lt (ks ! y) a \<Longrightarrow> \<not> lt (ks ! x) a"
    using lin True unfolding strict_linear_def by blast
  show ?thesis
  proof (cases "\<not> lt (ks ! x) a \<and> lt (ks ! y) a")
    case True
    then show ?thesis
      using \<open>lt (ks ! y) (ks ! x)\<close> x y by (simp add: compare_exchange_def map_update)
  next
    case False
    then have eq: "(\<not> lt (ks ! x) a) = (\<not> lt (ks ! y) a)"
      using mono by blast
    have "(map (\<lambda>v. \<not> lt v a) ks)[x := \<not> lt (ks ! y) a, y := \<not> lt (ks ! x) a] = map (\<lambda>v. \<not> lt v a) ks"
      using list_update_swap_same [of "map (\<lambda>v. \<not> lt v a) ks" x y] x y eq by simp
    moreover have "\<not> ((map (\<lambda>v. \<not> lt v a) ks) ! y < (map (\<lambda>v. \<not> lt v a) ks) ! x)"
      using x y eq by simp
    ultimately show ?thesis
      unfolding compare_exchange_def using \<open>lt (ks ! y) (ks ! x)\<close> x y
      by (simp only: if_True if_False map_update nth_map)
  qed
next
  case False
  have "\<not> lt (ks ! x) a \<Longrightarrow> \<not> lt (ks ! y) a"
    using lin False unfolding strict_linear_def by metis
  then show ?thesis
    using False x y by (auto simp add: compare_exchange_def)
qed

lemma run_network_threshold:
  assumes "strict_linear lt" and "\<forall>(x, y)\<in>set ps. x < length ks \<and> y < length ks"
  shows "map (\<lambda>v. \<not> lt v a) (run_network lt ps ks) = run_network (<) ps (map (\<lambda>v. \<not> lt v a) ks)"
  using assms
proof (induction ps arbitrary: ks)
  case Nil
  then show ?case by simp
next
  case (Cons p ps)
  obtain x y where p: "p = (x, y)" by (cases p)
  have xy: "x < length ks" "y < length ks"
    using Cons.prems(2) p by auto
  have "\<forall>(x', y')\<in>set ps. x' < length (compare_exchange lt x y ks) \<and> y' < length (compare_exchange lt x y ks)"
    using Cons.prems(2) by auto
  then have "map (\<lambda>v. \<not> lt v a) (run_network lt ps (compare_exchange lt x y ks)) =
             run_network (<) ps (map (\<lambda>v. \<not> lt v a) (compare_exchange lt x y ks))"
    using Cons.IH Cons.prems(1) by blast
  then show ?case
    unfolding p run_network.simps compare_exchange_threshold [OF Cons.prems(1) xy, of a] .
qed

lemma zero_one_principle:
  assumes lin: "strict_linear lt"
    and ps: "\<forall>(x, y)\<in>set ps. x < length ks \<and> y < length ks"
    and bool: "\<And>bs :: bool list. length bs = length ks \<Longrightarrow> sorted (run_network (<) ps bs)"
    and d: "distinct ks"
  shows "sorted_wrt lt (run_network lt ps ks)"
proof -
  let ?out = "run_network lt ps ks"
  have tr: "transp lt"
    using lin unfolding strict_linear_def transp_def by blast
  have dout: "distinct ?out"
    using mset_run_network [OF ps, of lt] d by (metis mset_eq_imp_distinct_iff)
  have "lt (?out ! k) (?out ! Suc k)" if k: "Suc k < length ?out" for k
  proof -
    let ?f = "\<lambda>v. \<not> lt v (?out ! k)"
    have "sorted (map ?f ?out)"
      using run_network_threshold [OF lin ps, of "?out ! k"] bool [of "map ?f ks"] by simp
    then have "map ?f ?out ! k \<le> map ?f ?out ! Suc k"
      using k by (simp add: sorted_iff_nth_Suc del: length_run_network)
    moreover have "?f (?out ! k)"
      using lin unfolding strict_linear_def by blast
    ultimately have "\<not> lt (?out ! Suc k) (?out ! k)"
      using k by simp
    moreover have "?out ! Suc k \<noteq> ?out ! k"
      using dout k by (simp add: nth_eq_iff_index_eq del: length_run_network)
    ultimately show ?thesis
      using lin unfolding strict_linear_def by metis
  qed
  then show ?thesis
    using sorted_wrt_iff_nth_Suc_transp [OF tr] by blast
qed

lemma network4_bool:
  assumes "length (bs :: bool list) = 4"
  shows "sorted (run_network (<) network4 bs)"
proof -
  obtain a b c d where bs: "bs = [a, b, c, d]"
    using assms by (auto simp add: numeral_eq_Suc length_Suc_conv)
  show ?thesis
    unfolding bs
    by (cases a; cases b; cases c; cases d; simp add: network4_def compare_exchange_def)
qed

lemma network5_bool:
  assumes "length (bs :: bool list) = 5"
  shows "sorted (run_network (<) network5 bs)"
proof -
  obtain a b c d e where bs: "bs = [a, b, c, d, e]"
    using assms by (auto simp add: numeral_eq_Suc length_Suc_conv)
  show ?thesis
    unfolding bs
    by (cases a; cases b; cases c; cases d; cases e; simp add: network5_def compare_exchange_def)
qed

lemma network6_bool:
  assumes "length (bs :: bool list) = 6"
  shows "sorted (run_network (<) network6 bs)"
proof -
  obtain a b c d e f where bs: "bs = [a, b, c, d, e, f]"
    using assms by (auto simp add: numeral_eq_Suc length_Suc_conv)
  show ?thesis
    unfolding bs
    by (cases a; cases b; cases c; cases d; cases e; cases f;
        simp add: network6_def compare_exchange_def)
qed

lemma network7_bool:
  assumes "length (bs :: bool list) = 7"
  shows "sorted (run_network (<) network7 bs)"
proof -
  obtain a b c d e f g where bs: "bs = [a, b, c, d, e, f, g]"
    using assms by (auto simp add: numeral_eq_Suc length_Suc_conv)
  show ?thesis
    unfolding bs
    by (cases a; cases b; cases c; cases d; cases e; cases f; cases g;
        simp add: network7_def compare_exchange_def)
qed

lemma network8_bool:
  assumes "length (bs :: bool list) = 8"
  shows "sorted (run_network (<) network8 bs)"
proof -
  obtain a b c d e f g h where bs: "bs = [a, b, c, d, e, f, g, h]"
    using assms by (auto simp add: numeral_eq_Suc length_Suc_conv)
  show ?thesis
    unfolding bs
    by (cases a; cases b; cases c; cases d; cases e; cases f; cases g; cases h;
        simp add: network8_def compare_exchange_def)
qed

lemma stable_less_linear:
  assumes t: "total_order_semantics compare"
  shows "strict_linear (stable_less compare orig)"
  unfolding strict_linear_def
proof (intro conjI allI impI)
  fix a
  show "\<not> stable_less compare orig a a"
    using total_order_refl [OF t] by (simp add: stable_less_def)
next
  fix a b :: "8 word"
  assume "a \<noteq> b"
  then have "a < b \<or> b < a" by auto
  moreover have "compare (orig ! unat a) (orig ! unat b) = 0 \<Longrightarrow> compare (orig ! unat b) (orig ! unat a) = 0"
    using total_order_flip [OF t, of "orig ! unat a" "orig ! unat b"]
      total_order_flip [OF t, of "orig ! unat b" "orig ! unat a"] by arith
  moreover have "compare (orig ! unat a) (orig ! unat b) > 0 \<Longrightarrow> compare (orig ! unat b) (orig ! unat a) < 0"
    using total_order_flip [OF t, of "orig ! unat b" "orig ! unat a"] by simp
  ultimately show "stable_less compare orig a b \<or> stable_less compare orig b a"
    unfolding stable_less_def by (cases "compare (orig ! unat a) (orig ! unat b)" "0::int" rule: linorder_cases) auto
next
  fix a b c :: "8 word"
  let ?A = "orig ! unat a" and ?B = "orig ! unat b" and ?C = "orig ! unat c"
  assume "stable_less compare orig a b \<and> stable_less compare orig b c"
  then have ab: "compare ?A ?B < 0 \<or> (compare ?A ?B = 0 \<and> a < b)"
    and bc: "compare ?B ?C < 0 \<or> (compare ?B ?C = 0 \<and> b < c)"
    by (simp_all add: stable_less_def)
  have ac: "compare ?A ?C \<le> 0"
    using total_order_trans [OF t, of ?A ?B ?C] ab bc by auto
  show "stable_less compare orig a c"
  proof (cases "compare ?A ?C < 0")
    case True
    then show ?thesis by (simp add: stable_less_def)
  next
    case False
    then have ac0: "compare ?A ?C = 0" using ac by simp
    then have ca: "compare ?C ?A \<le> 0"
      using total_order_flip [OF t, of ?A ?C] by simp
    have "compare ?C ?B \<le> 0"
      using total_order_trans [OF t ca, of ?B] ab by auto
    then have b0: "compare ?B ?C = 0"
      using total_order_flip [OF t, of ?B ?C] bc by auto
    have "compare ?B ?A \<le> 0"
      using total_order_trans [OF t _ ca, of ?B] bc by auto
    then have a0: "compare ?A ?B = 0"
      using total_order_flip [OF t, of ?A ?B] ab by auto
    have "a < c" using ab bc a0 b0 by auto
    then show ?thesis using ac0 by (simp add: stable_less_def)
  qed
qed

lemma NEW_SWAP_ok:
  assumes t: "total_order_semantics compare"
    and s: "unat start0 = length pre" and n: "length pre + length ks < 2 ^ 64"
    and x: "x < length ks" and y: "y < length ks"
  shows "NEW_SWAP compare start0 x y (pre @ map (\<lambda>w. orig ! unat w) ks @ post, ks @ rest) =
         ret (pre @ map (\<lambda>w. orig ! unat w) (compare_exchange (stable_less compare orig) x y ks) @ post,
              compare_exchange (stable_less compare orig) x y ks @ rest)"
proof -
  let ?f = "\<lambda>w. orig ! unat w"
  let ?arr = "pre @ map ?f ks @ post"
  have u: "unat (start0 + of_nat k) = length pre + k" if "k < length ks" for k
  proof -
    have "k < 2 ^ 64" using that n by simp
    then have "unat (of_nat k :: size_t) = k"
      by (simp add: unat_of_nat)
    moreover have "unat start0 + unat (of_nat k :: size_t) < 2 ^ LENGTH(64)"
      using that n s calculation by simp
    ultimately show ?thesis
      using s by (simp only: unat_add_lem [THEN iffD1])
  qed
  have it: "item ?arr (start0 + of_nat k) = ret (?f (ks ! k))" if "k < length ks" for k
    using that u [OF that] by (simp add: item_def nth_append)
  have c1: "compare_at compare ?arr (start0 + of_nat y) (start0 + of_nat x) =
              ret (compare (?f (ks ! y)) (?f (ks ! x)))"
    unfolding compare_at_def it [OF x] it [OF y] by simp
  have c2: "compare_at compare ?arr (start0 + of_nat x) (start0 + of_nat y) =
              ret (compare (?f (ks ! x)) (?f (ks ! y)))"
    unfolding compare_at_def it [OF x] it [OF y] by simp
  have ox: "(ks @ rest) ! x = ks ! x" and oy: "(ks @ rest) ! y = ks ! y"
    using x y by (simp_all add: nth_append)
  have ax: "?arr ! (length pre + x) = ?f (ks ! x)" and ay: "?arr ! (length pre + y) = ?f (ks ! y)"
    using x y by (simp_all add: nth_append)
  have "?arr[length pre + x := ?f (ks ! y), length pre + y := ?f (ks ! x)] =
          pre @ map ?f (ks[x := ks ! y, y := ks ! x]) @ post"
    using x y by (simp add: list_update_append map_update)
  then have sw: "Swap ?arr (start0 + of_nat x) (start0 + of_nat y) =
          ret (pre @ map ?f (ks[x := ks ! y, y := ks ! x]) @ post)"
    using x y by (simp add: Swap_def u nth_append)
  have so: "(ks @ rest)[x := ks ! y, y := ks ! x] = ks[x := ks ! y, y := ks ! x] @ rest"
    using x y by (simp add: list_update_append)
  have eq0: "compare (?f (ks ! x)) (?f (ks ! y)) \<ge> 0 \<longleftrightarrow> compare (?f (ks ! y)) (?f (ks ! x)) = 0"
    if "\<not> compare (?f (ks ! y)) (?f (ks ! x)) < 0"
    using that total_order_flip [OF t, of "?f (ks ! y)" "?f (ks ! x)"]
      total_order_flip [OF t, of "?f (ks ! x)" "?f (ks ! y)"] by arith
  show ?thesis
  proof (cases "compare (?f (ks ! y)) (?f (ks ! x)) < 0")
    case True
    then have "stable_less compare orig (ks ! y) (ks ! x)"
      by (simp add: stable_less_def)
    then show ?thesis
      unfolding NEW_SWAP_def compare_exchange_def using True
      by (simp add: c1 sw ox oy so)
  next
    case False
    show ?thesis
    proof (cases "ks ! y < ks ! x")
      case lt: True
      show ?thesis
      proof (cases "compare (?f (ks ! y)) (?f (ks ! x)) = 0")
        case True
        then have "stable_less compare orig (ks ! y) (ks ! x)"
          using lt by (simp add: stable_less_def)
        moreover have "compare (?f (ks ! x)) (?f (ks ! y)) \<ge> 0"
          using eq0 [OF False] True by simp
        ultimately show ?thesis
          unfolding NEW_SWAP_def compare_exchange_def using False lt
          by (simp add: c1 c2 sw ox oy so)
      next
        case ne: False
        then have "\<not> stable_less compare orig (ks ! y) (ks ! x)"
          using False by (simp add: stable_less_def)
        moreover have "\<not> compare (?f (ks ! x)) (?f (ks ! y)) \<ge> 0"
          using eq0 [OF False] ne by simp
        ultimately show ?thesis
          unfolding NEW_SWAP_def compare_exchange_def using False lt
          by (simp add: c1 c2 ox oy)
      qed
    next
      case ge: False
      then have "\<not> stable_less compare orig (ks ! y) (ks ! x)"
        using False by (simp add: stable_less_def)
      then show ?thesis
        unfolding NEW_SWAP_def compare_exchange_def using False ge
        by (simp add: c1 ox oy)
    qed
  qed
qed

lemma NEW_SWAPs_ok:
  assumes t: "total_order_semantics compare"
    and s: "unat start0 = length pre" and n: "length pre + length ks < 2 ^ 64"
    and ps: "\<forall>(x, y)\<in>set ps. x < length ks \<and> y < length ks"
  shows "NEW_SWAPs compare start0 ps (pre @ map (\<lambda>w. orig ! unat w) ks @ post, ks @ rest) =
         ret (pre @ map (\<lambda>w. orig ! unat w) (run_network (stable_less compare orig) ps ks) @ post,
              run_network (stable_less compare orig) ps ks @ rest)"
  using n ps
proof (induction ps arbitrary: ks)
  case Nil
  then show ?case by simp
next
  case (Cons p ps)
  obtain x y where p: "p = (x, y)" by (cases p)
  have xy: "x < length ks" "y < length ks"
    using Cons.prems(2) p by auto
  let ?ks = "compare_exchange (stable_less compare orig) x y ks"
  have "NEW_SWAPs compare start0 ps (pre @ map (\<lambda>w. orig ! unat w) ?ks @ post, ?ks @ rest) =
         ret (pre @ map (\<lambda>w. orig ! unat w) (run_network (stable_less compare orig) ps ?ks) @ post,
              run_network (stable_less compare orig) ps ?ks @ rest)"
    using Cons.IH [of ?ks] Cons.prems by auto
  then show ?case
    unfolding p NEW_SWAPs.simps run_network.simps NEW_SWAP_ok [OF t s Cons.prems(1) xy]
    by simp
qed

lemma order_init:
  assumes "n \<le> 8"
  shows "[0, 1, 2, 3, 4, 5, 6, 7 :: 8 word] = map of_nat [0..<n] @ map of_nat [n..<8]"
proof -
  have "[0..<8] = [0..<n] @ [n..<8]"
    using assms by (metis le_add_diff_inverse upt_add_eq_append zero_le)
  moreover have "[0, 1, 2, 3, 4, 5, 6, 7 :: 8 word] = map of_nat [0..<8]"
    by (simp add: upt_rec)
  ultimately show ?thesis
    by (simp only: map_append)
qed

lemma unat_of_nat_8:
  "i < 8 \<Longrightarrow> unat (of_nat i :: 8 word) = i"
  by (simp add: unat_of_nat)

lemma network_sorts:
  assumes t: "total_order_semantics compare"
    and se: "start rng \<le> end' rng" and el: "unat (end' rng) \<le> length array"
    and len: "unat (end' rng) - unat (start rng) = n" and n8: "n \<le> 8"
    and ps: "\<forall>(x, y)\<in>set net. x < n \<and> y < n"
    and bool: "\<And>bs :: bool list. length bs = n \<Longrightarrow> sorted (run_network (<) net bs)"
  shows "\<exists>p order.
           stable_sorting compare (slice array (unat (start rng)) (unat (end' rng))) p \<and>
           NEW_SWAPs compare (start rng) net (array, [0, 1, 2, 3, 4, 5, 6, 7]) =
             ret (take (unat (start rng)) array
                  @ map (\<lambda>i. slice array (unat (start rng)) (unat (end' rng)) ! i) p
                  @ drop (unat (end' rng)) array, order)"
proof -
  let ?s = "unat (start rng)" and ?e = "unat (end' rng)"
  let ?orig = "slice array ?s ?e"
  let ?f = "\<lambda>w :: 8 word. ?orig ! unat w"
  let ?ks = "map of_nat [0..<n] :: 8 word list"
  let ?rest = "map of_nat [n..<8] :: 8 word list"
  let ?lt = "stable_less compare ?orig"
  let ?out = "run_network ?lt net ?ks"
  let ?p = "map unat ?out"
  have sle: "?s \<le> ?e"
    using se by (simp add: word_le_nat_alt)
  have lo: "length ?orig = n"
    using el len by (simp add: length_slice)
  have lk: "length ?ks = n"
    by simp
  have uk: "map unat ?ks = [0..<n]"
    using n8 by (intro nth_equalityI) (simp_all add: unat_of_nat_8)
  have fk: "map ?f ?ks = ?orig"
    using n8 lo by (intro nth_equalityI) (simp_all add: unat_of_nat_8)
  have arr: "array = take ?s array @ map ?f ?ks @ drop ?e array"
    unfolding fk using slice_whole [OF sle, of array] by simp
  have pre: "unat (start rng) = length (take ?s array)"
    using sle el by simp
  have "?e < 2 ^ 64"
    using unsigned_less [of "end' rng"] by simp
  then have bound: "length (take ?s array) + length ?ks < 2 ^ 64"
    using sle el len by simp
  have ps': "\<forall>(x, y)\<in>set net. x < length ?ks \<and> y < length ?ks"
    using ps by simp
  have run: "NEW_SWAPs compare (start rng) net (array, [0, 1, 2, 3, 4, 5, 6, 7]) =
               ret (take ?s array @ map ?f ?out @ drop ?e array, ?out @ ?rest)"
    using NEW_SWAPs_ok [OF t pre bound ps', of ?orig "drop ?e array" ?rest]
    unfolding order_init [OF n8, symmetric] arr [symmetric] .
  have fo: "map ?f ?out = map (\<lambda>i. ?orig ! i) ?p"
    by (simp add: comp_def)
  have ms: "mset ?p = mset [0..<n]"
    using mset_run_network [OF ps', of ?lt] uk by (metis mset_map)
  have dp: "distinct ?p"
    using ms by (metis distinct_upt mset_eq_imp_distinct_iff)
  have sp: "set ?p = {0..<length ?orig}"
    using ms lo by (metis atLeastLessThan_upt mset_eq_setD)
  have "distinct (map unat ?ks)"
    unfolding uk by simp
  then have dk: "distinct ?ks"
    by (simp only: distinct_map)
  have so: "sorted_wrt ?lt ?out"
    using zero_one_principle [OF stable_less_linear [OF t] ps' _ dk] bool by simp
  have "sorted_wrt (\<lambda>a b. compare (?f a) (?f b) \<le> 0) ?out"
    using so by (rule sorted_wrt_mono_rel [rotated]) (auto simp add: stable_less_def)
  then have su: "sorted_under compare (map (\<lambda>i. ?orig ! i) ?p)"
    unfolding sorted_under_def fo [symmetric] by (simp add: sorted_wrt_map)
  have st: "i < j" if i: "i < length ?p" and j: "j < length ?p" and lt: "?p ! i < ?p ! j"
    and eq: "compare (?orig ! (?p ! i)) (?orig ! (?p ! j)) = 0" for i j
  proof (rule ccontr)
    assume "\<not> i < j"
    moreover have "i \<noteq> j" using lt by auto
    ultimately have ji: "j < i" by simp
    have "?lt (?out ! j) (?out ! i)"
      using so ji i by (simp add: sorted_wrt_iff_nth_less)
    then have "compare (?f (?out ! j)) (?f (?out ! i)) < 0 \<or> ?out ! j < ?out ! i"
      by (auto simp add: stable_less_def)
    moreover have "\<not> ?out ! j < ?out ! i"
      using lt i j by (simp add: word_less_nat_alt)
    moreover have "\<not> compare (?f (?out ! j)) (?f (?out ! i)) < 0"
      using eq i j total_order_flip [OF t, of "?f (?out ! j)" "?f (?out ! i)"] by simp
    ultimately show False by blast
  qed
  have "stable_sorting compare ?orig ?p"
    unfolding stable_sorting_def using dp sp su st by blast
  then show ?thesis
    using run unfolding fo by blast
qed

text \<open>
  Claim C8. On every range of 4 to 8 items inside the array (the ranges of level 0), with a
  comparator of total-order semantics, the sorting network of \<^verbatim>\<open>new_WikiSort\<close> for that
  length, run with the stabilized compare-exchange \<^verbatim>\<open>NEW_SWAP\<close> from
  \<^verbatim>\<open>order = {0, 1, ...}\<close>, returns, leaves the array outside the range as it was, and leaves
  in the range the items of the range in a stably sorted order: sorted under the comparator,
  items that compare equal in their original relative order.
\<close>

theorem sorting_network_sorts_stably:
  assumes t: "total_order_semantics compare"
    and se: "start rng \<le> end' rng" and el: "unat (end' rng) \<le> length array"
    and l4: "4 \<le> Range_length rng" and l8: "Range_length rng \<le> 8"
  shows "\<exists>p. stable_sorting compare (slice array (unat (start rng)) (unat (end' rng))) p \<and>
             sort_range array compare rng =
               ret (take (unat (start rng)) array
                    @ map (\<lambda>i. slice array (unat (start rng)) (unat (end' rng)) ! i) p
                    @ drop (unat (end' rng)) array)"
proof -
  let ?n = "unat (end' rng) - unat (start rng)"
  have sle: "unat (start rng) \<le> unat (end' rng)"
    using se by (simp add: word_le_nat_alt)
  have n: "unat (Range_length rng) = ?n"
    using sle by (rule Range_length_unat)
  have "4 \<le> ?n" "?n \<le> 8"
    using l4 l8 n by (simp_all add: word_le_nat_alt)
  then consider "?n = 4" | "?n = 5" | "?n = 6" | "?n = 7" | "?n = 8"
    by arith
  then show ?thesis
  proof cases
    case 1
    then have r: "Range_length rng = 4"
      using n by (simp add: word_unat_eq_iff)
    obtain p order where
      "stable_sorting compare (slice array (unat (start rng)) (unat (end' rng))) p"
      "NEW_SWAPs compare (start rng) network4 (array, [0, 1, 2, 3, 4, 5, 6, 7]) =
         ret (take (unat (start rng)) array
              @ map (\<lambda>i. slice array (unat (start rng)) (unat (end' rng)) ! i) p
              @ drop (unat (end' rng)) array, order)"
      using network_sorts [OF t se el 1, of network4] network4_bool
      by (auto simp add: network4_def)
    then show ?thesis
      unfolding sort_range_def Let_def r by (intro exI [of _ p]) simp
  next
    case 2
    then have r: "Range_length rng = 5"
      using n by (simp add: word_unat_eq_iff)
    obtain p order where
      "stable_sorting compare (slice array (unat (start rng)) (unat (end' rng))) p"
      "NEW_SWAPs compare (start rng) network5 (array, [0, 1, 2, 3, 4, 5, 6, 7]) =
         ret (take (unat (start rng)) array
              @ map (\<lambda>i. slice array (unat (start rng)) (unat (end' rng)) ! i) p
              @ drop (unat (end' rng)) array, order)"
      using network_sorts [OF t se el 2, of network5] network5_bool
      by (auto simp add: network5_def)
    then show ?thesis
      unfolding sort_range_def Let_def r by (intro exI [of _ p]) simp
  next
    case 3
    then have r: "Range_length rng = 6"
      using n by (simp add: word_unat_eq_iff)
    obtain p order where
      "stable_sorting compare (slice array (unat (start rng)) (unat (end' rng))) p"
      "NEW_SWAPs compare (start rng) network6 (array, [0, 1, 2, 3, 4, 5, 6, 7]) =
         ret (take (unat (start rng)) array
              @ map (\<lambda>i. slice array (unat (start rng)) (unat (end' rng)) ! i) p
              @ drop (unat (end' rng)) array, order)"
      using network_sorts [OF t se el 3, of network6] network6_bool
      by (auto simp add: network6_def)
    then show ?thesis
      unfolding sort_range_def Let_def r by (intro exI [of _ p]) simp
  next
    case 4
    then have r: "Range_length rng = 7"
      using n by (simp add: word_unat_eq_iff)
    obtain p order where
      "stable_sorting compare (slice array (unat (start rng)) (unat (end' rng))) p"
      "NEW_SWAPs compare (start rng) network7 (array, [0, 1, 2, 3, 4, 5, 6, 7]) =
         ret (take (unat (start rng)) array
              @ map (\<lambda>i. slice array (unat (start rng)) (unat (end' rng)) ! i) p
              @ drop (unat (end' rng)) array, order)"
      using network_sorts [OF t se el 4, of network7] network7_bool
      by (auto simp add: network7_def)
    then show ?thesis
      unfolding sort_range_def Let_def r by (intro exI [of _ p]) simp
  next
    case 5
    then have r: "Range_length rng = 8"
      using n by (simp add: word_unat_eq_iff)
    obtain p order where
      "stable_sorting compare (slice array (unat (start rng)) (unat (end' rng))) p"
      "NEW_SWAPs compare (start rng) network8 (array, [0, 1, 2, 3, 4, 5, 6, 7]) =
         ret (take (unat (start rng)) array
              @ map (\<lambda>i. slice array (unat (start rng)) (unat (end' rng)) ! i) p
              @ drop (unat (end' rng)) array, order)"
      using network_sorts [OF t se el 5, of network8] network8_bool
      by (auto simp add: network8_def)
    then show ?thesis
      unfolding sort_range_def Let_def r by (intro exI [of _ p]) simp
  qed
qed

theorem sorting_network_sorts_stably_witness:
  "\<exists>p. stable_sorting (\<lambda>a b. int (fst a) - int (fst b))
         ([(2, 1), (1, 2), (2, 3), (1, 4), (2, 5)] :: (nat \<times> nat) list) p \<and>
       sort_range ([(9, 0), (2, 1), (1, 2), (2, 3), (1, 4), (2, 5), (9, 6)] :: (nat \<times> nat) list)
           (\<lambda>a b. int (fst a) - int (fst b)) (Range_new 1 6) =
         ret ((9, 0) # map (\<lambda>i. ([(2, 1), (1, 2), (2, 3), (1, 4), (2, 5)] :: (nat \<times> nat) list) ! i) p
              @ [(9, 6)])"
proof -
  have t: "total_order_semantics (\<lambda>a b :: nat \<times> nat. int (fst a) - int (fst b))"
    by (auto simp: total_order_semantics_def)
  show ?thesis
    using sorting_network_sorts_stably [OF t, of "Range_new 1 6"
        "[(9, 0), (2, 1), (1, 2), (2, 3), (1, 4), (2, 5), (9, 6)]"]
    by (simp add: Range_new_def Range_length_def slice_def)
qed

section \<open>Merging\<close>

lemma stable_merge_Nil2 [simp]: "stable_merge compare xs [] = xs"
  by (cases xs) simp_all

lemma mset_stable_merge: "mset (stable_merge compare xs ys) = mset xs + mset ys"
  by (induction compare xs ys rule: stable_merge.induct) simp_all

lemma set_stable_merge: "set (stable_merge compare xs ys) = set xs \<union> set ys"
  using mset_stable_merge [of compare xs ys] by (metis set_mset_mset set_mset_union)

lemma sorted_stable_merge:
  "total_order_semantics compare \<Longrightarrow> sorted_under compare xs \<Longrightarrow> sorted_under compare ys \<Longrightarrow>
   sorted_under compare (stable_merge compare xs ys)"
proof (induction compare xs ys rule: stable_merge.induct)
  case (1 compare ys)
  then show ?case by simp
next
  case (2 compare v va)
  then show ?case by simp
next
  case (3 compare x xs y ys)
  show ?case
  proof (cases "compare y x < 0")
    case True
    note t = "3.prems"(1) and sx = "3.prems"(2) and sy = "3.prems"(3)
    have "sorted_under compare (stable_merge compare (x # xs) ys)"
      using 3 True by (simp add: sorted_under_def)
    moreover have "compare y z \<le> 0" if "z \<in> set (x # xs) \<union> set ys" for z
    proof -
      have yx: "compare y x \<le> 0" using True by simp
      from that consider "z = x" | "z \<in> set xs" | "z \<in> set ys" by auto
      then show ?thesis
      proof cases
        case 1 then show ?thesis using yx by simp
      next
        case 2
        then have "compare x z \<le> 0" using sx by (simp add: sorted_under_def)
        then show ?thesis using total_order_trans [OF t yx] by blast
      next
        case 3
        then show ?thesis using sy by (simp add: sorted_under_def)
      qed
    qed
    ultimately show ?thesis
      using True by (simp add: sorted_under_def set_stable_merge)
  next
    case False
    note t = "3.prems"(1) and sx = "3.prems"(2) and sy = "3.prems"(3)
    have "sorted_under compare (stable_merge compare xs (y # ys))"
      using 3 False by (simp add: sorted_under_def)
    moreover have "compare x z \<le> 0" if "z \<in> set xs \<union> set (y # ys)" for z
    proof -
      have xy: "compare x y \<le> 0"
        using False total_order_flip [OF t, of y x] by simp
      from that consider "z = y" | "z \<in> set xs" | "z \<in> set ys" by auto
      then show ?thesis
      proof cases
        case 1 then show ?thesis using xy by simp
      next
        case 2
        then show ?thesis using sx by (simp add: sorted_under_def)
      next
        case 3
        then have "compare y z \<le> 0" using sy by (simp add: sorted_under_def)
        then show ?thesis using total_order_trans [OF t xy] by blast
      qed
    qed
    ultimately show ?thesis
      using False by (simp add: sorted_under_def set_stable_merge)
  qed
qed

lemma stable_merge_below:
  assumes "\<forall>b\<in>set B1. compare b a < 0"
  shows "stable_merge compare (a # xs) (B1 @ B2) = B1 @ stable_merge compare (a # xs) B2"
  using assms by (induction B1) simp_all

lemma stable_merge_not_above:
  assumes "\<forall>x\<in>set A1. \<not> compare b x < 0"
  shows "stable_merge compare (A1 @ A2) (b # ys) = A1 @ stable_merge compare A2 (b # ys)"
  using assms by (induction A1) simp_all

lemma slice_app: "slice (P @ X @ Q) (length P) (length P + length X) = X"
  by (simp add: slice_def)

lemma BinaryFirst_app:
  assumes t: "total_order_semantics compare"
    and arr: "array = P @ X @ Q"
    and s: "unat (start rng) = length P" and e: "unat (end' rng) = length P + length X"
    and vl: "unat val < length array" and so: "sorted_under compare X"
  shows "\<exists>k X1 X2. BinaryFirst array val rng compare = ret k \<and> X = X1 @ X2 \<and>
           unat k = length P + length X1 \<and>
           (\<forall>x\<in>set X1. compare x (array ! unat val) < 0) \<and>
           (\<forall>x\<in>set X2. \<not> compare x (array ! unat val) < 0)"
proof -
  let ?s = "unat (start rng)" and ?e = "unat (end' rng)"
  have se: "start rng \<le> end' rng"
    using s e by (simp add: word_le_nat_alt)
  have el: "?e \<le> length array"
    using e arr by simp
  have so': "sorted_under compare (slice array ?s ?e)"
    unfolding s e arr slice_app by (rule so)
  obtain k where k: "BinaryFirst array val rng compare = ret k"
    and sp: "splits_at (below compare array (unat val)) ?s ?e (unat k)"
    using BinaryFirst_spec [OF se el vl downward_below [OF t so' el]] by blast
  let ?m = "unat k - length P"
  have b: "length P \<le> unat k" "unat k \<le> length P + length X"
    using sp s e by (simp_all add: splits_at_def)
  have nth: "X ! i = array ! (length P + i)" if "i < length X" for i
    using that arr by (simp add: nth_append)
  have 1: "compare x (array ! unat val) < 0" if "x \<in> set (take ?m X)" for x
  proof -
    have "\<exists>i<length (take ?m X). take ?m X ! i = x"
      using that by (simp only: in_set_conv_nth)
    then obtain i where "i < length (take ?m X)" "take ?m X ! i = x"
      by blast
    then have i: "i < ?m" "i < length X" "x = X ! i"
      by simp_all
    have "below compare array (unat val) (length P + i)"
      using sp i(1) b s by (simp add: splits_at_def)
    then show ?thesis
      using nth [OF i(2)] i(3) by (simp add: below_def)
  qed
  have 2: "\<not> compare x (array ! unat val) < 0" if "x \<in> set (drop ?m X)" for x
  proof -
    have "\<exists>i<length (drop ?m X). drop ?m X ! i = x"
      using that by (simp only: in_set_conv_nth)
    then obtain i where "i < length (drop ?m X)" "drop ?m X ! i = x"
      by blast
    then have i: "i < length X - ?m" "x = X ! (?m + i)"
      using b by simp_all
    have "\<not> below compare array (unat val) (length P + (?m + i))"
      using sp i(1) b s e by (simp add: splits_at_def)
    moreover have "?m + i < length X" using i(1) by arith
    ultimately show ?thesis
      using nth [of "?m + i"] i(2) by (simp add: below_def)
  qed
  have "X = take ?m X @ drop ?m X" by simp
  moreover have "unat k = length P + length (take ?m X)"
    using b by simp
  ultimately show ?thesis
    using k 1 2 by blast
qed

lemma BinaryLast_app:
  assumes t: "total_order_semantics compare"
    and arr: "array = P @ X @ Q"
    and s: "unat (start rng) = length P" and e: "unat (end' rng) = length P + length X"
    and vl: "unat val < length array" and so: "sorted_under compare X"
  shows "\<exists>k X1 X2. BinaryLast array val rng compare = ret k \<and> X = X1 @ X2 \<and>
           unat k = length P + length X1 \<and>
           (\<forall>x\<in>set X1. compare (array ! unat val) x \<ge> 0) \<and>
           (\<forall>x\<in>set X2. \<not> compare (array ! unat val) x \<ge> 0)"
proof -
  let ?s = "unat (start rng)" and ?e = "unat (end' rng)"
  have se: "start rng \<le> end' rng"
    using s e by (simp add: word_le_nat_alt)
  have el: "?e \<le> length array"
    using e arr by simp
  have so': "sorted_under compare (slice array ?s ?e)"
    unfolding s e arr slice_app by (rule so)
  obtain k where k: "BinaryLast array val rng compare = ret k"
    and sp: "splits_at (not_above compare array (unat val)) ?s ?e (unat k)"
    using BinaryLast_spec [OF se el vl downward_not_above [OF t so' el]] by blast
  let ?m = "unat k - length P"
  have b: "length P \<le> unat k" "unat k \<le> length P + length X"
    using sp s e by (simp_all add: splits_at_def)
  have nth: "X ! i = array ! (length P + i)" if "i < length X" for i
    using that arr by (simp add: nth_append)
  have 1: "compare (array ! unat val) x \<ge> 0" if "x \<in> set (take ?m X)" for x
  proof -
    have "\<exists>i<length (take ?m X). take ?m X ! i = x"
      using that by (simp only: in_set_conv_nth)
    then obtain i where "i < length (take ?m X)" "take ?m X ! i = x"
      by blast
    then have i: "i < ?m" "i < length X" "x = X ! i"
      by simp_all
    have "not_above compare array (unat val) (length P + i)"
      using sp i(1) b s by (simp add: splits_at_def)
    then show ?thesis
      using nth [OF i(2)] i(3) by (simp add: not_above_def)
  qed
  have 2: "\<not> compare (array ! unat val) x \<ge> 0" if "x \<in> set (drop ?m X)" for x
  proof -
    have "\<exists>i<length (drop ?m X). drop ?m X ! i = x"
      using that by (simp only: in_set_conv_nth)
    then obtain i where "i < length (drop ?m X)" "drop ?m X ! i = x"
      by blast
    then have i: "i < length X - ?m" "x = X ! (?m + i)"
      using b by simp_all
    have "\<not> not_above compare array (unat val) (length P + (?m + i))"
      using sp i(1) b s e by (simp add: splits_at_def)
    moreover have "?m + i < length X" using i(1) by arith
    ultimately show ?thesis
      using nth [of "?m + i"] i(2) by (simp add: not_above_def)
  qed
  have "X = take ?m X @ drop ?m X" by simp
  moreover have "unat k = length P + length (take ?m X)"
    using b by simp
  ultimately show ?thesis
    using k 1 2 by blast
qed

lemma sorted_under_append:
  "sorted_under compare (xs @ ys) \<Longrightarrow> sorted_under compare xs \<and> sorted_under compare ys"
  by (simp add: sorted_under_def sorted_wrt_append)

lemma MergeInPlace_loop_ok:
  assumes t: "total_order_semantics compare" and cs: "unat cache_size \<le> length cache"
    and arr: "array = P @ XA @ XB @ Q"
    and sA: "unat (start A) = length P" and eA: "unat (end' A) = length P + length XA"
    and sB: "start B = end' A" and eB: "unat (end' B) = length P + length XA + length XB"
    and nA: "XA \<noteq> []" and nB: "XB \<noteq> []"
    and soA: "sorted_under compare XA" and soB: "sorted_under compare XB"
  shows "\<exists>cache'. MergeInPlace_loop array A B compare cache cache_size =
                    ret (P @ stable_merge compare XA XB @ Q, cache') \<and>
                  length cache' = length cache"
  using assms(2-)
proof (induction "length XA" arbitrary: array A B P XA XB cache rule: less_induct)
  case less
  note cs = less.prems(1) and arr = less.prems(2) and sA = less.prems(3) and eA = less.prems(4)
    and sB = less.prems(5) and eB = less.prems(6) and nA = less.prems(7) and nB = less.prems(8)
    and soA = less.prems(9) and soB = less.prems(10)
  obtain a XA' where XA: "XA = a # XA'"
    using nA by (cases XA) auto
  have va: "array ! unat (start A) = a"
    unfolding sA arr XA by (simp add: nth_append)
  have vl: "unat (start A) < length array"
    unfolding sA arr XA by simp
  have arrB: "array = (P @ XA) @ XB @ Q"
    using arr by simp
  have sB': "unat (start B) = length (P @ XA)"
    using sB eA by simp
  have eB': "unat (end' B) = length (P @ XA) + length XB"
    using eB by simp
  obtain mid B1 B2 where mid: "BinaryFirst array (start A) B compare = ret mid"
    and XB: "XB = B1 @ B2" and um: "unat mid = length P + length XA + length B1"
    and b1: "\<forall>x\<in>set B1. compare x a < 0" and b2: "\<forall>x\<in>set B2. \<not> compare x a < 0"
    using BinaryFirst_app [OF t arrB sB' eB' vl soB] unfolding va by auto
  have am: "unat (mid - end' A) = length B1"
    using um eA by (simp add: unat_sub_le)
  let ?rng = "Range_new (start A) mid"
  have r1: "start ?rng \<le> end' ?rng"
    using sA um by (simp add: Range_new_def word_le_nat_alt)
  have r2: "unat (end' ?rng) \<le> length array"
    using um arr XB by (simp add: Range_new_def)
  have lA: "unat (Range_length A) = length XA"
    using Range_length_unat [of A] sA eA by simp
  have "unat (Range_length ?rng) = length XA + length B1"
    using Range_length_unat [of ?rng] sA um by (simp add: Range_new_def)
  then have r3: "Range_length A \<le> Range_length ?rng"
    using lA by (simp add: word_le_nat_alt)
  have sl: "slice array (unat (start ?rng)) (unat (end' ?rng)) = XA @ B1"
    using sA um arr XB by (simp add: Range_new_def slice_def)
  have tk: "take (unat (start ?rng)) array = P"
    using sA arr by (simp add: Range_new_def)
  have dr: "drop (unat (end' ?rng)) array = B2 @ Q"
    using um arr XB by (simp add: Range_new_def)
  obtain cache1 where rot: "Rotate array (Range_length A) ?rng cache cache_size =
      ret (P @ B1 @ XA @ B2 @ Q, cache1)" and lc: "length cache1 = length cache"
    using Rotate_ok [OF r1 r2 r3 cs] unfolding sl tk dr lA
    by (auto simp add: rotate_append)
  have m1: "stable_merge compare XA XB = B1 @ stable_merge compare XA B2"
    unfolding XA XB using b1 by (rule stable_merge_below)
  show ?case
  proof (cases "end' B = mid")
    case True
    then have "length XB = length B1"
      using eB um by simp
    then have "B2 = []"
      using XB by simp
    then have "P @ stable_merge compare XA XB @ Q = P @ B1 @ XA @ B2 @ Q"
      using m1 by simp
    then show ?thesis
      using lc by (subst MergeInPlace_loop.simps) (simp add: mid rot True Let_def)
  next
    case False
    have "length XB \<noteq> length B1"
      using False eB um by (auto simp add: word_unat_eq_iff)
    then obtain b B2' where B2: "B2 = b # B2'"
      using XB by (cases B2) auto
    let ?s' = "start A + (mid - end' A)"
    let ?A' = "\<lparr>start = ?s', end' = mid\<rparr>"
    let ?arr1 = "P @ B1 @ XA @ B2 @ Q"
    have us': "unat ?s' = length P + length B1"
      using unat_add_le [of "start A" "mid - end' A" mid] sA am um by simp
    have sA': "unat (start ?A') = length (P @ B1)"
      using us' by simp
    have eA': "unat (end' ?A') = length (P @ B1) + length XA"
      using um by simp
    have arr1: "?arr1 = (P @ B1) @ XA @ (B2 @ Q)"
      by simp
    have va1: "?arr1 ! unat ?s' = a"
      unfolding us' XA by (simp add: nth_append)
    have vl1: "unat ?s' < length ?arr1"
      unfolding us' XA by simp
    obtain s A1 A2 where s: "BinaryLast ?arr1 ?s' ?A' compare = ret s"
      and XA12: "XA = A1 @ A2" and us: "unat s = length P + length B1 + length A1"
      and a1: "\<forall>x\<in>set A1. compare a x \<ge> 0" and a2: "\<forall>x\<in>set A2. \<not> compare a x \<ge> 0"
      using BinaryLast_app [OF t arr1 sA' eA' vl1 soA] unfolding va1 by auto
    have "A1 \<noteq> []"
    proof
      assume "A1 = []"
      then have "a \<in> set A2" using XA XA12 by simp
      then show False using a2 total_order_refl [OF t, of a] by auto
    qed
    then have shorter: "length A2 < length XA"
      using XA12 by simp
    have "\<not> compare b x < 0" if "x \<in> set A1" for x
    proof -
      have "compare x a \<le> 0"
        using a1 that total_order_flip_le [OF t, of x a] by simp
      moreover have "compare a b \<le> 0"
        using b2 B2 total_order_flip [OF t, of b a] total_order_flip [OF t, of a b] by simp
      ultimately have "compare x b \<le> 0"
        using total_order_trans [OF t] by blast
      then show ?thesis
        using total_order_flip [OF t, of b x] by simp
    qed
    then have m2: "stable_merge compare XA B2 = A1 @ stable_merge compare A2 B2"
      unfolding XA12 B2 by (intro stable_merge_not_above) blast
    have rl: "Range_length \<lparr>start = s, end' = mid\<rparr> = 0 \<longleftrightarrow> A2 = []"
    proof -
      have "unat (Range_length \<lparr>start = s, end' = mid\<rparr>) = length A2"
        using Range_length_unat [of "\<lparr>start = s, end' = mid\<rparr>"] us um XA12 by simp
      then show ?thesis
        by (simp add: word_unat_eq_iff)
    qed
    show ?thesis
    proof (cases "A2 = []")
      case True
      then have "P @ stable_merge compare XA XB @ Q = ?arr1"
        using m1 m2 XA12 by simp
      then show ?thesis
        using lc rl True
        by (subst MergeInPlace_loop.simps) (simp add: mid rot [unfolded Range_new_def] False Let_def Range_new_def s)
    next
      case nE: False
      have so2: "sorted_under compare A2" "sorted_under compare B2"
        using soA soB XA12 XB sorted_under_append by blast+
      have "\<exists>cache'. MergeInPlace_loop ?arr1 \<lparr>start = s, end' = mid\<rparr> (B\<lparr>start := mid\<rparr>) compare
                cache1 cache_size =
              ret ((P @ B1 @ A1) @ stable_merge compare A2 B2 @ Q, cache') \<and>
              length cache' = length cache1"
      proof (rule less.hyps [OF shorter])
        show "unat cache_size \<le> length cache1" using cs lc by simp
        show "?arr1 = (P @ B1 @ A1) @ A2 @ B2 @ Q" using XA12 by simp
        show "unat (start \<lparr>start = s, end' = mid\<rparr>) = length (P @ B1 @ A1)" using us by simp
        show "unat (end' \<lparr>start = s, end' = mid\<rparr>) = length (P @ B1 @ A1) + length A2"
          using um XA12 by simp
        show "start (B\<lparr>start := mid\<rparr>) = end' \<lparr>start = s, end' = mid\<rparr>" by simp
        show "unat (end' (B\<lparr>start := mid\<rparr>)) = length (P @ B1 @ A1) + length A2 + length B2"
          using eB XB XA12 by simp
        show "A2 \<noteq> []" by (rule nE)
        show "B2 \<noteq> []" using B2 by simp
        show "sorted_under compare A2" by (rule so2)
        show "sorted_under compare B2" by (rule so2)
      qed
      then obtain cache2 where rec: "MergeInPlace_loop ?arr1 \<lparr>start = s, end' = mid\<rparr>
            (B\<lparr>start := mid\<rparr>) compare cache1 cache_size =
          ret (P @ stable_merge compare XA XB @ Q, cache2)" and lc2: "length cache2 = length cache"
        using m1 m2 lc by auto
      show ?thesis
        using lc2 rl nE
        by (subst MergeInPlace_loop.simps) (simp add: mid rot [unfolded Range_new_def] False Let_def Range_new_def s rec)
    qed
  qed
qed

text \<open>
  Claim C6. For adjacent ranges \<open>A\<close> and \<open>B\<close> inside the array (\<open>A.end = B.start\<close>), each
  sorted under a comparator with total-order semantics, \<^verbatim>\<open>MergeInPlace\<close> returns, and the
  array it leaves has, in the place of \<open>A \<union> B\<close>, the stable merge of the two runs (of an item
  of \<open>A\<close> and an item of \<open>B\<close> that compare equal, the one of \<open>A\<close> first), which is sorted and
  holds the items of both runs, and is unchanged everywhere else. The cache holds at least
  \<open>cache_size\<close> items, as the caller promises.
\<close>

theorem MergeInPlace_merges_stably:
  assumes t: "total_order_semantics compare"
    and sA: "start A \<le> end' A" and AB: "end' A = start B" and sB: "start B \<le> end' B"
    and el: "unat (end' B) \<le> length array"
    and soA: "sorted_under compare (slice array (unat (start A)) (unat (end' A)))"
    and soB: "sorted_under compare (slice array (unat (start B)) (unat (end' B)))"
    and cs: "unat cache_size \<le> length cache"
  shows "\<exists>cache'.
           MergeInPlace array A B compare cache cache_size =
             ret (take (unat (start A)) array
                  @ stable_merge compare (slice array (unat (start A)) (unat (end' A)))
                                         (slice array (unat (start B)) (unat (end' B)))
                  @ drop (unat (end' B)) array, cache') \<and>
           sorted_under compare
             (stable_merge compare (slice array (unat (start A)) (unat (end' A)))
                                   (slice array (unat (start B)) (unat (end' B)))) \<and>
           mset (stable_merge compare (slice array (unat (start A)) (unat (end' A)))
                                      (slice array (unat (start B)) (unat (end' B)))) =
             mset (slice array (unat (start A)) (unat (end' A))) +
             mset (slice array (unat (start B)) (unat (end' B)))"
proof -
  let ?a = "unat (start A)" and ?m = "unat (end' A)" and ?e = "unat (end' B)"
  let ?XA = "slice array ?a ?m" and ?XB = "slice array ?m ?e"
  have am: "?a \<le> ?m" and me: "?m \<le> ?e"
    using sA sB AB by (simp_all add: word_le_nat_alt)
  have lA: "length ?XA = ?m - ?a" and lB: "length ?XB = ?e - ?m"
    using el me by (simp_all add: length_slice)
  have arr: "array = take ?a array @ ?XA @ ?XB @ drop ?e array"
  proof -
    have "?a \<le> ?e" using am me by simp
    then have "array = take ?a array @ slice array ?a ?e @ drop ?e array"
      by (simp only: slice_whole)
    then show ?thesis
      unfolding slice_append [OF am me, of array, symmetric] by simp
  qed
  have uA: "unat (Range_length A) = length ?XA"
    using Range_length_unat [OF am] lA by simp
  have uB: "unat (Range_length B) = length ?XB"
    using Range_length_unat [of B] AB me lB by simp
  have soB': "sorted_under compare ?XB"
    using soB AB by simp
  have rest: "sorted_under compare (stable_merge compare ?XA ?XB) \<and>
              mset (stable_merge compare ?XA ?XB) = mset ?XA + mset ?XB"
    using sorted_stable_merge [OF t soA soB'] mset_stable_merge by blast
  have "\<exists>cache'. MergeInPlace array A B compare cache cache_size =
          ret (take ?a array @ stable_merge compare ?XA ?XB @ drop ?e array, cache')"
  proof (cases "Range_length A = 0 \<or> Range_length B = 0")
    case True
    then have "?XA = [] \<or> ?XB = []"
      using uA uB by (auto simp add: unat_eq_0 [symmetric] simp del: unat_eq_0)
    then have "stable_merge compare ?XA ?XB = ?XA @ ?XB"
      by auto
    then have "take ?a array @ stable_merge compare ?XA ?XB @ drop ?e array = array"
      using arr by simp
    then show ?thesis
      using True by (simp add: MergeInPlace_def)
  next
    case False
    then have "unat (Range_length A) \<noteq> 0" "unat (Range_length B) \<noteq> 0"
      by (simp_all add: unat_eq_0)
    then have ne: "?XA \<noteq> []" "?XB \<noteq> []"
      unfolding uA uB by simp_all
    have 1: "unat (start A) = length (take ?a array)"
      using am me el by simp
    have 2: "unat (end' A) = length (take ?a array) + length ?XA"
      using am me el lA by simp
    have 3: "unat (end' B) = length (take ?a array) + length ?XA + length ?XB"
      using am me el lA lB by simp
    show ?thesis
      using MergeInPlace_loop_ok [OF t cs arr 1 2 AB [symmetric] 3 ne soA soB'] False
      by (auto simp add: MergeInPlace_def)
  qed
  then show ?thesis
    using rest AB by simp
qed

theorem MergeInPlace_merges_stably_witness:
  "\<exists>cache'. MergeInPlace
       ([(9, 0), (1, 1), (3, 2), (5, 3), (2, 4), (3, 5), (4, 6), (0, 7)] :: (nat \<times> nat) list)
       (Range_new 1 4) (Range_new 4 7) (\<lambda>a b. int (fst a) - int (fst b)) [] 0 =
     ret ([(9, 0), (1, 1), (2, 4), (3, 2), (3, 5), (4, 6), (5, 3), (0, 7)], cache')"
proof -
  have t: "total_order_semantics (\<lambda>a b :: nat \<times> nat. int (fst a) - int (fst b))"
    by (auto simp: total_order_semantics_def)
  show ?thesis
    using MergeInPlace_merges_stably [OF t, of "Range_new 1 4" "Range_new 4 7"
        "[(9, 0), (1, 1), (3, 2), (5, 3), (2, 4), (3, 5), (4, 6), (0, 7)]" 0 "[]"]
    by (simp add: Range_new_def slice_def sorted_under_def)
qed

lemma slice_update_out:
  "p < s \<or> e \<le> p \<Longrightarrow> slice (xs[p := v]) s e = slice xs s e"
proof (cases "p < s")
  case True
  then show ?thesis by (simp add: slice_def)
next
  case False
  assume "p < s \<or> e \<le> p"
  then have "e - s \<le> p - s" using False by arith
  then show ?thesis
    using False by (simp add: slice_def drop_update_swap)
qed

lemma slice_update2_out:
  "p < s \<or> e \<le> p \<Longrightarrow> q < s \<or> e \<le> q \<Longrightarrow> slice (xs[p := v, q := w]) s e = slice xs s e"
  by (simp only: slice_update_out)

lemma slice_snoc:
  "s \<le> e \<Longrightarrow> e < length xs \<Longrightarrow> slice xs s (Suc e) = slice xs s e @ [xs ! e]"
  by (simp add: slice_def Suc_diff_le take_Suc_conv_app_nth)

lemma slice_cons:
  "s < e \<Longrightarrow> e \<le> length xs \<Longrightarrow> slice xs s e = xs ! s # slice xs (Suc s) e"
proof -
  assume a: "s < e" "e \<le> length xs"
  then have "drop s xs = xs ! s # drop (Suc s) xs"
    by (simp add: Cons_nth_drop_Suc)
  moreover have "e - s = Suc (e - Suc s)"
    using a by arith
  ultimately show ?thesis
    by (simp add: slice_def)
qed

lemma slice_empty [simp]: "slice xs s s = []"
  by (simp add: slice_def)

lemma slice_eqI:
  assumes "length xs = length ys" and "e \<le> length xs"
    and "\<And>p. s \<le> p \<Longrightarrow> p < e \<Longrightarrow> xs ! p = ys ! p"
  shows "slice xs s e = slice ys s e"
proof (rule nth_equalityI)
  show "length (slice xs s e) = length (slice ys s e)"
    using assms(1) by (simp add: slice_def)
next
  fix i assume "i < length (slice xs s e)"
  then have i: "i < e - s" by (simp add: slice_def)
  then have "slice xs s e ! i = xs ! (s + i)" "slice ys s e ! i = ys ! (s + i)"
    using assms(1,2) by (simp_all add: nth_slice)
  then show "slice xs s e ! i = slice ys s e ! i"
    using assms(3) [of "s + i"] i by simp
qed

lemma stable_merge_drop_left:
  assumes "i < length xs" and "j < length ys" and "\<not> compare (ys ! j) (xs ! i) < 0"
  shows "stable_merge compare (drop i xs) (drop j ys) =
         xs ! i # stable_merge compare (drop (Suc i) xs) (drop j ys)"
proof -
  have "drop i xs = xs ! i # drop (Suc i) xs" "drop j ys = ys ! j # drop (Suc j) ys"
    using assms by (simp_all add: Cons_nth_drop_Suc)
  then show ?thesis using assms(3) by simp
qed

lemma stable_merge_drop_right:
  assumes "i < length xs" and "j < length ys" and "compare (ys ! j) (xs ! i) < 0"
  shows "stable_merge compare (drop i xs) (drop j ys) =
         ys ! j # stable_merge compare (drop i xs) (drop (Suc j) ys)"
proof -
  have "drop i xs = xs ! i # drop (Suc i) xs" "drop j ys = ys ! j # drop (Suc j) ys"
    using assms by (simp_all add: Cons_nth_drop_Suc)
  then show ?thesis using assms(3) by simp
qed

lemma MergeInternal_inv_init:
  "MergeInternal_inv compare arr0 arr0 a la lb u 0 0"
  by (simp add: MergeInternal_inv_def)

lemma MergeInternal_inv_stepA:
  assumes inv: "MergeInternal_inv compare arr0 arr a la lb u i j"
    and g1: "a + la + lb \<le> length arr0" and g2: "u + la \<le> length arr0"
    and g3: "u + la \<le> a \<or> a + la + lb \<le> u"
    and i: "i < la" and j: "j < lb"
    and c: "\<not> compare (arr ! (a + la + j)) (arr ! (u + i)) < 0"
  shows "MergeInternal_inv compare arr0 (arr[a + i + j := arr ! (u + i), u + i := arr ! (a + i + j)])
           a la lb u (Suc i) j"
proof -
  let ?SA = "slice arr0 u (u + la)" and ?SB = "slice arr0 (a + la) (a + la + lb)"
  let ?arr' = "arr[a + i + j := arr ! (u + i), u + i := arr ! (a + i + j)]"
  have len: "length arr = length arr0"
    and agree: "\<And>p. p < length arr \<Longrightarrow> \<not> (a \<le> p \<and> p < a + la + j) \<Longrightarrow> \<not> (u \<le> p \<and> p < u + i) \<Longrightarrow>
                 arr ! p = arr0 ! p"
    and mrg: "slice arr a (a + i + j) @ stable_merge compare (drop i ?SA) (drop j ?SB) =
                stable_merge compare ?SA ?SB"
    and ms: "mset (slice arr (a + i + j) (a + la + j)) + mset (slice arr u (u + i)) =
               mset (slice arr0 a (a + la))"
    using inv unfolding MergeInternal_inv_def by blast+
  have lSA: "length ?SA = la" and lSB: "length ?SB = lb"
    using g1 g2 by (simp_all add: length_slice)
  have ne: "u + i \<noteq> a + i + j"
    using g3 i j by arith
  have bi: "arr ! (u + i) = ?SA ! i"
  proof -
    have "arr ! (u + i) = arr0 ! (u + i)"
      using g2 g3 i j len by (intro agree) arith+
    then show ?thesis using i g2 by (simp add: nth_slice)
  qed
  have bj: "arr ! (a + la + j) = ?SB ! j"
  proof -
    have "arr ! (a + la + j) = arr0 ! (a + la + j)"
      using g1 g3 i j len by (intro agree) arith+
    then show ?thesis using j g1 by (simp add: nth_slice)
  qed
  have m: "stable_merge compare (drop i ?SA) (drop j ?SB) =
           arr ! (u + i) # stable_merge compare (drop (Suc i) ?SA) (drop j ?SB)"
    using stable_merge_drop_left [of i ?SA j ?SB compare] c i j lSA lSB bi bj by simp
  have 1: "length ?arr' = length arr0"
    using len by simp
  have 2: "?arr' ! p = arr0 ! p"
    if "p < length ?arr'" "\<not> (a \<le> p \<and> p < a + la + j)" "\<not> (u \<le> p \<and> p < u + Suc i)" for p
  proof -
    have "p \<noteq> a + i + j" "p \<noteq> u + i"
      using that i by arith+
    then have "?arr' ! p = arr ! p" by simp
    moreover have "arr ! p = arr0 ! p"
      using that by (intro agree) auto
    ultimately show ?thesis by simp
  qed
  have s1: "slice ?arr' a (Suc (a + i + j)) = slice arr a (a + i + j) @ [arr ! (u + i)]"
  proof -
    have "a + i + j < length ?arr'"
      using 1 g1 i j by simp
    then have "slice ?arr' a (Suc (a + i + j)) = slice ?arr' a (a + i + j) @ [?arr' ! (a + i + j)]"
      by (intro slice_snoc) simp_all
    moreover have "?arr' ! (a + i + j) = arr ! (u + i)"
      using ne len g1 i j by simp
    moreover have "slice ?arr' a (a + i + j) = slice arr a (a + i + j)"
      by (insert g3 i j, intro slice_update2_out; arith)
    ultimately show ?thesis by simp
  qed
  have 3: "slice ?arr' a (a + Suc i + j) @ stable_merge compare (drop (Suc i) ?SA) (drop j ?SB) =
             stable_merge compare ?SA ?SB"
    using s1 m mrg by simp
  have s2: "slice ?arr' (Suc (a + i + j)) (a + la + j) = slice arr (Suc (a + i + j)) (a + la + j)"
    by (insert g3 i j, intro slice_update2_out; arith)
  have s3: "slice ?arr' u (Suc (u + i)) = slice arr u (u + i) @ [arr ! (a + i + j)]"
  proof -
    have "u + i < length ?arr'"
      using 1 g2 i by simp
    then have "slice ?arr' u (Suc (u + i)) = slice ?arr' u (u + i) @ [?arr' ! (u + i)]"
      by (intro slice_snoc) simp_all
    moreover have "?arr' ! (u + i) = arr ! (a + i + j)"
      using len g2 i by simp
    moreover have "slice ?arr' u (u + i) = slice arr u (u + i)"
      by (insert g3 i j, intro slice_update2_out; arith)
    ultimately show ?thesis by simp
  qed
  have s4: "slice arr (a + i + j) (a + la + j) = arr ! (a + i + j) # slice arr (Suc (a + i + j)) (a + la + j)"
    using i j g1 len by (intro slice_cons) simp_all
  have 4: "mset (slice ?arr' (a + Suc i + j) (a + la + j)) + mset (slice ?arr' u (u + Suc i)) =
             mset (slice arr0 a (a + la))"
    using ms s2 s3 s4 by simp
  show ?thesis
    unfolding MergeInternal_inv_def using 1 2 3 4 by blast
qed

lemma MergeInternal_inv_stepB:
  assumes inv: "MergeInternal_inv compare arr0 arr a la lb u i j"
    and g1: "a + la + lb \<le> length arr0" and g2: "u + la \<le> length arr0"
    and g3: "u + la \<le> a \<or> a + la + lb \<le> u"
    and i: "i < la" and j: "j < lb"
    and c: "compare (arr ! (a + la + j)) (arr ! (u + i)) < 0"
  shows "MergeInternal_inv compare arr0
           (arr[a + i + j := arr ! (a + la + j), a + la + j := arr ! (a + i + j)])
           a la lb u i (Suc j)"
proof -
  let ?SA = "slice arr0 u (u + la)" and ?SB = "slice arr0 (a + la) (a + la + lb)"
  let ?arr' = "arr[a + i + j := arr ! (a + la + j), a + la + j := arr ! (a + i + j)]"
  have len: "length arr = length arr0"
    and agree: "\<And>p. p < length arr \<Longrightarrow> \<not> (a \<le> p \<and> p < a + la + j) \<Longrightarrow> \<not> (u \<le> p \<and> p < u + i) \<Longrightarrow>
                 arr ! p = arr0 ! p"
    and mrg: "slice arr a (a + i + j) @ stable_merge compare (drop i ?SA) (drop j ?SB) =
                stable_merge compare ?SA ?SB"
    and ms: "mset (slice arr (a + i + j) (a + la + j)) + mset (slice arr u (u + i)) =
               mset (slice arr0 a (a + la))"
    using inv unfolding MergeInternal_inv_def by blast+
  have lSA: "length ?SA = la" and lSB: "length ?SB = lb"
    using g1 g2 by (simp_all add: length_slice)
  have ne: "a + la + j \<noteq> a + i + j"
    using i by arith
  have bi: "arr ! (u + i) = ?SA ! i"
  proof -
    have "arr ! (u + i) = arr0 ! (u + i)"
      using g2 g3 i j len by (intro agree) arith+
    then show ?thesis using i g2 by (simp add: nth_slice)
  qed
  have bj: "arr ! (a + la + j) = ?SB ! j"
  proof -
    have "arr ! (a + la + j) = arr0 ! (a + la + j)"
      using g1 g3 i j len by (intro agree) arith+
    then show ?thesis using j g1 by (simp add: nth_slice)
  qed
  have m: "stable_merge compare (drop i ?SA) (drop j ?SB) =
           arr ! (a + la + j) # stable_merge compare (drop i ?SA) (drop (Suc j) ?SB)"
    using stable_merge_drop_right [of i ?SA j ?SB compare] c i j lSA lSB bi bj by simp
  have 1: "length ?arr' = length arr0"
    using len by simp
  have 2: "?arr' ! p = arr0 ! p"
    if "p < length ?arr'" "\<not> (a \<le> p \<and> p < a + la + Suc j)" "\<not> (u \<le> p \<and> p < u + i)" for p
  proof -
    have "p \<noteq> a + i + j" "p \<noteq> a + la + j"
      using that i by arith+
    then have "?arr' ! p = arr ! p" by simp
    moreover have "arr ! p = arr0 ! p"
      using that by (intro agree) auto
    ultimately show ?thesis by simp
  qed
  have s1: "slice ?arr' a (Suc (a + i + j)) = slice arr a (a + i + j) @ [arr ! (a + la + j)]"
  proof -
    have "a + i + j < length ?arr'"
      using 1 g1 i j by simp
    then have "slice ?arr' a (Suc (a + i + j)) = slice ?arr' a (a + i + j) @ [?arr' ! (a + i + j)]"
      by (intro slice_snoc) simp_all
    moreover have "?arr' ! (a + i + j) = arr ! (a + la + j)"
      using ne len g1 i j by simp
    moreover have "slice ?arr' a (a + i + j) = slice arr a (a + i + j)"
      by (insert g3 i j, intro slice_update2_out; arith)
    ultimately show ?thesis by simp
  qed
  have 3: "slice ?arr' a (a + i + Suc j) @ stable_merge compare (drop i ?SA) (drop (Suc j) ?SB) =
             stable_merge compare ?SA ?SB"
    using s1 m mrg by simp
  have s2: "slice ?arr' (Suc (a + i + j)) (Suc (a + la + j)) =
              slice arr (Suc (a + i + j)) (a + la + j) @ [arr ! (a + i + j)]"
  proof -
    have "a + la + j < length ?arr'"
      using 1 g1 j by simp
    moreover have "Suc (a + i + j) \<le> a + la + j"
      using i by simp
    ultimately have "slice ?arr' (Suc (a + i + j)) (Suc (a + la + j)) =
        slice ?arr' (Suc (a + i + j)) (a + la + j) @ [?arr' ! (a + la + j)]"
      by (intro slice_snoc)
    moreover have "?arr' ! (a + la + j) = arr ! (a + i + j)"
      using len g1 j by simp
    moreover have "slice ?arr' (Suc (a + i + j)) (a + la + j) = slice arr (Suc (a + i + j)) (a + la + j)"
      by (insert g3 i j, intro slice_update2_out; arith)
    ultimately show ?thesis by simp
  qed
  have s3: "slice ?arr' u (u + i) = slice arr u (u + i)"
    by (insert g3 i j, intro slice_update2_out; arith)
  have s4: "slice arr (a + i + j) (a + la + j) = arr ! (a + i + j) # slice arr (Suc (a + i + j)) (a + la + j)"
    using i j g1 len by (intro slice_cons) simp_all
  have 4: "mset (slice ?arr' (a + i + Suc j) (a + la + Suc j)) + mset (slice ?arr' u (u + i)) =
             mset (slice arr0 a (a + la))"
    using ms s2 s3 s4 by simp
  show ?thesis
    unfolding MergeInternal_inv_def using 1 2 3 4 by blast
qed

lemma MergeInternal_loop_ok:
  assumes a: "unat (start A) = a" and la: "unat (Range_length A) = la"
    and b: "unat (start B) = a + la" and lb: "unat (Range_length B) = lb"
    and u: "unat (start buffer) = u"
    and g1: "a + la + lb \<le> length arr0" and g2: "u + la \<le> length arr0"
    and g3: "u + la \<le> a \<or> a + la + lb \<le> u"
    and w1: "a + la + lb < 2 ^ 64" and w2: "u + la < 2 ^ 64"
    and i: "unat A_count < la" and j: "unat B_count < lb"
    and k: "unat insert0 = unat A_count + unat B_count"
    and inv: "MergeInternal_inv compare arr0 arr a la lb u (unat A_count) (unat B_count)"
  shows "\<exists>arr' Ac ins.
           MergeInternal_loop arr A B compare buffer A_count B_count insert0 = ret (arr', Ac, ins) \<and>
           unat Ac \<le> la \<and> unat Ac \<le> unat ins \<and> unat ins - unat Ac \<le> lb \<and>
           (unat Ac = la \<or> unat ins - unat Ac = lb) \<and>
           MergeInternal_inv compare arr0 arr' a la lb u (unat Ac) (unat ins - unat Ac)"
  using i j k inv
proof (induction "la + lb - (unat A_count + unat B_count)" arbitrary: arr A_count B_count insert0
    rule: less_induct)
  case less
  note i = less.prems(1) and j = less.prems(2) and k = less.prems(3) and inv = less.prems(4)
  let ?i = "unat A_count" and ?j = "unat B_count"
  have len: "length arr = length arr0"
    using inv by (simp add: MergeInternal_inv_def)
  have uB: "unat (start B + B_count) = a + la + ?j"
    using unat_add_lt [of "start B" B_count] b j w1 by simp
  have uU: "unat (start buffer + A_count) = u + ?i"
    using unat_add_lt [of "start buffer" A_count] u i w2 by simp
  have uI: "unat (start A + insert0) = a + ?i + ?j"
    using unat_add_lt [of "start A" insert0] a k i j w1 by simp
  have uA1: "unat (A_count + 1) = ?i + 1"
    using unat_add_lt [of A_count 1] i w2 by simp
  have uB1: "unat (B_count + 1) = ?j + 1"
    using unat_add_lt [of B_count 1] j w1 by simp
  have uI1: "unat (insert0 + 1) = ?i + ?j + 1"
    using unat_add_lt [of insert0 1] k i j w1 by simp
  have inB: "a + la + ?j < length arr" and inU: "u + ?i < length arr" and inI: "a + ?i + ?j < length arr"
    using len g1 g2 i j by simp_all
  have cmp: "compare_at compare arr (start B + B_count) (start buffer + A_count) =
               ret (compare (arr ! (a + la + ?j)) (arr ! (u + ?i)))"
    using compare_at_ok [of "start B + B_count" arr "start buffer + A_count" compare] inB inU
    unfolding uB uU by simp
  show ?case
  proof (cases "compare (arr ! (a + la + ?j)) (arr ! (u + ?i)) \<ge> 0")
    case True
    let ?arr' = "arr[a + ?i + ?j := arr ! (u + ?i), u + ?i := arr ! (a + ?i + ?j)]"
    have sw: "Swap arr (start A + insert0) (start buffer + A_count) = ret ?arr'"
      using Swap_ok [of "start A + insert0" arr "start buffer + A_count"] inI inU
      unfolding uI uU by simp
    have inv': "MergeInternal_inv compare arr0 ?arr' a la lb u (unat (A_count + 1)) ?j"
      unfolding uA1 using MergeInternal_inv_stepA [OF inv g1 g2 g3 i j] True by simp
    have d: "unat (insert0 + 1) - unat (A_count + 1) = ?j"
      unfolding uI1 uA1 by simp
    show ?thesis
    proof (cases "A_count + 1 \<ge> Range_length A")
      case stop: True
      then have "unat (A_count + 1) = la"
        using i la uA1 by (simp add: word_le_nat_alt)
      then show ?thesis
        using inv' d j uI1 uA1
        by (subst MergeInternal_loop.simps) (simp add: cmp True sw stop)
    next
      case go: False
      then have i': "unat (A_count + 1) < la"
        using la by (simp add: word_le_nat_alt)
      have "la + lb - (unat (A_count + 1) + ?j) < la + lb - (?i + ?j)"
        using i j uA1 by arith
      moreover have "unat (insert0 + 1) = unat (A_count + 1) + ?j"
        unfolding uI1 uA1 by simp
      ultimately have "\<exists>arr' Ac ins.
           MergeInternal_loop ?arr' A B compare buffer (A_count + 1) B_count (insert0 + 1) =
             ret (arr', Ac, ins) \<and>
           unat Ac \<le> la \<and> unat Ac \<le> unat ins \<and> unat ins - unat Ac \<le> lb \<and>
           (unat Ac = la \<or> unat ins - unat Ac = lb) \<and>
           MergeInternal_inv compare arr0 arr' a la lb u (unat Ac) (unat ins - unat Ac)"
        using less.hyps [of "A_count + 1" B_count "insert0 + 1" ?arr'] i' j inv' by blast
      then show ?thesis
        by (subst MergeInternal_loop.simps) (simp add: cmp True sw go)
    qed
  next
    case False
    let ?arr' = "arr[a + ?i + ?j := arr ! (a + la + ?j), a + la + ?j := arr ! (a + ?i + ?j)]"
    have sw: "Swap arr (start A + insert0) (start B + B_count) = ret ?arr'"
      using Swap_ok [of "start A + insert0" arr "start B + B_count"] inI inB
      unfolding uI uB by simp
    have inv': "MergeInternal_inv compare arr0 ?arr' a la lb u ?i (unat (B_count + 1))"
      unfolding uB1 using MergeInternal_inv_stepB [OF inv g1 g2 g3 i j] False by simp
    have d: "unat (insert0 + 1) - ?i = unat (B_count + 1)"
      unfolding uI1 uB1 by simp
    show ?thesis
    proof (cases "B_count + 1 \<ge> Range_length B")
      case stop: True
      then have "unat (B_count + 1) = lb"
        using j lb uB1 by (simp add: word_le_nat_alt)
      then show ?thesis
        using inv' d i uI1 uB1
        by (subst MergeInternal_loop.simps) (simp add: cmp False sw stop)
    next
      case go: False
      then have j': "unat (B_count + 1) < lb"
        using lb by (simp add: word_le_nat_alt)
      have "la + lb - (?i + unat (B_count + 1)) < la + lb - (?i + ?j)"
        using i j uB1 by arith
      moreover have "unat (insert0 + 1) = ?i + unat (B_count + 1)"
        unfolding uI1 uB1 by simp
      ultimately have "\<exists>arr' Ac ins.
           MergeInternal_loop ?arr' A B compare buffer A_count (B_count + 1) (insert0 + 1) =
             ret (arr', Ac, ins) \<and>
           unat Ac \<le> la \<and> unat Ac \<le> unat ins \<and> unat ins - unat Ac \<le> lb \<and>
           (unat Ac = la \<or> unat ins - unat Ac = lb) \<and>
           MergeInternal_inv compare arr0 arr' a la lb u (unat Ac) (unat ins - unat Ac)"
        using less.hyps [of A_count "B_count + 1" "insert0 + 1" ?arr'] i j' inv' by blast
      then show ?thesis
        by (subst MergeInternal_loop.simps) (simp add: cmp False sw go)
    qed
  qed
qed

lemma length_exchange [simp]: "length (exchange s1 s2 k xs) = length xs"
  by (simp add: exchange_def)

lemma nth_exchange:
  "p < length xs \<Longrightarrow> exchange s1 s2 k xs ! p =
     (if s1 \<le> p \<and> p < s1 + k then xs ! (s2 + (p - s1))
      else if s2 \<le> p \<and> p < s2 + k then xs ! (s1 + (p - s2))
      else xs ! p)"
  by (simp add: exchange_def)

lemma exchange_0 [simp]: "exchange s1 s2 0 xs = xs"
  by (rule nth_equalityI) (auto simp add: nth_exchange)

lemma exchange_step:
  assumes "s1 + k < length xs" and "s2 + k < length xs"
    and "s1 + Suc k \<le> s2 \<or> s2 + Suc k \<le> s1"
  shows "(exchange s1 s2 k xs)[s1 + k := exchange s1 s2 k xs ! (s2 + k),
                                s2 + k := exchange s1 s2 k xs ! (s1 + k)] =
         exchange s1 s2 (Suc k) xs"
    (is "?l = ?r")
proof (rule nth_equalityI)
  show "length ?l = length ?r" by simp
next
  fix p assume "p < length ?l"
  then have p: "p < length xs" by simp
  have e1: "exchange s1 s2 k xs ! (s2 + k) = xs ! (s2 + k)"
    using assms by (auto simp add: nth_exchange)
  have e2: "exchange s1 s2 k xs ! (s1 + k) = xs ! (s1 + k)"
    using assms by (auto simp add: nth_exchange)
  have ne: "s1 + k \<noteq> s2 + k"
    using assms(3) by arith
  consider "p = s1 + k" | "p = s2 + k" | "p \<noteq> s1 + k" "p \<noteq> s2 + k" by blast
  then show "?l ! p = ?r ! p"
  proof cases
    case 1
    then have "?l ! p = xs ! (s2 + k)"
      using assms(1,2) ne e1 by (simp add: nth_list_update)
    moreover have "?r ! p = xs ! (s2 + k)"
      using 1 p by (auto simp add: nth_exchange)
    ultimately show ?thesis by simp
  next
    case 2
    then have "?l ! p = xs ! (s1 + k)"
      using assms(1,2) ne e2 by (simp add: nth_list_update)
    moreover have "?r ! p = xs ! (s1 + k)"
      using 2 p assms(3) by (auto simp add: nth_exchange)
    ultimately show ?thesis by simp
  next
    case 3
    then have "?l ! p = exchange s1 s2 k xs ! p"
      by simp
    moreover have "exchange s1 s2 k xs ! p = ?r ! p"
      using 3 p by (auto simp add: nth_exchange)
    ultimately show ?thesis by simp
  qed
qed

lemma BlockSwap_loop_ok:
  assumes s1: "unat start1 = s1" and s2: "unat start2 = s2" and n: "unat block_size = n"
    and g1: "s1 + n \<le> length xs" and g2: "s2 + n \<le> length xs"
    and g3: "s1 + n \<le> s2 \<or> s2 + n \<le> s1"
    and w1: "s1 + n < 2 ^ 64" and w2: "s2 + n < 2 ^ 64"
    and k: "unat index \<le> n"
  shows "BlockSwap_loop (exchange s1 s2 (unat index) xs) start1 start2 block_size index =
           ret (exchange s1 s2 n xs)"
  using k
proof (induction "n - unat index" arbitrary: index rule: less_induct)
  case less
  let ?k = "unat index"
  show ?case
  proof (cases "index < block_size")
    case False
    then have "?k = n"
      using less.prems n by (simp add: word_less_nat_alt)
    then show ?thesis
      using False by (subst BlockSwap_loop.simps) simp
  next
    case True
    then have kn: "?k < n"
      using n by (simp add: word_less_nat_alt)
    have u1: "unat (start1 + index) = s1 + ?k"
      using unat_add_lt [of start1 index] s1 kn w1 by simp
    have u2: "unat (start2 + index) = s2 + ?k"
      using unat_add_lt [of start2 index] s2 kn w2 by simp
    have uk: "unat (index + 1) = Suc ?k"
      using unat_add_lt [of index 1] kn w1 by simp
    have in1: "s1 + ?k < length xs" and in2: "s2 + ?k < length xs"
      using kn g1 g2 by simp_all
    have dj: "s1 + Suc ?k \<le> s2 \<or> s2 + Suc ?k \<le> s1"
      using kn g3 by arith
    have sw: "Swap (exchange s1 s2 ?k xs) (start1 + index) (start2 + index) =
                ret (exchange s1 s2 (unat (index + 1)) xs)"
      using Swap_ok [of "start1 + index" "exchange s1 s2 ?k xs" "start2 + index"] in1 in2
      unfolding u1 u2 uk exchange_step [OF in1 in2 dj, symmetric] by simp
    have "BlockSwap_loop (exchange s1 s2 (unat (index + 1)) xs) start1 start2 block_size (index + 1) =
            ret (exchange s1 s2 n xs)"
      using less.hyps [of "index + 1"] kn uk by simp
    then show ?thesis
      using True by (subst BlockSwap_loop.simps) (simp add: sw)
  qed
qed

lemma BlockSwap_ok:
  assumes "unat start1 = s1" and "unat start2 = s2" and "unat block_size = n"
    and "s1 + n \<le> length xs" and "s2 + n \<le> length xs"
    and "s1 + n \<le> s2 \<or> s2 + n \<le> s1"
    and "s1 + n < 2 ^ 64" and "s2 + n < 2 ^ 64"
  shows "BlockSwap xs start1 start2 block_size = ret (exchange s1 s2 n xs)"
  using BlockSwap_loop_ok [OF assms, of 0] by (simp add: BlockSwap_def)

lemma drop_slice: "drop j (slice xs s e) = slice xs (s + j) e"
  by (simp add: slice_def drop_take add.commute)

lemma slice_shift_eqI:
  assumes "e1 - s1 = e2 - s2" and "e1 \<le> length xs" and "e2 \<le> length ys"
    and "\<And>q. q < e1 - s1 \<Longrightarrow> xs ! (s1 + q) = ys ! (s2 + q)"
  shows "slice xs s1 e1 = slice ys s2 e2"
proof (rule nth_equalityI)
  show "length (slice xs s1 e1) = length (slice ys s2 e2)"
    using assms(1-3) by (simp add: length_slice)
next
  fix q assume "q < length (slice xs s1 e1)"
  then have q: "q < e1 - s1" using assms(2) by (simp add: length_slice)
  then have "slice xs s1 e1 ! q = xs ! (s1 + q)" "slice ys s2 e2 ! q = ys ! (s2 + q)"
    using assms(1-3) by (simp_all add: nth_slice)
  then show "slice xs s1 e1 ! q = slice ys s2 e2 ! q"
    using assms(4) [OF q] by simp
qed

lemma MergeInternal_final:
  assumes inv: "MergeInternal_inv compare arr0 arr a la lb u i j"
    and g1: "a + la + lb \<le> length arr0" and g2: "u + la \<le> length arr0"
    and g3: "u + la \<le> a \<or> a + la + lb \<le> u"
    and i: "i \<le> la" and j: "j \<le> lb" and stop: "i = la \<or> j = lb"
  shows "length (exchange (u + i) (a + i + j) (la - i) arr) = length arr0 \<and>
         slice (exchange (u + i) (a + i + j) (la - i) arr) a (a + la + lb) =
           stable_merge compare (slice arr0 u (u + la)) (slice arr0 (a + la) (a + la + lb)) \<and>
         mset (slice (exchange (u + i) (a + i + j) (la - i) arr) u (u + la)) =
           mset (slice arr0 a (a + la)) \<and>
         (\<forall>p<length arr0. \<not> (a \<le> p \<and> p < a + la + lb) \<and> \<not> (u \<le> p \<and> p < u + la) \<longrightarrow>
            exchange (u + i) (a + i + j) (la - i) arr ! p = arr0 ! p)"
proof -
  let ?SA = "slice arr0 u (u + la)" and ?SB = "slice arr0 (a + la) (a + la + lb)"
  let ?F = "exchange (u + i) (a + i + j) (la - i) arr"
  have len: "length arr = length arr0"
    and agree: "\<And>p. p < length arr \<Longrightarrow> \<not> (a \<le> p \<and> p < a + la + j) \<Longrightarrow> \<not> (u \<le> p \<and> p < u + i) \<Longrightarrow>
                 arr ! p = arr0 ! p"
    and mrg: "slice arr a (a + i + j) @ stable_merge compare (drop i ?SA) (drop j ?SB) =
                stable_merge compare ?SA ?SB"
    and ms: "mset (slice arr (a + i + j) (a + la + j)) + mset (slice arr u (u + i)) =
               mset (slice arr0 a (a + la))"
    using inv unfolding MergeInternal_inv_def by blast+
  have lSA: "length ?SA = la" and lSB: "length ?SB = lb"
    using g1 g2 by (simp_all add: length_slice)
  have 1: "length ?F = length arr0"
    using len by simp
  have 4: "?F ! p = arr0 ! p"
    if "p < length arr0" "\<not> (a \<le> p \<and> p < a + la + lb)" "\<not> (u \<le> p \<and> p < u + la)" for p
  proof -
    have "?F ! p = arr ! p"
      using that len i j stop by (auto simp add: nth_exchange)
    moreover have "arr ! p = arr0 ! p"
      using that len i j by (intro agree) auto
    ultimately show ?thesis by simp
  qed
  show ?thesis
  proof (cases "i = la")
    case True
    then have F: "?F = arr" by simp
    have "slice arr (a + la + j) (a + la + lb) = slice arr0 (a + la + j) (a + la + lb)"
      using len g1 g3 True by (intro slice_eqI agree) auto
    then have "slice arr (a + la + j) (a + la + lb) = drop j ?SB"
      by (simp add: drop_slice)
    moreover have "stable_merge compare (drop i ?SA) (drop j ?SB) = drop j ?SB"
      using True lSA by simp
    moreover have "slice arr a (a + la + j) @ slice arr (a + la + j) (a + la + lb) =
                   slice arr a (a + la + lb)"
      using j by (intro slice_append) simp_all
    ultimately have 2: "slice arr a (a + la + lb) = stable_merge compare ?SA ?SB"
      using mrg True by simp
    have 3: "mset (slice arr u (u + la)) = mset (slice arr0 a (a + la))"
      using ms True by simp
    show ?thesis
      unfolding F using 1 2 3 4 len F by metis
  next
    case False
    then have jl: "j = lb" and il: "i < la"
      using stop i by auto
    have dSB: "drop j ?SB = []"
      using jl lSB by simp
    have inF: "a + la + lb \<le> length ?F" "u + la \<le> length ?F" "a + la + lb \<le> length arr"
      "u + la \<le> length arr"
      using 1 g1 g2 len by simp_all
    have p1: "slice ?F a (a + i + lb) = slice arr a (a + i + lb)"
    proof (rule slice_eqI)
      show "length ?F = length arr" by simp
      show "a + i + lb \<le> length ?F" using inF il by simp
      fix p assume "a \<le> p" "p < a + i + lb"
      then show "?F ! p = arr ! p"
        using inF il g3 jl by (auto simp add: nth_exchange)
    qed
    have p2: "slice ?F (a + i + lb) (a + la + lb) = slice arr (u + i) (u + la)"
    proof (rule slice_shift_eqI)
      show "a + la + lb - (a + i + lb) = u + la - (u + i)" by simp
      show "a + la + lb \<le> length ?F" by (rule inF)
      show "u + la \<le> length arr" by (rule inF)
      fix q assume q: "q < a + la + lb - (a + i + lb)"
      then have "a + i + lb + q < length arr"
        using inF by arith
      then show "?F ! (a + i + lb + q) = arr ! (u + i + q)"
        using q g3 jl il by (auto simp add: nth_exchange)
    qed
    have p3: "slice arr (u + i) (u + la) = drop i ?SA"
    proof -
      have "slice arr (u + i) (u + la) = slice arr0 (u + i) (u + la)"
        using len g2 g3 il jl by (intro slice_eqI agree) auto
      then show ?thesis by (simp add: drop_slice)
    qed
    have "slice ?F a (a + i + lb) @ slice ?F (a + i + lb) (a + la + lb) = slice ?F a (a + la + lb)"
      using il by (intro slice_append) simp_all
    then have 2: "slice ?F a (a + la + lb) = stable_merge compare ?SA ?SB"
      using p1 p2 p3 mrg dSB jl by simp
    have q1: "slice ?F u (u + i) = slice arr u (u + i)"
    proof (rule slice_eqI)
      show "length ?F = length arr" by simp
      show "u + i \<le> length ?F" using inF il by simp
      fix p assume "u \<le> p" "p < u + i"
      then show "?F ! p = arr ! p"
        using inF il g3 jl by (auto simp add: nth_exchange)
    qed
    have q2: "slice ?F (u + i) (u + la) = slice arr (a + i + lb) (a + la + lb)"
    proof (rule slice_shift_eqI)
      show "u + la - (u + i) = a + la + lb - (a + i + lb)" by simp
      show "u + la \<le> length ?F" by (rule inF)
      show "a + la + lb \<le> length arr" by (rule inF)
      fix q assume q: "q < u + la - (u + i)"
      then have "u + i + q < length arr"
        using inF by arith
      then show "?F ! (u + i + q) = arr ! (a + i + lb + q)"
        using q g3 jl il by (auto simp add: nth_exchange)
    qed
    have "slice ?F u (u + i) @ slice ?F (u + i) (u + la) = slice ?F u (u + la)"
      using il by (intro slice_append) simp_all
    then have "mset (slice ?F u (u + la)) =
               mset (slice arr u (u + i)) + mset (slice arr (a + i + lb) (a + la + lb))"
      using q1 q2 by (metis mset_append)
    then have 3: "mset (slice ?F u (u + la)) = mset (slice arr0 a (a + la))"
      using ms jl by (simp add: add.commute)
    show ?thesis
      using 1 2 3 4 by blast
  qed
qed

lemma MergeInternal_ok:
  assumes sA: "start A \<le> end' A" and AB: "end' A = start B" and sB: "start B \<le> end' B"
    and eB: "unat (end' B) \<le> length array"
    and sU: "start buffer \<le> end' buffer" and eU: "unat (end' buffer) \<le> length array"
    and lU: "Range_length A \<le> Range_length buffer"
    and dj: "{unat (start buffer)..<unat (end' buffer)} \<inter> {unat (start A)..<unat (end' B)} = {}"
  shows "\<exists>array'.
           MergeInternal array A B compare buffer = ret array' \<and>
           length array' = length array \<and>
           slice array' (unat (start A)) (unat (end' B)) =
             stable_merge compare
               (slice array (unat (start buffer)) (unat (start buffer) + unat (Range_length A)))
               (slice array (unat (start B)) (unat (end' B))) \<and>
           mset (slice array' (unat (start buffer)) (unat (start buffer) + unat (Range_length A))) =
             mset (slice array (unat (start A)) (unat (end' A))) \<and>
           (\<forall>p<length array.
              \<not> (unat (start A) \<le> p \<and> p < unat (end' B)) \<and>
              \<not> (unat (start buffer) \<le> p \<and> p < unat (start buffer) + unat (Range_length A)) \<longrightarrow>
              array' ! p = array ! p)"
proof -
  let ?a = "unat (start A)" and ?la = "unat (Range_length A)" and ?lb = "unat (Range_length B)"
  let ?u = "unat (start buffer)"
  have ab: "?a \<le> unat (end' A)" and be: "unat (start B) \<le> unat (end' B)"
    and uu: "?u \<le> unat (end' buffer)"
    using sA sB sU by (simp_all add: word_le_nat_alt)
  have la: "?la = unat (end' A) - ?a"
    using Range_length_unat [OF ab] .
  have lb: "?lb = unat (end' B) - unat (start B)"
    using Range_length_unat [OF be] .
  have lu: "?la \<le> unat (end' buffer) - ?u"
    using lU Range_length_unat [OF uu] by (simp add: word_le_nat_alt)
  have b: "unat (start B) = ?a + ?la"
    using la ab AB by simp
  have e: "unat (end' B) = ?a + ?la + ?lb"
    using lb be b by simp
  have mid: "unat (end' A) = ?a + ?la"
    using b AB by simp
  have g1: "?a + ?la + ?lb \<le> length array"
    using eB e by simp
  have g2: "?u + ?la \<le> length array"
    using lu uu eU by arith
  have "unat (end' B) < 2 ^ 64"
    using unsigned_less [of "end' B"] by simp
  then have w1: "?a + ?la + ?lb < 2 ^ 64"
    using e by simp
  have "unat (end' buffer) < 2 ^ 64"
    using unsigned_less [of "end' buffer"] by simp
  then have w2: "?u + ?la < 2 ^ 64"
    using lu uu by simp
  show ?thesis
  proof (cases "?la = 0")
    case True
    then have z: "Range_length A = 0"
      by (simp add: unat_eq_0)
    have "MergeInternal array A B compare buffer = ret array"
      unfolding MergeInternal_def BlockSwap_def z
      by (subst BlockSwap_loop.simps) simp
    moreover have "slice array ?a (unat (end' B)) =
        stable_merge compare (slice array ?u (?u + ?la)) (slice array (unat (start B)) (unat (end' B)))"
      using True b by simp
    moreover have "mset (slice array ?u (?u + ?la)) = mset (slice array ?a (unat (end' A)))"
      using True mid by simp
    ultimately show ?thesis
      by simp
  next
    case False
    have g3: "?u + ?la \<le> ?a \<or> ?a + ?la + ?lb \<le> ?u"
    proof (rule ccontr)
      assume "\<not> ?thesis"
      then have "max ?u ?a \<in> {?u..<unat (end' buffer)} \<inter> {?a..<unat (end' B)}"
        using False lu e by auto
      then show False using dj by simp
    qed
    have "\<exists>arr' Ac ins.
           (if Range_length B > 0 \<and> Range_length A > 0
            then MergeInternal_loop array A B compare buffer 0 0 0
            else ret (array, 0, 0)) = ret (arr', Ac, ins) \<and>
           unat Ac \<le> ?la \<and> unat Ac \<le> unat ins \<and> unat ins - unat Ac \<le> ?lb \<and>
           (unat Ac = ?la \<or> unat ins - unat Ac = ?lb) \<and>
           MergeInternal_inv compare array arr' ?a ?la ?lb ?u (unat Ac) (unat ins - unat Ac)"
    proof (cases "?lb = 0")
      case True
      then have "\<not> Range_length B > 0"
        by (simp add: unat_eq_0)
      then show ?thesis
        using True MergeInternal_inv_init [of compare array ?a ?la ?lb ?u] by simp
    next
      case lbp: False
      then have pos: "Range_length B > 0 \<and> Range_length A > 0"
        using False by (simp add: word_greater_zero_iff unat_eq_0)
      have "\<exists>arr' Ac ins.
           MergeInternal_loop array A B compare buffer 0 0 0 = ret (arr', Ac, ins) \<and>
           unat Ac \<le> ?la \<and> unat Ac \<le> unat ins \<and> unat ins - unat Ac \<le> ?lb \<and>
           (unat Ac = ?la \<or> unat ins - unat Ac = ?lb) \<and>
           MergeInternal_inv compare array arr' ?a ?la ?lb ?u (unat Ac) (unat ins - unat Ac)"
      proof (rule MergeInternal_loop_ok [OF refl refl b refl refl g1 g2 g3 w1 w2])
        show "unat (0 :: size_t) < ?la" using False by simp
        show "unat (0 :: size_t) < ?lb" using lbp by simp
        show "unat (0 :: size_t) = unat (0 :: size_t) + unat (0 :: size_t)" by simp
        show "MergeInternal_inv compare array array ?a ?la ?lb ?u (unat (0 :: size_t)) (unat (0 :: size_t))"
          using MergeInternal_inv_init [of compare array ?a ?la ?lb ?u] by simp
      qed
      then show ?thesis
        using pos by simp
    qed
    then obtain arr' Ac ins where
      run: "(if Range_length B > 0 \<and> Range_length A > 0
             then MergeInternal_loop array A B compare buffer 0 0 0
             else ret (array, 0, 0)) = ret (arr', Ac, ins)"
      and i: "unat Ac \<le> ?la" and ij: "unat Ac \<le> unat ins" and j: "unat ins - unat Ac \<le> ?lb"
      and stop: "unat Ac = ?la \<or> unat ins - unat Ac = ?lb"
      and inv: "MergeInternal_inv compare array arr' ?a ?la ?lb ?u (unat Ac) (unat ins - unat Ac)"
      by blast
    let ?i = "unat Ac" and ?j = "unat ins - unat Ac"
    have len: "length arr' = length array"
      using inv by (simp add: MergeInternal_inv_def)
    have insum: "?a + ?i + ?j = ?a + unat ins"
      using ij by simp
    have u1: "unat (start buffer + Ac) = ?u + ?i"
      using unat_add_lt [of "start buffer" Ac] i w2 by simp
    have u2: "unat (start A + ins) = ?a + ?i + ?j"
      using unat_add_lt [of "start A" ins] i j ij w1 by simp
    have u3: "unat (Range_length A - Ac) = ?la - ?i"
      using i by (simp add: unat_sub_le)
    have bs: "BlockSwap arr' (start buffer + Ac) (start A + ins) (Range_length A - Ac) =
                ret (exchange (?u + ?i) (?a + ?i + ?j) (?la - ?i) arr')"
    proof (rule BlockSwap_ok [OF u1 u2 u3])
      show "?u + ?i + (?la - ?i) \<le> length arr'" using i g2 len by simp
      show "?a + ?i + ?j + (?la - ?i) \<le> length arr'" using i j g1 len by simp
      show "?u + ?i + (?la - ?i) \<le> ?a + ?i + ?j \<or> ?a + ?i + ?j + (?la - ?i) \<le> ?u + ?i"
        using i j g3 by arith
      show "?u + ?i + (?la - ?i) < 2 ^ 64" using i w2 by simp
      show "?a + ?i + ?j + (?la - ?i) < 2 ^ 64" using i j w1 by simp
    qed
    have res: "MergeInternal array A B compare buffer =
                 ret (exchange (?u + ?i) (?a + ?i + ?j) (?la - ?i) arr')"
      unfolding MergeInternal_def run using bs by simp
    note fin = MergeInternal_final [OF inv g1 g2 g3 i j stop]
    let ?F = "exchange (?u + ?i) (?a + ?i + ?j) (?la - ?i) arr'"
    have f1: "length ?F = length array"
      using fin by (rule conjunct1)
    have f2: "slice ?F ?a (unat (end' B)) =
        stable_merge compare (slice array ?u (?u + ?la)) (slice array (unat (start B)) (unat (end' B)))"
      unfolding e b using fin by (rule conjunct2 [THEN conjunct1])
    have f3: "mset (slice ?F ?u (?u + ?la)) = mset (slice array ?a (unat (end' A)))"
      unfolding mid using fin by (rule conjunct2 [THEN conjunct2, THEN conjunct1])
    have f4: "\<forall>p<length array.
              \<not> (?a \<le> p \<and> p < unat (end' B)) \<and> \<not> (?u \<le> p \<and> p < ?u + ?la) \<longrightarrow>
              ?F ! p = array ! p"
      unfolding e using fin by (rule conjunct2 [THEN conjunct2, THEN conjunct2])
    show ?thesis
      using res f1 f2 f3 f4 by (intro exI [of _ ?F] conjI)
  qed
qed

text \<open>
  Claim C7, as stated, fails when the buffer is longer than \<open>A\<close>. With \<open>A = [0, 1)\<close>,
  \<open>B = [1, 2)\<close> and the buffer \<open>[2, 4)\<close>, whose first slot holds \<open>A\<close>'s content \<open>1\<close>, all that
  the claim asks of the call holds, and \<^verbatim>\<open>MergeInternal\<close> leaves in the buffer region the value
  \<open>5\<close> that was in \<open>A\<close>'s region and the value \<open>2\<close> of the buffer's second slot, which it never
  touches: the buffer region does not hold exactly the values that were in \<open>A\<close>'s region.
\<close>

theorem MergeInternal_longer_buffer:
  "end' (Range_new 0 1) = start (Range_new 1 2) \<and>
   Range_length (Range_new 0 1) \<le> Range_length (Range_new 2 4) \<and>
   {unat (start (Range_new 2 4))..<unat (end' (Range_new 2 4))} \<inter>
     {unat (start (Range_new 0 1))..<unat (end' (Range_new 1 2))} = {} \<and>
   sorted_under (\<lambda>a b. int a - int b) (slice [5, 7, 1, 2 :: nat] 1 2) \<and>
   sorted_under (\<lambda>a b. int a - int b) (slice [5, 7, 1, 2 :: nat] 2 3) \<and>
   MergeInternal [5, 7, 1, 2 :: nat] (Range_new 0 1) (Range_new 1 2) (\<lambda>a b. int a - int b)
       (Range_new 2 4) = ret [1, 7, 5, 2] \<and>
   mset (slice [1, 7, 5, 2 :: nat] 2 4) \<noteq> mset (slice [5, 7, 1, 2 :: nat] 0 1)"
proof -
  have "MergeInternal [5, 7, 1, 2 :: nat] (Range_new 0 1) (Range_new 1 2) (\<lambda>a b. int a - int b)
       (Range_new 2 4) = ret [1, 7, 5, 2]"
    by (simp add: MergeInternal_def MergeInternal_loop.simps BlockSwap_def BlockSwap_loop.simps
        compare_at_def item_def Swap_def Range_new_def Range_length_def)
  then show ?thesis
    by (simp add: Range_new_def Range_length_def slice_def sorted_under_def)
qed

text \<open>
  Claim C7, amended. For adjacent ranges \<open>A\<close> and \<open>B\<close> inside the array and a buffer range
  inside the array, of length at least \<open>|A|\<close> and disjoint from \<open>A \<union> B\<close>, whose first \<open>|A|\<close>
  slots hold a sorted run, \<open>B\<close> being sorted too (comparator with total-order semantics),
  \<^verbatim>\<open>MergeInternal\<close> returns; \<open>A \<union> B\<close> then holds the stable merge of the run of the buffer with
  \<open>B\<close>, which is sorted and holds the items of both; the first \<open>|A|\<close> slots of the buffer hold,
  in some order, exactly the items that were in \<open>A\<close>'s region at the call; and every other
  position, the rest of the buffer included, is unchanged.
\<close>

theorem MergeInternal_merges_with_buffer:
  assumes t: "total_order_semantics compare"
    and sA: "start A \<le> end' A" and AB: "end' A = start B" and sB: "start B \<le> end' B"
    and eB: "unat (end' B) \<le> length array"
    and sU: "start buffer \<le> end' buffer" and eU: "unat (end' buffer) \<le> length array"
    and lU: "Range_length A \<le> Range_length buffer"
    and dj: "{unat (start buffer)..<unat (end' buffer)} \<inter> {unat (start A)..<unat (end' B)} = {}"
    and soA: "sorted_under compare
                (slice array (unat (start buffer)) (unat (start buffer) + unat (Range_length A)))"
    and soB: "sorted_under compare (slice array (unat (start B)) (unat (end' B)))"
  shows "\<exists>array'.
           MergeInternal array A B compare buffer = ret array' \<and>
           length array' = length array \<and>
           slice array' (unat (start A)) (unat (end' B)) =
             stable_merge compare
               (slice array (unat (start buffer)) (unat (start buffer) + unat (Range_length A)))
               (slice array (unat (start B)) (unat (end' B))) \<and>
           sorted_under compare (slice array' (unat (start A)) (unat (end' B))) \<and>
           mset (slice array' (unat (start A)) (unat (end' B))) =
             mset (slice array (unat (start buffer)) (unat (start buffer) + unat (Range_length A))) +
             mset (slice array (unat (start B)) (unat (end' B))) \<and>
           mset (slice array' (unat (start buffer)) (unat (start buffer) + unat (Range_length A))) =
             mset (slice array (unat (start A)) (unat (end' A))) \<and>
           (\<forall>p<length array.
              \<not> (unat (start A) \<le> p \<and> p < unat (end' B)) \<and>
              \<not> (unat (start buffer) \<le> p \<and> p < unat (start buffer) + unat (Range_length A)) \<longrightarrow>
              array' ! p = array ! p)"
proof -
  let ?SA = "slice array (unat (start buffer)) (unat (start buffer) + unat (Range_length A))"
  let ?SB = "slice array (unat (start B)) (unat (end' B))"
  obtain array' where r: "MergeInternal array A B compare buffer = ret array'"
    "length array' = length array"
    "slice array' (unat (start A)) (unat (end' B)) = stable_merge compare ?SA ?SB"
    "mset (slice array' (unat (start buffer)) (unat (start buffer) + unat (Range_length A))) =
       mset (slice array (unat (start A)) (unat (end' A)))"
    "\<forall>p<length array.
       \<not> (unat (start A) \<le> p \<and> p < unat (end' B)) \<and>
       \<not> (unat (start buffer) \<le> p \<and> p < unat (start buffer) + unat (Range_length A)) \<longrightarrow>
       array' ! p = array ! p"
    using MergeInternal_ok [OF sA AB sB eB sU eU lU dj, of compare] by blast
  have "sorted_under compare (stable_merge compare ?SA ?SB)"
    using t soA soB by (rule sorted_stable_merge)
  moreover have "mset (stable_merge compare ?SA ?SB) = mset ?SA + mset ?SB"
    by (rule mset_stable_merge)
  ultimately show ?thesis
    using r by (intro exI [of _ array']) simp
qed

theorem MergeInternal_merges_with_buffer_witness:
  "\<exists>array'.
     MergeInternal
       ([(0, 0), (8, 1), (9, 2), (2, 3), (4, 4), (6, 5), (4, 6), (5, 7), (7, 8)] :: (nat \<times> nat) list)
       (Range_new 1 3) (Range_new 3 6) (\<lambda>a b. int (fst a) - int (fst b)) (Range_new 6 9) = ret array' \<and>
     length array' = 9 \<and>
     slice array' 1 6 = [(2, 3), (4, 6), (4, 4), (5, 7), (6, 5)] \<and>
     mset (slice array' 6 8) = mset [(8, 1), (9, 2)]"
proof -
  let ?cmp = "\<lambda>a b :: nat \<times> nat. int (fst a) - int (fst b)"
  let ?arr = "[(0, 0), (8, 1), (9, 2), (2, 3), (4, 4), (6, 5), (4, 6), (5, 7), (7, 8)] :: (nat \<times> nat) list"
  let ?A = "Range_new 1 3" and ?B = "Range_new 3 6" and ?U = "Range_new 6 9"
  have t: "total_order_semantics ?cmp"
    by (auto simp: total_order_semantics_def)
  have h: "start ?A \<le> end' ?A" "end' ?A = start ?B" "start ?B \<le> end' ?B"
    "unat (end' ?B) \<le> length ?arr" "start ?U \<le> end' ?U" "unat (end' ?U) \<le> length ?arr"
    "Range_length ?A \<le> Range_length ?U"
    by (simp_all add: Range_new_def Range_length_def)
  have dj: "{unat (start ?U)..<unat (end' ?U)} \<inter> {unat (start ?A)..<unat (end' ?B)} = {}"
    by (simp add: Range_new_def)
  have u: "unat (start ?U) = 6" "unat (Range_length ?A) = 2" "unat (start ?B) = 3"
    "unat (end' ?B) = 6" "unat (start ?A) = 1" "unat (end' ?A) = 3"
    by (simp_all add: Range_new_def Range_length_def)
  have s1: "slice ?arr 6 (6 + 2) = [(4, 6), (5, 7)]" and s2: "slice ?arr 3 6 = [(2, 3), (4, 4), (6, 5)]"
    and s3: "slice ?arr 1 3 = [(8, 1), (9, 2)]"
    by (simp_all add: slice_def)
  have soA: "sorted_under ?cmp (slice ?arr (unat (start ?U)) (unat (start ?U) + unat (Range_length ?A)))"
    unfolding u s1 by (simp add: sorted_under_def)
  have soB: "sorted_under ?cmp (slice ?arr (unat (start ?B)) (unat (end' ?B)))"
    unfolding u s2 by (simp add: sorted_under_def)
  have m: "stable_merge ?cmp [(4, 6), (5, 7)] [(2, 3), (4, 4), (6, 5)] =
             [(2, 3), (4, 6), (4, 4), (5, 7), (6, 5)]"
    by simp
  obtain array' where r: "MergeInternal ?arr ?A ?B ?cmp ?U = ret array'"
    "length array' = length ?arr"
    "slice array' (unat (start ?A)) (unat (end' ?B)) =
       stable_merge ?cmp (slice ?arr (unat (start ?U)) (unat (start ?U) + unat (Range_length ?A)))
         (slice ?arr (unat (start ?B)) (unat (end' ?B)))"
    "mset (slice array' (unat (start ?U)) (unat (start ?U) + unat (Range_length ?A))) =
       mset (slice ?arr (unat (start ?A)) (unat (end' ?A)))"
    using MergeInternal_merges_with_buffer [OF t h dj soA soB] by blast
  have "length array' = 9"
    using r(2) by simp
  moreover have "slice array' 1 6 = [(2, 3), (4, 6), (4, 4), (5, 7), (6, 5)]"
    using r(3) unfolding u s1 s2 m .
  moreover have "mset (slice array' 6 8) = mset [(8, 1), (9, 2)]"
    using r(4) unfolding u s3 by simp
  ultimately show ?thesis
    using r(1) by (intro exI [of _ array'] conjI)
qed

section \<open>What every comparator leaves: the items of the array\<close>

text \<open>
  Whatever the comparator answers, the sorter changes the array only by exchanging items, by
  rotating ranges and by copies that copy nothing (the cache has no item): whenever one of its
  functions returns, the array holds the items it held.
\<close>

lemma Swap_keeps:
  "Swap array i j = ret array' \<Longrightarrow> mset array' = mset array"
  by (auto simp add: Swap_def mset_swap split: if_splits)

lemma Reverse_loop_keeps:
  assumes "Reverse_loop array rng index = ret array'"
  shows "mset array' = mset array"
proof -
  have "Reverse_loop array rng index = Some y \<Longrightarrow>
        \<forall>array'. y = Inr array' \<longrightarrow> mset array' = mset array" for y
  proof (induction rule: Reverse_loop.raw_induct [rotated 1, consumes 1, case_names step])
    case (step Reverse_loop array rng index y)
    have IH: "\<And>a r i a'. Reverse_loop a r i = ret a' \<Longrightarrow> mset a' = mset a"
      using step(1) by (simp add: ret_def)
    show ?case
    proof (intro allI impI)
      fix array' assume "y = Inr array'"
      then have "(if 0 < index
                  then bnd (Swap array (start rng + index - 1) (end' rng - index))
                         (\<lambda>array. Reverse_loop array rng (index - 1))
                  else ret array) = ret array'"
        using step(2) by (simp add: ret_def)
      then show "mset array' = mset array"
        by (auto simp add: bnd_eq_ret split: if_splits dest!: Swap_keeps IH)
    qed
  qed
  then show ?thesis
    using assms by (simp add: ret_def)
qed

lemma Reverse_keeps:
  "Reverse array rng = ret array' \<Longrightarrow> mset array' = mset array"
  unfolding Reverse_def by (rule Reverse_loop_keeps)

lemma BlockSwap_loop_keeps:
  assumes "BlockSwap_loop array start1 start2 block_size index = ret array'"
  shows "mset array' = mset array"
proof -
  have "BlockSwap_loop array start1 start2 block_size index = Some y \<Longrightarrow>
        \<forall>array'. y = Inr array' \<longrightarrow> mset array' = mset array" for y
  proof (induction rule: BlockSwap_loop.raw_induct [rotated 1, consumes 1, case_names step])
    case (step BlockSwap_loop array start1 start2 block_size index y)
    have IH: "\<And>a s1 s2 b i a'. BlockSwap_loop a s1 s2 b i = ret a' \<Longrightarrow> mset a' = mset a"
      using step(1) by (simp add: ret_def)
    show ?case
    proof (intro allI impI)
      fix array' assume "y = Inr array'"
      then have "(if index < block_size
                  then bnd (Swap array (start1 + index) (start2 + index))
                         (\<lambda>array. BlockSwap_loop array start1 start2 block_size (index + 1))
                  else ret array) = ret array'"
        using step(2) by (simp add: ret_def)
      then show "mset array' = mset array"
        by (auto simp add: bnd_eq_ret split: if_splits dest!: Swap_keeps IH)
    qed
  qed
  then show ?thesis
    using assms by (simp add: ret_def)
qed

lemma BlockSwap_keeps:
  "BlockSwap array start1 start2 block_size = ret array' \<Longrightarrow> mset array' = mset array"
  unfolding BlockSwap_def by (rule BlockSwap_loop_keeps)

text \<open>With \<^verbatim>\<open>cache = NULL\<close> a copy to or from the cache copies nothing, or is a fault.\<close>

lemma memcpy_to_empty:
  "memcpy [] d src s n = ret cache' \<Longrightarrow> cache' = [] \<and> n = 0"
  by (auto simp add: memcpy_def unat_eq_0 split: if_splits)

lemma memcpy_from_empty:
  "memcpy array d [] s n = ret array' \<Longrightarrow> array' = array"
  by (auto simp add: memcpy_def unat_eq_0 split: if_splits)

lemma memcpy_self:
  "memcpy array d array d n = ret array' \<Longrightarrow> array' = array"
proof -
  have "take (unat d) array @ take (unat n) (drop (unat d) array) @ drop (unat d + unat n) array = array"
    by (metis append_take_drop_id drop_drop add.commute)
  then show "memcpy array d array d n = ret array' \<Longrightarrow> array' = array"
    by (auto simp add: memcpy_def split: if_splits)
qed

lemma Rotate_keeps:
  assumes "Rotate array amount rng [] 0 = ret (array', cache')"
  shows "mset array' = mset array \<and> cache' = []"
proof (cases "Range_length rng = 0")
  case True
  then show ?thesis using assms by (simp add: Rotate_def)
next
  case False
  let ?split = "start rng + amount"
  let ?r1 = "Range_new (start rng) ?split" and ?r2 = "Range_new ?split (end' rng)"
  consider (a) "Range_length ?r1 \<le> Range_length ?r2" "Range_length ?r1 = 0"
    | (b) "\<not> Range_length ?r1 \<le> Range_length ?r2" "Range_length ?r2 = 0"
    | (c) "\<not> (Range_length ?r1 \<le> Range_length ?r2 \<and> Range_length ?r1 \<le> 0)"
          "\<not> (\<not> Range_length ?r1 \<le> Range_length ?r2 \<and> Range_length ?r2 \<le> 0)"
    by auto
  then show ?thesis
  proof cases
    case a
    then have am: "amount = 0"
      by (simp add: Range_length_def Range_new_def)
    show ?thesis
      using assms False a unfolding Rotate_def Let_def
      by (auto simp add: bnd_eq_ret am Range_new_def Range_length_def
          dest!: memcpy_to_empty memcpy_from_empty memcpy_self)
  next
    case b
    then have sp: "?split = end' rng"
      by (simp add: Range_length_def Range_new_def)
    show ?thesis
      using assms False b unfolding Rotate_def Let_def sp
      by (auto simp add: bnd_eq_ret Range_new_def Range_length_def
          dest!: memcpy_to_empty memcpy_from_empty memcpy_self)
  next
    case c
    then show ?thesis
      using assms False unfolding Rotate_def Let_def
      by (auto simp add: bnd_eq_ret dest!: Reverse_keeps)
  qed
qed


lemma InsertionSort_inner_keeps:
  assumes "InsertionSort_inner array rng compare j = ret array'"
  shows "mset array' = mset array"
proof -
  have "InsertionSort_inner array rng compare j = Some y \<Longrightarrow>
        (\<forall>array'. y = Inr array' \<longrightarrow> mset array' = mset array)" for rng compare j y
  proof (induction rule: InsertionSort_inner.raw_induct [rotated 1, consumes 1, case_names step])
    case (step InsertionSort_inner array rng compare j y)
    have IH: "\<And>q0 q1 q2 q3 array'. InsertionSort_inner q0 q1 q2 q3 = ret array' \<Longrightarrow> mset array' = mset q0"
      using step(1) by (simp add: ret_def)
    show ?case
    proof (intro allI impI)
      fix array' assume y: "y = Inr array'"
      note eq = step(2) [unfolded y, folded ret_def]
      show "mset array' = mset array"
        using eq
        by (auto simp add: bnd_eq_ret Let_def  split: if_splits
            dest!: Swap_keeps IH)
    qed
  qed
  then show ?thesis
    using assms by (simp add: ret_def)
qed

lemma InsertionSort_outer_keeps:
  assumes "InsertionSort_outer array rng compare i = ret array'"
  shows "mset array' = mset array"
proof -
  have "InsertionSort_outer array rng compare i = Some y \<Longrightarrow>
        (\<forall>array'. y = Inr array' \<longrightarrow> mset array' = mset array)" for rng compare i y
  proof (induction rule: InsertionSort_outer.raw_induct [rotated 1, consumes 1, case_names step])
    case (step InsertionSort_outer array rng compare i y)
    have IH: "\<And>q0 q1 q2 q3 array'. InsertionSort_outer q0 q1 q2 q3 = ret array' \<Longrightarrow> mset array' = mset q0"
      using step(1) by (simp add: ret_def)
    show ?case
    proof (intro allI impI)
      fix array' assume y: "y = Inr array'"
      note eq = step(2) [unfolded y, folded ret_def]
      show "mset array' = mset array"
        using eq
        by (auto simp add: bnd_eq_ret Let_def  split: if_splits
            dest!: InsertionSort_inner_keeps IH)
    qed
  qed
  then show ?thesis
    using assms by (simp add: ret_def)
qed

lemma InsertionSort_keeps:
  "InsertionSort array rng compare = ret array' \<Longrightarrow> mset array' = mset array"
  unfolding InsertionSort_def by (rule InsertionSort_outer_keeps)

lemma MergeInternal_loop_keeps:
  assumes "MergeInternal_loop array A B compare buffer A_count B_count insert0 = ret (array', x')"
  shows "mset array' = mset array"
proof -
  have "MergeInternal_loop array A B compare buffer A_count B_count insert0 = Some y \<Longrightarrow>
        (\<forall>array' x'. y = Inr (array', x') \<longrightarrow> mset array' = mset array)" for A B compare buffer A_count B_count insert0 y
  proof (induction rule: MergeInternal_loop.raw_induct [rotated 1, consumes 1, case_names step])
    case (step MergeInternal_loop array A B compare buffer A_count B_count insert0 y)
    have IH: "\<And>q0 q1 q2 q3 q4 q5 q6 q7 array' x'. MergeInternal_loop q0 q1 q2 q3 q4 q5 q6 q7 = ret (array', x') \<Longrightarrow> mset array' = mset q0"
      using step(1) by (simp add: ret_def)
    show ?case
    proof (intro allI impI)
      fix array' x' assume y: "y = Inr (array', x')"
      note eq = step(2) [unfolded y, folded ret_def]
      show "mset array' = mset array"
        using eq
        by (auto simp add: bnd_eq_ret Let_def  split: if_splits
            dest!: Swap_keeps IH)
    qed
  qed
  then show ?thesis
    using assms by (simp add: ret_def)
qed

lemma MergeInternal_keeps:
  "MergeInternal array A B compare buffer = ret array' \<Longrightarrow> mset array' = mset array"
  unfolding MergeInternal_def
  by (auto simp add: bnd_eq_ret split: if_splits dest!: MergeInternal_loop_keeps BlockSwap_keeps)

lemma MergeInPlace_loop_keeps:
  assumes "MergeInPlace_loop array A B compare [] 0 = ret (array', cache')"
  shows "mset array' = mset array \<and> cache' = []"
proof -
  have "MergeInPlace_loop array A B compare cache cache_size = Some y \<Longrightarrow>
        cache = [] \<and> cache_size = 0 \<longrightarrow> (\<forall>array' cache'. y = Inr (array', cache') \<longrightarrow> mset array' = mset array \<and> cache' = [])" for A B compare cache cache_size y
  proof (induction rule: MergeInPlace_loop.raw_induct [rotated 1, consumes 1, case_names step])
    case (step MergeInPlace_loop array A B compare cache cache_size y)
    have IH: "\<And>q0 q1 q2 q3 array' cache'. MergeInPlace_loop q0 q1 q2 q3 [] 0 = ret (array', cache') \<Longrightarrow> mset array' = mset q0 \<and> cache' = []"
      using step(1) by (simp add: ret_def)
    show ?case
    proof (intro allI impI, elim conjE)
      fix array' cache' assume c: "cache = []" "cache_size = 0" and y: "y = Inr (array', cache')"
      note eq = step(2) [unfolded y c, folded ret_def]
      show "mset array' = mset array \<and> cache' = []"
        using eq
        by (auto simp add: bnd_eq_ret Let_def  split: if_splits
            dest!: Rotate_keeps IH)
    qed
  qed
  then show ?thesis
    using assms by (simp add: ret_def)
qed

lemma MergeInPlace_keeps:
  "MergeInPlace array A B compare [] 0 = ret (array', cache') \<Longrightarrow> mset array' = mset array \<and> cache' = []"
  unfolding MergeInPlace_def
  by (auto split: if_splits dest!: MergeInPlace_loop_keeps)

lemma item_empty: "item [] i = fault OutOfBounds"
  by (simp add: item_def)

lemma MergeExternal_loop_empty:
  "MergeExternal_loop array A_last B_last compare [] A_index B_index insert_index \<noteq> ret r"
proof
  assume "MergeExternal_loop array A_last B_last compare [] A_index B_index insert_index = ret r"
  then show False
    by (subst (asm) MergeExternal_loop.simps) (auto simp add: bnd_eq_ret item_empty ret_neq)
qed

lemma MergeExternal_keeps:
  "MergeExternal array A B compare [] = ret array' \<Longrightarrow> array' = array"
  unfolding MergeExternal_def
  by (auto simp add: bnd_eq_ret MergeExternal_loop_empty split: if_splits dest!: memcpy_from_empty)

lemma NEW_SWAP_keeps:
  "NEW_SWAP compare start0 x y (array, order) = ret (array', order') \<Longrightarrow> mset array' = mset array"
  unfolding NEW_SWAP_def
  by (auto simp add: bnd_eq_ret split: if_splits dest!: Swap_keeps)

lemma NEW_SWAPs_keeps:
  "NEW_SWAPs compare start0 ps (array, order) = ret (array', order') \<Longrightarrow> mset array' = mset array"
proof (induction ps arbitrary: array order)
  case Nil
  then show ?case by simp
next
  case (Cons p ps)
  obtain x y where p: "p = (x, y)" by (cases p)
  obtain a1 o1 where 1: "NEW_SWAP compare start0 x y (array, order) = ret (a1, o1)"
    and 2: "NEW_SWAPs compare start0 ps (a1, o1) = ret (array', order')"
    using Cons.prems unfolding p by (auto simp add: bnd_eq_ret)
  show ?case
    using Cons.IH [OF 2] NEW_SWAP_keeps [OF 1] by simp
qed

lemma sort_range_keeps:
  "sort_range array compare rng = ret array' \<Longrightarrow> mset array' = mset array"
  unfolding sort_range_def Let_def
  by (auto simp add: bnd_eq_ret split: if_splits dest!: NEW_SWAPs_keeps)

lemma base_loop_keeps:
  assumes "base_loop array compare iterator = ret (array', x')"
  shows "mset array' = mset array"
proof -
  have "base_loop array compare iterator = Some y \<Longrightarrow>
        (\<forall>array' x'. y = Inr (array', x') \<longrightarrow> mset array' = mset array)" for compare iterator y
  proof (induction rule: base_loop.raw_induct [rotated 1, consumes 1, case_names step])
    case (step base_loop array compare iterator y)
    have IH: "\<And>q0 q1 q2 array' x'. base_loop q0 q1 q2 = ret (array', x') \<Longrightarrow> mset array' = mset q0"
      using step(1) by (simp add: ret_def)
    show ?case
    proof (intro allI impI)
      fix array' x' assume y: "y = Inr (array', x')"
      note eq = step(2) [unfolded y, folded ret_def]
      show "mset array' = mset array"
        using eq
        by (auto simp add: bnd_eq_ret Let_def  split: if_splits prod.splits
            dest!: sort_range_keeps IH)
    qed
  qed
  then show ?thesis
    using assms by (simp add: ret_def)
qed

lemma sort3_keeps:
  "sort3 array compare = ret array' \<Longrightarrow> mset array' = mset array"
  unfolding sort3_def
  by (auto simp add: bnd_eq_ret split: if_splits dest!: Swap_keeps)

lemma sort2_keeps:
  "sort2 array compare = ret array' \<Longrightarrow> mset array' = mset array"
  unfolding sort2_def
  by (auto simp add: bnd_eq_ret split: if_splits dest!: Swap_keeps)

lemma pull_left_loop_keeps:
  assumes "pull_left_loop array [] compare 0 length0 pull index count0 = ret (array', cache', x')"
  shows "mset array' = mset array \<and> cache' = []"
proof -
  have "pull_left_loop array cache compare cache_size length0 pull index count0 = Some y \<Longrightarrow>
        cache = [] \<and> cache_size = 0 \<longrightarrow> (\<forall>array' cache' x'. y = Inr (array', cache', x') \<longrightarrow> mset array' = mset array \<and> cache' = [])" for cache compare cache_size length0 pull index count0 y
  proof (induction rule: pull_left_loop.raw_induct [rotated 1, consumes 1, case_names step])
    case (step pull_left_loop array cache compare cache_size length0 pull index count0 y)
    have IH: "\<And>q0 q2 q4 q5 q6 q7 array' cache' x'. pull_left_loop q0 [] q2 0 q4 q5 q6 q7 = ret (array', cache', x') \<Longrightarrow> mset array' = mset q0 \<and> cache' = []"
      using step(1) by (simp add: ret_def)
    show ?case
    proof (intro allI impI, elim conjE)
      fix array' cache' x' assume c: "cache = []" "cache_size = 0" and y: "y = Inr (array', cache', x')"
      note eq = step(2) [unfolded y c, folded ret_def]
      show "mset array' = mset array \<and> cache' = []"
        using eq
        by (auto simp add: bnd_eq_ret Let_def  split: if_splits
            dest!: Rotate_keeps IH)
    qed
  qed
  then show ?thesis
    using assms by (simp add: ret_def)
qed

lemma pull_right_loop_keeps:
  assumes "pull_right_loop array [] compare 0 length0 pull index count0 = ret (array', cache', x')"
  shows "mset array' = mset array \<and> cache' = []"
proof -
  have "pull_right_loop array cache compare cache_size length0 pull index count0 = Some y \<Longrightarrow>
        cache = [] \<and> cache_size = 0 \<longrightarrow> (\<forall>array' cache' x'. y = Inr (array', cache', x') \<longrightarrow> mset array' = mset array \<and> cache' = [])" for cache compare cache_size length0 pull index count0 y
  proof (induction rule: pull_right_loop.raw_induct [rotated 1, consumes 1, case_names step])
    case (step pull_right_loop array cache compare cache_size length0 pull index count0 y)
    have IH: "\<And>q0 q2 q4 q5 q6 q7 array' cache' x'. pull_right_loop q0 [] q2 0 q4 q5 q6 q7 = ret (array', cache', x') \<Longrightarrow> mset array' = mset q0 \<and> cache' = []"
      using step(1) by (simp add: ret_def)
    show ?case
    proof (intro allI impI, elim conjE)
      fix array' cache' x' assume c: "cache = []" "cache_size = 0" and y: "y = Inr (array', cache', x')"
      note eq = step(2) [unfolded y c, folded ret_def]
      show "mset array' = mset array \<and> cache' = []"
        using eq
        by (auto simp add: bnd_eq_ret Let_def  split: if_splits
            dest!: Rotate_keeps IH)
    qed
  qed
  then show ?thesis
    using assms by (simp add: ret_def)
qed

lemma pull_out_keeps:
  "pull_out array [] compare 0 pull = ret (array', cache', pull') \<Longrightarrow>
   mset array' = mset array \<and> cache' = []"
  unfolding pull_out_def Let_def
  by (auto split: if_splits dest!: pull_left_loop_keeps pull_right_loop_keeps)

lemma tag_loop_keeps:
  assumes "tag_loop array blockA_end block_size indexA0 index = ret array'"
  shows "mset array' = mset array"
proof -
  have "tag_loop array blockA_end block_size indexA0 index = Some y \<Longrightarrow>
        (\<forall>array'. y = Inr array' \<longrightarrow> mset array' = mset array)" for blockA_end block_size indexA0 index y
  proof (induction rule: tag_loop.raw_induct [rotated 1, consumes 1, case_names step])
    case (step tag_loop array blockA_end block_size indexA0 index y)
    have IH: "\<And>q0 q1 q2 q3 q4 array'. tag_loop q0 q1 q2 q3 q4 = ret array' \<Longrightarrow> mset array' = mset q0"
      using step(1) by (simp add: ret_def)
    show ?case
    proof (intro allI impI)
      fix array' assume y: "y = Inr array'"
      note eq = step(2) [unfolded y, folded ret_def]
      show "mset array' = mset array"
        using eq
        by (auto simp add: bnd_eq_ret Let_def  split: if_splits
            dest!: Swap_keeps IH)
    qed
  qed
  then show ?thesis
    using assms by (simp add: ret_def)
qed

lemma local_merge_keeps:
  "local_merge array [] compare 0 buffer2_0 lastA0 B = ret (array', cache') \<Longrightarrow>
   mset array' = mset array \<and> cache' = []"
  unfolding local_merge_def
  by (auto simp add: bnd_eq_ret split: if_splits
      dest!: MergeExternal_keeps MergeInternal_keeps MergeInPlace_keeps)

lemma redistribute_right_loop_keeps:
  assumes "redistribute_right_loop array [] compare 0 pull buffer unique = ret (array', cache')"
  shows "mset array' = mset array \<and> cache' = []"
proof -
  have "redistribute_right_loop array cache compare cache_size pull buffer unique = Some y \<Longrightarrow>
        cache = [] \<and> cache_size = 0 \<longrightarrow> (\<forall>array' cache'. y = Inr (array', cache') \<longrightarrow> mset array' = mset array \<and> cache' = [])" for cache compare cache_size pull buffer unique y
  proof (induction rule: redistribute_right_loop.raw_induct [rotated 1, consumes 1, case_names step])
    case (step redistribute_right_loop array cache compare cache_size pull buffer unique y)
    have IH: "\<And>q0 q2 q4 q5 q6 array' cache'. redistribute_right_loop q0 [] q2 0 q4 q5 q6 = ret (array', cache') \<Longrightarrow> mset array' = mset q0 \<and> cache' = []"
      using step(1) by (simp add: ret_def)
    show ?case
    proof (intro allI impI, elim conjE)
      fix array' cache' assume c: "cache = []" "cache_size = 0" and y: "y = Inr (array', cache')"
      note eq = step(2) [unfolded y c, folded ret_def]
      show "mset array' = mset array \<and> cache' = []"
        using eq
        by (auto simp add: bnd_eq_ret Let_def  split: if_splits
            dest!: Rotate_keeps IH)
    qed
  qed
  then show ?thesis
    using assms by (simp add: ret_def)
qed

lemma redistribute_left_loop_keeps:
  assumes "redistribute_left_loop array [] compare 0 pull buffer unique = ret (array', cache')"
  shows "mset array' = mset array \<and> cache' = []"
proof -
  have "redistribute_left_loop array cache compare cache_size pull buffer unique = Some y \<Longrightarrow>
        cache = [] \<and> cache_size = 0 \<longrightarrow> (\<forall>array' cache'. y = Inr (array', cache') \<longrightarrow> mset array' = mset array \<and> cache' = [])" for cache compare cache_size pull buffer unique y
  proof (induction rule: redistribute_left_loop.raw_induct [rotated 1, consumes 1, case_names step])
    case (step redistribute_left_loop array cache compare cache_size pull buffer unique y)
    have IH: "\<And>q0 q2 q4 q5 q6 array' cache'. redistribute_left_loop q0 [] q2 0 q4 q5 q6 = ret (array', cache') \<Longrightarrow> mset array' = mset q0 \<and> cache' = []"
      using step(1) by (simp add: ret_def)
    show ?case
    proof (intro allI impI, elim conjE)
      fix array' cache' assume c: "cache = []" "cache_size = 0" and y: "y = Inr (array', cache')"
      note eq = step(2) [unfolded y c, folded ret_def]
      show "mset array' = mset array \<and> cache' = []"
        using eq
        by (auto simp add: bnd_eq_ret Let_def  split: if_splits
            dest!: Rotate_keeps IH)
    qed
  qed
  then show ?thesis
    using assms by (simp add: ret_def)
qed

lemma redistribute_keeps:
  "redistribute array [] compare 0 pull = ret (array', cache') \<Longrightarrow>
   mset array' = mset array \<and> cache' = []"
  unfolding redistribute_def Let_def
  by (auto split: if_splits dest!: redistribute_right_loop_keeps redistribute_left_loop_keeps)

text \<open>Taking a computation that returned apart, one statement at a time.\<close>

lemma bnd_retE [consumes 1, case_names bind]:
  assumes "bnd m f = ret r"
  obtains x where "m = ret x" and "f x = ret r"
  using assms by (auto simp add: bnd_eq_ret)

lemma if_retE [consumes 1, case_names "then" "else"]:
  assumes "(if c then a else b) = ret r"
  obtains "c" and "a = ret r" | "\<not> c" and "b = ret r"
  using assms by (auto split: if_splits)

lemma roll_loop_keeps:
  assumes "roll_loop array [] compare 0 block_size buffer2_0 B st = ret (array', cache', x')"
  shows "mset array' = mset array \<and> cache' = []"
proof -
  have "roll_loop array cache compare cache_size block_size buffer2_0 B st = Some y \<Longrightarrow>
        cache = [] \<and> cache_size = 0 \<longrightarrow> (\<forall>array' cache' x'. y = Inr (array', cache', x') \<longrightarrow> mset array' = mset array \<and> cache' = [])" for cache compare cache_size block_size buffer2_0 B st y
  proof (induction rule: roll_loop.raw_induct [rotated 1, consumes 1, case_names step])
    case (step roll_loop array cache compare cache_size block_size buffer2_0 B st y)
    have IH: "\<And>q0 q2 q4 q5 q6 q7 array' cache' x'. roll_loop q0 [] q2 0 q4 q5 q6 q7 = ret (array', cache', x') \<Longrightarrow> mset array' = mset q0 \<and> cache' = []"
      using step(1) by (simp add: ret_def)
    show ?case
    proof (intro allI impI, elim conjE)
      fix array' cache' x' assume c: "cache = []" "cache_size = 0" and y: "y = Inr (array', cache', x')"
      note eq = step(2) [unfolded y c, folded ret_def]
      from eq show "mset array' = mset array \<and> cache' = []"
      proof (cases rule: bnd_retE)
        case (bind d)
        from bind(2) show ?thesis
        proof (cases rule: if_retE)
          case "then"
          from "then"(2) show ?thesis
            by (auto simp add: bnd_eq_ret Let_def split: if_splits
                dest!: BlockSwap_keeps Swap_keeps local_merge_keeps Rotate_keeps memcpy_to_empty IH)
        next
          case else
          from else(2) show ?thesis
          proof (cases rule: if_retE)
            case "then"
            from "then"(2) show ?thesis
              by (auto simp add: bnd_eq_ret Let_def dest!: Rotate_keeps IH)
          next
            case else
            from else(2) show ?thesis
              by (auto simp add: bnd_eq_ret Let_def split: if_splits dest!: BlockSwap_keeps IH)
          qed
        qed
      qed
    qed
  qed
  then show ?thesis
    using assms by (simp add: ret_def)
qed

lemma merge_blocks_keeps:
  "merge_blocks array [] compare 0 block_size buffer1_0 buffer2_0 A B = ret (array', cache') \<Longrightarrow>
   mset array' = mset array \<and> cache' = []"
  unfolding merge_blocks_def Let_def
  by (auto simp add: bnd_eq_ret split: if_splits
      dest!: tag_loop_keeps memcpy_to_empty BlockSwap_keeps roll_loop_keeps local_merge_keeps)

lemma merge_pairs_loop_keeps:
  assumes "merge_pairs_loop array [] compare 0 block_size buffer1_0 buffer2_0 p0 p1 iterator = ret (array', cache', x')"
  shows "mset array' = mset array \<and> cache' = []"
proof -
  have "merge_pairs_loop array cache compare cache_size block_size buffer1_0 buffer2_0 p0 p1 iterator = Some y \<Longrightarrow>
        cache = [] \<and> cache_size = 0 \<longrightarrow> (\<forall>array' cache' x'. y = Inr (array', cache', x') \<longrightarrow> mset array' = mset array \<and> cache' = [])" for cache compare cache_size block_size buffer1_0 buffer2_0 p0 p1 iterator y
  proof (induction rule: merge_pairs_loop.raw_induct [rotated 1, consumes 1, case_names step])
    case (step merge_pairs_loop array cache compare cache_size block_size buffer1_0 buffer2_0 p0 p1 iterator y)
    have IH: "\<And>q0 q2 q4 q5 q6 q7 q8 q9 array' cache' x'. merge_pairs_loop q0 [] q2 0 q4 q5 q6 q7 q8 q9 = ret (array', cache', x') \<Longrightarrow> mset array' = mset q0 \<and> cache' = []"
      using step(1) by (simp add: ret_def)
    show ?case
    proof (intro allI impI, elim conjE)
      fix array' cache' x' assume c: "cache = []" "cache_size = 0" and y: "y = Inr (array', cache', x')"
      note eq = step(2) [unfolded y c, folded ret_def]
      show "mset array' = mset array \<and> cache' = []"
        using eq
        by (auto simp add: bnd_eq_ret Let_def  split: if_splits prod.splits option.splits
            dest!: Rotate_keeps merge_blocks_keeps IH)
    qed
  qed
  then show ?thesis
    using assms by (simp add: ret_def)
qed

lemma in_place_level_keeps:
  "in_place_level array [] compare 0 iterator = ret (array', cache', iterator') \<Longrightarrow>
   mset array' = mset array \<and> cache' = []"
  unfolding in_place_level_def Let_def
  by (auto simp add: bnd_eq_ret split: if_splits
      dest!: pull_out_keeps merge_pairs_loop_keeps InsertionSort_keeps redistribute_keeps)

lemma levels_loop_keeps:
  assumes "levels_loop array [] compare 0 len iterator = ret array'"
  shows "mset array' = mset array"
proof -
  have "levels_loop array cache compare cache_size len iterator = Some y \<Longrightarrow>
        cache = [] \<and> cache_size = 0 \<longrightarrow> (\<forall>array'. y = Inr array' \<longrightarrow> mset array' = mset array)"
    for cache compare cache_size len iterator y
  proof (induction rule: levels_loop.raw_induct [rotated 1, consumes 1, case_names step])
    case (step levels_loop array cache compare cache_size len iterator y)
    have IH: "\<And>q0 q2 q4 q5 array'. levels_loop q0 [] q2 0 q4 q5 = ret array' \<Longrightarrow> mset array' = mset q0"
      using step(1) by (simp add: ret_def)
    show ?case
    proof (intro allI impI, elim conjE)
      fix array' assume c: "cache = []" "cache_size = 0" and y: "y = Inr array'"
      note eq = step(2) [unfolded y c, folded ret_def]
      from eq show "mset array' = mset array"
      proof (cases rule: bnd_retE)
        case (bind x)
        obtain a c it where x: "x = (a, c, it)"
          by (cases x)
        obtain again it' where n: "WikiIterator_nextLevel it = (again, it')"
          by (cases "WikiIterator_nextLevel it")
        have "in_place_level array [] compare 0 iterator = ret (a, c, it)"
          using bind(1) unfolding x by simp
        then have 1: "mset a = mset array" "c = []"
          using in_place_level_keeps by blast+
        have "(if again then levels_loop a [] compare 0 len it' else ret a) = ret array'"
          using bind(2) unfolding x by (simp add: n 1)
        then show ?thesis
          using 1 by (auto split: if_splits dest!: IH)
      qed
    qed
  qed
  then show ?thesis
    using assms by (simp add: ret_def)
qed

lemma new_WikiSort_keeps:
  assumes "new_WikiSort array len compare = ret array'"
  shows "mset array' = mset array"
proof (cases "len < 4")
  case True
  then show ?thesis
    using assms unfolding new_WikiSort_def Let_def
    by (auto split: if_splits dest!: sort3_keeps sort2_keeps)
next
  case False
  then have "bnd (WikiIterator_new len 4) (\<lambda>iterator.
        bnd (base_loop array compare (WikiIterator_begin iterator)) (\<lambda>(array, iterator).
          if len < 8 then ret array
          else levels_loop array [] compare 0 len iterator)) = ret array'"
    using assms unfolding new_WikiSort_def Let_def CACHE_SIZE_def by (simp only: if_False)
  then show ?thesis
  proof (cases rule: bnd_retE)
    case (bind it)
    from bind(2) show ?thesis
    proof (cases rule: bnd_retE)
      case (bind x)
      obtain a it' where x: "x = (a, it')"
        by (cases x)
      have 1: "mset a = mset array"
        using bind(1) unfolding x by (rule base_loop_keeps)
      have "(if len < 8 then ret a else levels_loop a [] compare 0 len it') = ret array'"
        using bind(2) unfolding x by simp
      then show ?thesis
        using 1 by (auto split: if_splits dest!: levels_loop_keeps)
    qed
  qed
qed
text \<open>
  On fewer than 8 items the sorter only runs one hard-coded sort or one sorting network on
  positions inside the array: it returns, whatever the comparator answers.
\<close>

lemma NEW_SWAP_returns:
  assumes x: "x < n" and y: "y < n" and n: "unat start0 + n \<le> length array"
    and w: "unat start0 + n < 2 ^ 64"
  shows "\<exists>array' order'. NEW_SWAP compare start0 x y (array, order) = ret (array', order') \<and>
           length array' = length array"
proof -
  have u: "unat (start0 + of_nat k) = unat start0 + k" if "k < n" for k
  proof -
    have "k < 2 ^ 64" using that w by simp
    then have "unat (of_nat k :: size_t) = k"
      by (simp add: unat_of_nat)
    then show ?thesis
      using unat_add_lt [of start0 "of_nat k"] that w by simp
  qed
  have i: "unat (start0 + of_nat k) < length array" if "k < n" for k
    using u [OF that] that n by simp
  show ?thesis
    unfolding NEW_SWAP_def
    by (simp add: compare_at_ok [OF i i] Swap_ok [OF i i] x y)
qed

lemma NEW_SWAPs_returns:
  assumes "\<forall>(x, y)\<in>set ps. x < n \<and> y < n" and "unat start0 + n \<le> length array"
    and "unat start0 + n < 2 ^ 64"
  shows "\<exists>array' order'. NEW_SWAPs compare start0 ps (array, order) = ret (array', order') \<and>
           length array' = length array"
  using assms
proof (induction ps arbitrary: array order)
  case Nil
  then show ?case by simp
next
  case (Cons p ps)
  obtain x y where p: "p = (x, y)" by (cases p)
  have xy: "x < n" "y < n"
    using Cons.prems(1) p by auto
  obtain a1 o1 where 1: "NEW_SWAP compare start0 x y (array, order) = ret (a1, o1)"
    and l: "length a1 = length array"
    using NEW_SWAP_returns [OF xy Cons.prems(2,3)] by blast
  have "\<exists>array' order'. NEW_SWAPs compare start0 ps (a1, o1) = ret (array', order') \<and>
           length array' = length a1"
    using Cons.IH [of a1 o1] Cons.prems l by auto
  then show ?case
    unfolding p NEW_SWAPs.simps 1 using l by simp
qed

lemma sort_range_returns:
  assumes se: "start rng \<le> end' rng" and el: "unat (end' rng) \<le> length array"
  shows "\<exists>array'. sort_range array compare rng = ret array'"
proof -
  let ?n = "unat (end' rng) - unat (start rng)"
  have sle: "unat (start rng) \<le> unat (end' rng)"
    using se by (simp add: word_le_nat_alt)
  have n: "unat (start rng) + ?n \<le> length array"
    using sle el by simp
  have "unat (end' rng) < 2 ^ 64"
    using unsigned_less [of "end' rng"] by simp
  then have w: "unat (start rng) + ?n < 2 ^ 64"
    using sle by simp
  have l: "unat (Range_length rng) = ?n"
    using sle by (rule Range_length_unat)
  have r: "\<exists>array' order'. NEW_SWAPs compare (start rng) ps (array, [0, 1, 2, 3, 4, 5, 6, 7]) =
             ret (array', order') \<and> length array' = length array"
    if "\<forall>(x, y)\<in>set ps. x < ?n \<and> y < ?n" for ps
    using NEW_SWAPs_returns [OF that n w] .
  have 8: "\<exists>array' order'. NEW_SWAPs compare (start rng) network8 (array, [0, 1, 2, 3, 4, 5, 6, 7]) =
             ret (array', order') \<and> length array' = length array" if "Range_length rng = 8"
    using that l by (intro r) (simp add: network8_def)
  have 7: "\<exists>array' order'. NEW_SWAPs compare (start rng) network7 (array, [0, 1, 2, 3, 4, 5, 6, 7]) =
             ret (array', order') \<and> length array' = length array" if "Range_length rng = 7"
    using that l by (intro r) (simp add: network7_def)
  have 6: "\<exists>array' order'. NEW_SWAPs compare (start rng) network6 (array, [0, 1, 2, 3, 4, 5, 6, 7]) =
             ret (array', order') \<and> length array' = length array" if "Range_length rng = 6"
    using that l by (intro r) (simp add: network6_def)
  have 5: "\<exists>array' order'. NEW_SWAPs compare (start rng) network5 (array, [0, 1, 2, 3, 4, 5, 6, 7]) =
             ret (array', order') \<and> length array' = length array" if "Range_length rng = 5"
    using that l by (intro r) (simp add: network5_def)
  have 4: "\<exists>array' order'. NEW_SWAPs compare (start rng) network4 (array, [0, 1, 2, 3, 4, 5, 6, 7]) =
             ret (array', order') \<and> length array' = length array" if "Range_length rng = 4"
    using that l by (intro r) (simp add: network4_def)
  show ?thesis
    unfolding sort_range_def Let_def using 8 7 6 5 4 by (auto simp add: bnd_eq_ret)
qed

lemma new_WikiSort_returns_small:
  assumes len: "len < 8" and fit: "unat len \<le> length array"
  shows "\<exists>array'. new_WikiSort array len compare = ret array'"
proof -
  have "unat len < 8"
    using len by (simp add: word_less_nat_alt)
  then have "unat len \<in> {0, 1, 2, 3, 4, 5, 6, 7}"
    by auto
  then consider "len = 0" | "len = 1" | "len = 2" | "len = 3" | "len = 4" | "len = 5" | "len = 6"
    | "len = 7"
    by (auto simp add: word_unat_eq_iff)
  then show ?thesis
  proof cases
    case 1
    then show ?thesis by (simp add: new_WikiSort_def)
  next
    case 2
    then show ?thesis by (simp add: new_WikiSort_def)
  next
    case 3
    then show ?thesis
      using fit by (auto simp add: new_WikiSort_def sort2_def compare_at_def item_def Swap_def)
  next
    case 4
    then show ?thesis
      using fit by (auto simp add: new_WikiSort_def sort3_def compare_at_def item_def Swap_def)
  next
    case 5
    obtain a where "sort_range array compare \<lparr>start = 0, end' = 4\<rparr> = ret a"
      using sort_range_returns [of "\<lparr>start = 0, end' = 4\<rparr>" array compare] fit 5 by auto
    then show ?thesis
      unfolding 5
      by (simp add: new_WikiSort_def WikiIterator_new_def FloorPowerOfTwo_def WikiIterator_begin_def
          WikiIterator_nextRange_def WikiIterator_finished_def Range_new_def base_loop.simps Let_def)
  next
    case 6
    obtain a where "sort_range array compare \<lparr>start = 0, end' = 5\<rparr> = ret a"
      using sort_range_returns [of "\<lparr>start = 0, end' = 5\<rparr>" array compare] fit 6 by auto
    then show ?thesis
      unfolding 6
      by (simp add: new_WikiSort_def WikiIterator_new_def FloorPowerOfTwo_def WikiIterator_begin_def
          WikiIterator_nextRange_def WikiIterator_finished_def Range_new_def base_loop.simps Let_def)
  next
    case 7
    obtain a where "sort_range array compare \<lparr>start = 0, end' = 6\<rparr> = ret a"
      using sort_range_returns [of "\<lparr>start = 0, end' = 6\<rparr>" array compare] fit 7 by auto
    then show ?thesis
      unfolding 7
      by (simp add: new_WikiSort_def WikiIterator_new_def FloorPowerOfTwo_def WikiIterator_begin_def
          WikiIterator_nextRange_def WikiIterator_finished_def Range_new_def base_loop.simps Let_def)
  next
    case 8
    obtain a where "sort_range array compare \<lparr>start = 0, end' = 7\<rparr> = ret a"
      using sort_range_returns [of "\<lparr>start = 0, end' = 7\<rparr>" array compare] fit 8 by auto
    then show ?thesis
      unfolding 8
      by (simp add: new_WikiSort_def WikiIterator_new_def FloorPowerOfTwo_def WikiIterator_begin_def
          WikiIterator_nextRange_def WikiIterator_finished_def Range_new_def base_loop.simps Let_def)
  qed
qed
section \<open>Comparators that are not orders\<close>

text \<open>The definitions and the loops that a run of \<^verbatim>\<open>new_WikiSort\<close> on given items goes through.\<close>

lemmas evaluation_defs =
  Range_length_def Range_new_def Min_sz_def Max_sz_def item_def compare_at_def Swap_def memcpy_def
  Reverse_def BlockSwap_def Rotate_def BinaryFirst_def BinaryLast_def skip_of_def
  FindFirstForward_def FindLastForward_def FindFirstBackward_def FindLastBackward_def
  FloorPowerOfTwo_def WikiIterator_begin_def WikiIterator_nextRange_def WikiIterator_finished_def
  WikiIterator_nextLevel_def WikiIterator_length_def WikiIterator_new_def
  InsertionSort_def MergeInternal_def MergeInPlace_def MergeExternal_def
  NEW_SWAP_def network8_def network7_def network6_def network5_def network4_def sort_range_def
  CACHE_SIZE_def sqrt_sz_def PULL_def find_in_A_def find_in_B_def pull_out_def
  strip_pull_def local_merge_def merge_blocks_def redistribute_def in_place_level_def new_WikiSort_def
  Let_def word_le_nat_alt word_less_nat_alt

lemmas evaluation_simps =
  Reverse_loop.simps BlockSwap_loop.simps BinaryFirst_loop.simps BinaryLast_loop.simps
  FindFirstForward_loop.simps FindLastForward_loop.simps FindFirstBackward_loop.simps
  FindLastBackward_loop.simps InsertionSort_inner.simps InsertionSort_outer.simps
  MergeInternal_loop.simps MergeInPlace_loop.simps base_loop.simps
  count_A_loop.simps count_B_loop.simps find_buffers_loop.simps pull_left_loop.simps
  pull_right_loop.simps tag_loop.simps minA_loop.simps roll_loop.simps merge_pairs_loop.simps
  redistribute_right_loop.simps redistribute_left_loop.simps levels_loop.simps sqrt_from.simps

lemma unat_minus_1_size_t: "unat (- 1 :: size_t) = 18446744073709551615"
  by (simp add: unsigned_minus_1_eq_mask mask_eq_exp_minus_1)

text \<open>
  Claim C2, as stated, fails: with some comparators that are not orders \<^verbatim>\<open>new_WikiSort\<close>
  leaves the array. On the 8 items \<open>0, ..., 7\<close> with the comparator
  \<open>compare a b = (a + 2 b + 1) mod 5 - 2\<close>, the level of merges finds a buffer of 3 items to
  pull out to the left from position 3; the second search of the pulling loop answers 0, so
  that the loop calls \<^verbatim>\<open>Rotate\<close> with the amount \<open>0 - 1\<close> on the range \<open>[1, 2)\<close>, which
  calls \<^verbatim>\<open>Reverse\<close> on the range \<open>[1, 0)\<close>, whose length is \<open>2\<^sup>6\<^sup>4 - 1\<close>: its first
  \<^verbatim>\<open>Swap\<close> is at the positions \<open>2\<^sup>6\<^sup>3 - 1\<close> and \<open>2\<^sup>6\<^sup>3 + 1\<close>, outside the array.
\<close>

theorem new_WikiSort_leaves_the_array:
  "new_WikiSort [0, 1, 2, 3, 4, 5, 6, 7 :: nat] 8 (\<lambda>a b. int ((a + 2 * b + 1) mod 5) - 2) =
     fault OutOfBounds"
  by (simp add: evaluation_defs evaluation_simps unat_minus_1_size_t)

text \<open>
  Claim C2, amended. For every comparator whatsoever, comparators that are not consistent total
  orders included: whenever \<^verbatim>\<open>new_WikiSort\<close> returns, it has left the length of the array
  unchanged and its contents a permutation of the input contents; and on fewer than 8 items
  (\<open>len\<close> at most the number of items of the array) it does return.
\<close>

theorem new_WikiSort_keeps_the_items:
  "(new_WikiSort array len compare = ret array' \<longrightarrow>
      mset array' = mset array \<and> length array' = length array) \<and>
   (len < 8 \<and> unat len \<le> length array \<longrightarrow> (\<exists>array'. new_WikiSort array len compare = ret array'))"
proof (intro conjI impI)
  assume r: "new_WikiSort array len compare = ret array'"
  then show "mset array' = mset array"
    by (rule new_WikiSort_keeps)
  then show "length array' = length array"
    by (rule mset_eq_length)
next
  assume "len < 8 \<and> unat len \<le> length array"
  then show "\<exists>array'. new_WikiSort array len compare = ret array'"
    using new_WikiSort_returns_small by blast
qed

theorem new_WikiSort_keeps_the_items_witness:
  "new_WikiSort [0, 1, 2, 3, 4, 5, 6, 7 :: nat] 8 (\<lambda>a b. int ((a + 2 * b) mod 3) - 1) =
     ret [0, 4, 5, 6, 3, 7, 1, 2] \<and>
   mset [0, 4, 5, 6, 3, 7, 1, 2 :: nat] = mset [0, 1, 2, 3, 4, 5, 6, 7] \<and>
   length [0, 4, 5, 6, 3, 7, 1, 2 :: nat] = length [0, 1, 2, 3, 4, 5, 6, 7 :: nat] \<and>
   (\<exists>array'. new_WikiSort [2, 0, 1 :: nat] 3 (\<lambda>a b. int ((a + 2 * b) mod 3) - 1) = ret array')"
proof -
  have e: "new_WikiSort [0, 1, 2, 3, 4, 5, 6, 7 :: nat] 8 (\<lambda>a b. int ((a + 2 * b) mod 3) - 1) =
             ret [0, 4, 5, 6, 3, 7, 1, 2]"
    by (simp add: evaluation_defs evaluation_simps unat_minus_1_size_t)
  have s: "(3 :: size_t) < 8 \<and> unat (3 :: size_t) \<le> length [2, 0, 1 :: nat]"
    by simp
  show ?thesis
    using new_WikiSort_keeps_the_items [of "[0, 1, 2, 3, 4, 5, 6, 7]" 8
        "\<lambda>a b. int ((a + 2 * b) mod 3) - 1" "[0, 4, 5, 6, 3, 7, 1, 2]"]
      new_WikiSort_keeps_the_items [of "[2, 0, 1]" 3 "\<lambda>a b. int ((a + 2 * b) mod 3) - 1"] e s
    by blast
qed

end
